(* ===== verification/Prelude.thy ===== *)
theory Prelude
  imports Complex_Main "HOL-Library.Multiset" "HOL-Library.Signed_Division" "HOL-Library.Stream"
begin

text \<open>
  What every component of the model shares.

  A C function that reads and writes global state is a state transformer that either
  returns a value or stops. \<open>stop\<close> lists the ways control leaves a function other than
  by its return statement: a trap (\<open>DivZero\<close>, \<open>OutOfBounds\<close>), a call of \<open>abort\<close> or
  \<open>exit\<close>, a jump to one of the error labels of the transaction functions, and, for the
  loops of the source that have no bound of their own, the exhaustion of the fuel that the
  model gives them (\<open>OutOfFuel\<close>, not a behaviour of the program).

  \<open>bnd\<close> is sequencing with a result, \<open>thn\<close> sequencing without, \<open>handle\<close> the label at
  which a jump arrives, \<open>cfor\<close> a counting loop over the values its index takes.
  \<open>keeps R m\<close> says that \<open>m\<close> relates its initial and final state by \<open>R\<close> however it ends;
  for a reflexive and transitive \<open>R\<close> (locale \<open>state_relation\<close>) it goes through all
  combinators, so that a frame condition or a property of the calls a function makes is
  proved once per primitive operation.
\<close>

named_theorems keeps_intros "closure of \<open>keeps\<close> under the operations of the model"
named_theorems ok_simps "what a normal return of an operation says"

section \<open>Functions that stop\<close>

datatype label = Sqlerr | Sqlerr2 | Invaliditem | Retry

datatype stop =
    DivZero
  | OutOfBounds
  | Abort
  | Exit int
  | Goto label
  | OutOfFuel

type_synonym ('st, 'a) cm = "'st \<Rightarrow> (stop + 'a) \<times> 'st"

definition ret :: "'a \<Rightarrow> ('st, 'a) cm" where
  "ret a s = (Inr a, s)"

definition halt :: "stop \<Rightarrow> ('st, 'a) cm" where
  "halt e s = (Inl e, s)"

definition gets :: "('st \<Rightarrow> 'a) \<Rightarrow> ('st, 'a) cm" where
  "gets f s = (Inr (f s), s)"

definition modify :: "('st \<Rightarrow> 'st) \<Rightarrow> ('st, unit) cm" where
  "modify f s = (Inr (), f s)"

definition bnd :: "('st, 'a) cm \<Rightarrow> ('a \<Rightarrow> ('st, 'b) cm) \<Rightarrow> ('st, 'b) cm" where
  "bnd m f s = (case m s of (Inl e, s') \<Rightarrow> (Inl e, s') | (Inr a, s') \<Rightarrow> f a s')"

definition thn :: "('st, 'a) cm \<Rightarrow> ('st, 'b) cm \<Rightarrow> ('st, 'b) cm" where
  "thn m k = bnd m (\<lambda>_. k)"

definition handle :: "('st, 'a) cm \<Rightarrow> (stop \<Rightarrow> ('st, 'a) cm) \<Rightarrow> ('st, 'a) cm" where
  "handle m h s = (case m s of (Inl e, s') \<Rightarrow> h e s' | (Inr a, s') \<Rightarrow> (Inr a, s'))"

definition on_cond :: "bool \<Rightarrow> ('st, unit) cm \<Rightarrow> ('st, unit) cm" where
  "on_cond b m = (if b then m else ret ())"

primrec cfor :: "'i list \<Rightarrow> ('i \<Rightarrow> ('st, unit) cm) \<Rightarrow> ('st, unit) cm" where
  "cfor [] body = ret ()"
| "cfor (i # is) body = thn (body i) (cfor is body)"

primrec cfold :: "'i list \<Rightarrow> ('i \<Rightarrow> 'a \<Rightarrow> ('st, 'a) cm) \<Rightarrow> 'a \<Rightarrow> ('st, 'a) cm" where
  "cfold [] body acc = ret acc"
| "cfold (i # is) body acc = bnd (body i acc) (cfold is body)"

primrec replicateM :: "nat \<Rightarrow> ('st, 'a) cm \<Rightarrow> ('st, 'a list) cm" where
  "replicateM 0 m = ret []"
| "replicateM (Suc n) m = bnd m (\<lambda>a. bnd (replicateM n m) (\<lambda>as. ret (a # as)))"

text \<open>Reading an array of known length.\<close>

definition rd :: "'a list \<Rightarrow> int \<Rightarrow> ('st, 'a) cm" where
  "rd xs i = (if 0 \<le> i \<and> i < int (length xs) then ret (xs ! nat i) else halt OutOfBounds)"

lemma ret_eq: "ret a s = (Inr a, s)"
  by (simp add: ret_def)

lemma halt_eq: "halt e s = (Inl e, s)"
  by (simp add: halt_def)

lemma ret_iff [simp]: "ret a s = (Inr b, t) \<longleftrightarrow> a = b \<and> s = t" "ret a s \<noteq> (Inl e, t)"
  by (simp_all add: ret_def)

lemma halt_iff [simp]: "halt e s = (Inl e', t) \<longleftrightarrow> e = e' \<and> s = t" "halt e s \<noteq> (Inr a, t)"
  by (simp_all add: halt_def)

lemma snd_ret_halt [simp]: "snd (ret a s) = s" "snd (halt e s) = s"
  by (simp_all add: ret_def halt_def)

lemma gets_eq [simp]: "gets f s = (Inr (f s), s)"
  by (simp add: gets_def)

lemma modify_eq [simp]: "modify f s = (Inr (), f s)"
  by (simp add: modify_def)

lemma bnd_Inr: "m s = (Inr a, s') \<Longrightarrow> bnd m f s = f a s'"
  by (simp add: bnd_def)

lemma bnd_Inl: "m s = (Inl e, s') \<Longrightarrow> bnd m f s = (Inl e, s')"
  by (simp add: bnd_def)

lemma bnd_ret [simp]: "bnd (ret a) f = f a"
  by (rule ext) (simp add: bnd_def ret_def halt_def)

lemma bnd_halt [simp]: "bnd (halt e) f = halt e"
  by (rule ext) (simp add: bnd_def ret_def halt_def)

lemma bnd_gets [simp]: "bnd (gets g) f s = f (g s) s"
  by (simp add: bnd_def)

lemma bnd_modify [simp]: "bnd (modify g) f s = f () (g s)"
  by (simp add: bnd_def)

lemma thn_modify [simp]: "thn (modify g) k s = k (g s)"
  by (simp add: thn_def)

lemma thn_ret [simp]: "thn (ret a) k = k"
  by (simp add: thn_def)

lemma thn_halt [simp]: "thn (halt e) k = halt e"
  by (simp add: thn_def)

text \<open>For running an operation on a given state.\<close>

lemmas run_simps = bnd_def thn_def ret_eq halt_eq rd_def on_cond_def handle_def

lemma bnd_ok [ok_simps]:
  "bnd m f s = (Inr b, t) \<longleftrightarrow> (\<exists>a s'. m s = (Inr a, s') \<and> f a s' = (Inr b, t))"
  by (auto simp: bnd_def split: prod.splits sum.splits)

lemma thn_ok [ok_simps]:
  "thn m k s = (Inr b, t) \<longleftrightarrow> (\<exists>a s'. m s = (Inr a, s') \<and> k s' = (Inr b, t))"
  by (simp add: thn_def bnd_ok)

lemma bnd_stop:
  "bnd m f s = (Inl e, t) \<longleftrightarrow>
   m s = (Inl e, t) \<or> (\<exists>a s'. m s = (Inr a, s') \<and> f a s' = (Inl e, t))"
  by (auto simp: bnd_def split: prod.splits sum.splits)

lemma thn_stop:
  "thn m k s = (Inl e, t) \<longleftrightarrow>
   m s = (Inl e, t) \<or> (\<exists>a s'. m s = (Inr a, s') \<and> k s' = (Inl e, t))"
  by (simp add: thn_def bnd_stop)

lemma handle_ok:
  "handle m h s = (Inr b, t) \<longleftrightarrow>
   m s = (Inr b, t) \<or> (\<exists>e s'. m s = (Inl e, s') \<and> h e s' = (Inr b, t))"
  by (auto simp: handle_def split: prod.splits sum.splits)

lemma rd_ok [ok_simps]:
  "rd xs i s = (Inr x, t) \<longleftrightarrow> 0 \<le> i \<and> i < int (length xs) \<and> x = xs ! nat i \<and> t = s"
  by (auto simp: rd_def)

lemma on_cond_ok [ok_simps]:
  "on_cond b m s = (Inr u, t) \<longleftrightarrow> (if b then m s = (Inr u, t) else t = s)"
  by (auto simp: on_cond_def)

text \<open>A loop that returns, with an invariant that counts the rounds.\<close>

lemma cfor_counting:
  assumes "cfor js body s = (Inr u, t)" and "I n s"
    and "\<And>i n s t. i \<in> set js \<Longrightarrow> body i s = (Inr (), t) \<Longrightarrow> I n s \<Longrightarrow> I (Suc n) t"
  shows "I (n + length js) t"
  using assms
proof (induction js arbitrary: n s)
  case (Cons i js)
  then obtain s1 where first: "body i s = (Inr (), s1)" and rest: "cfor js body s1 = (Inr u, t)"
    by (auto simp: thn_ok)
  have second: "I (Suc n) s1" by (rule Cons.prems(3) [OF _ first Cons.prems(2)]) simp
  have "I (Suc n + length js) t"
    by (rule Cons.IH [OF rest second], rule Cons.prems(3)) simp_all
  then show ?case by simp
qed simp

section \<open>State relations that every operation respects\<close>

definition keeps :: "('st \<Rightarrow> 'st \<Rightarrow> bool) \<Rightarrow> ('st, 'a) cm \<Rightarrow> bool" where
  "keeps R m \<longleftrightarrow> (\<forall>s. R s (snd (m s)))"

lemma keepsI: "(\<And>s. R s (snd (m s))) \<Longrightarrow> keeps R m"
  by (simp add: keeps_def)

lemma keepsD: "keeps R m \<Longrightarrow> m s = (r, s') \<Longrightarrow> R s s'"
  by (metis keeps_def snd_conv)

lemma keeps_mono: "keeps R m \<Longrightarrow> (\<And>s t. R s t \<Longrightarrow> R' s t) \<Longrightarrow> keeps R' m"
  by (auto simp: keeps_def)

lemma keeps_modify: "(\<And>s. R s (f s)) \<Longrightarrow> keeps R (modify f)"
  by (simp add: keeps_def)

locale state_relation =
  fixes R :: "'st \<Rightarrow> 'st \<Rightarrow> bool"
  assumes R_refl: "R s s"
    and R_trans: "R s t \<Longrightarrow> R t u \<Longrightarrow> R s u"
begin

lemma ret_keeps [keeps_intros]: "keeps R (ret a)"
  by (simp add: keeps_def R_refl)

lemma halt_keeps [keeps_intros]: "keeps R (halt e)"
  by (simp add: keeps_def R_refl)

lemma gets_keeps [keeps_intros]: "keeps R (gets f)"
  by (simp add: keeps_def R_refl)

lemma rd_keeps [keeps_intros]: "keeps R (rd xs i)"
  by (simp add: keeps_def R_refl rd_def)

lemma bnd_keeps [keeps_intros]:
  "keeps R m \<Longrightarrow> (\<And>a. keeps R (f a)) \<Longrightarrow> keeps R (bnd m f)"
  by (auto simp: keeps_def bnd_def split: prod.splits sum.splits)
    (metis R_trans snd_conv)+

lemma thn_keeps [keeps_intros]: "keeps R m \<Longrightarrow> keeps R k \<Longrightarrow> keeps R (thn m k)"
  by (simp add: thn_def bnd_keeps)

lemma handle_keeps [keeps_intros]:
  "keeps R m \<Longrightarrow> (\<And>e. keeps R (h e)) \<Longrightarrow> keeps R (handle m h)"
  by (auto simp: keeps_def handle_def split: prod.splits sum.splits)
    (metis R_trans snd_conv)+

lemma on_cond_keeps [keeps_intros]: "keeps R m \<Longrightarrow> keeps R (on_cond b m)"
  by (simp add: on_cond_def ret_keeps)

lemma if_keeps [keeps_intros]:
  "(b \<Longrightarrow> keeps R m) \<Longrightarrow> (\<not> b \<Longrightarrow> keeps R k) \<Longrightarrow> keeps R (if b then m else k)"
  by simp

lemma cfor_keeps [keeps_intros]:
  "(\<And>i. i \<in> set is \<Longrightarrow> keeps R (body i)) \<Longrightarrow> keeps R (cfor is body)"
  by (induction "is") (simp_all add: ret_keeps thn_keeps)

lemma cfold_keeps [keeps_intros]:
  "(\<And>i a. i \<in> set is \<Longrightarrow> keeps R (body i a)) \<Longrightarrow> keeps R (cfold is body acc)"
  by (induction "is" arbitrary: acc) (simp_all add: ret_keeps bnd_keeps)

end

section \<open>Total correctness\<close>

text \<open>
  \<open>returns P m Q\<close>: from a state with \<open>P\<close>, \<open>m\<close> returns normally, with a value and a state
  related by \<open>Q\<close>. It rules out every \<open>stop\<close>, the exhausted fuel included.
\<close>

named_theorems returns_intros "rules for \<open>returns\<close>"

definition returns :: "('st \<Rightarrow> bool) \<Rightarrow> ('st, 'a) cm \<Rightarrow> ('a \<Rightarrow> 'st \<Rightarrow> bool) \<Rightarrow> bool" where
  "returns P m Q \<longleftrightarrow> (\<forall>s. P s \<longrightarrow> (\<exists>a t. m s = (Inr a, t) \<and> Q a t))"

lemma returnsI: "(\<And>s. P s \<Longrightarrow> \<exists>a t. m s = (Inr a, t) \<and> Q a t) \<Longrightarrow> returns P m Q"
  by (simp add: returns_def)

lemma returnsD: "returns P m Q \<Longrightarrow> P s \<Longrightarrow> \<exists>a t. m s = (Inr a, t) \<and> Q a t"
  by (simp add: returns_def)

lemma returnsE:
  assumes "returns P m Q" and "P s"
  obtains a t where "m s = (Inr a, t)" and "Q a t"
  using assms by (auto simp: returns_def)

lemma returns_ret: "(\<And>s. P s \<Longrightarrow> Q a s) \<Longrightarrow> returns P (ret a) Q"
  by (simp add: returns_def)

lemma returns_bnd:
  assumes "returns P m Q" and "\<And>a. returns (Q a) (f a) W"
  shows "returns P (bnd m f) W"
  unfolding returns_def
proof (intro allI impI)
  fix s assume "P s"
  with assms(1) obtain a t where "m s = (Inr a, t)" and "Q a t" by (rule returnsE)
  with assms(2) [of a] show "\<exists>b u. bnd m f s = (Inr b, u) \<and> W b u"
    by (auto simp: bnd_def returns_def)
qed

lemma returns_thn: "returns P m (\<lambda>_. Q) \<Longrightarrow> returns Q k W \<Longrightarrow> returns P (thn m k) W"
  unfolding thn_def by (rule returns_bnd)

lemma returns_conseq:
  "returns P m Q \<Longrightarrow> (\<And>s. P' s \<Longrightarrow> P s) \<Longrightarrow> (\<And>a s. Q a s \<Longrightarrow> Q' a s) \<Longrightarrow> returns P' m Q'"
  by (fastforce simp: returns_def)

lemma returns_gets: "returns P (gets f) (\<lambda>a s. P s \<and> a = f s)"
  by (simp add: returns_def)

lemma returns_modify: "(\<And>s. P s \<Longrightarrow> Q () (f s)) \<Longrightarrow> returns P (modify f) Q"
  by (simp add: returns_def)

lemma returns_if:
  "(b \<Longrightarrow> returns P m Q) \<Longrightarrow> (\<not> b \<Longrightarrow> returns P k Q) \<Longrightarrow> returns P (if b then m else k) Q"
  by simp

lemma returns_cfor:
  assumes "\<And>i. i \<in> set js \<Longrightarrow> returns I (body i) (\<lambda>_. I)"
  shows "returns I (cfor js body) (\<lambda>_. I)"
  using assms by (induction js) (auto intro!: returns_ret returns_thn)

lemma returns_pure:
  "(b \<Longrightarrow> returns P m Q) \<Longrightarrow> returns (\<lambda>s. P s \<and> b) m (\<lambda>a s. Q a s \<and> b)"
  by (auto simp: returns_def)

lemma returns_rd: "returns (\<lambda>s. P s \<and> 0 \<le> i \<and> i < int (length xs)) (rd xs i)
    (\<lambda>a s. P s \<and> a = xs ! nat i)"
  by (simp add: returns_def rd_def)

section \<open>Index ranges\<close>

lemma upto_map_int: "[0..n - 1] = map int [0..<nat n]"
  by (rule nth_equalityI) auto

section \<open>Exchanging two elements of an array\<close>

definition swp :: "int \<Rightarrow> int \<Rightarrow> 'a list \<Rightarrow> 'a list" where
  "swp i j xs = xs[nat i := xs ! nat j, nat j := xs ! nat i]"

definition in_range :: "int \<Rightarrow> 'a list \<Rightarrow> bool" where
  "in_range i xs \<longleftrightarrow> 0 \<le> i \<and> i < int (length xs)"

lemma length_swp [simp]: "length (swp i j xs) = length xs"
  by (simp add: swp_def)

lemma mset_swp: "in_range i xs \<Longrightarrow> in_range j xs \<Longrightarrow> mset (swp i j xs) = mset xs"
  unfolding swp_def in_range_def by (subst mset_swap) auto

lemma swp_nth:
  "in_range i xs \<Longrightarrow> in_range j xs \<Longrightarrow> k < length xs \<Longrightarrow>
   swp i j xs ! k = (if k = nat j then xs ! nat i else if k = nat i then xs ! nat j else xs ! k)"
  by (auto simp: swp_def in_range_def nth_list_update)

text \<open>
  The exchange in an array that is part of the state: \<open>arr\<close> reads the array, \<open>upd\<close>
  replaces it. An index outside the array stops the program.
\<close>

definition swap_in ::
  "('st \<Rightarrow> 'a list) \<Rightarrow> ('a list \<Rightarrow> 'st \<Rightarrow> 'st) \<Rightarrow> int \<Rightarrow> int \<Rightarrow> ('st, unit) cm" where
  "swap_in arr upd i j s =
     (if in_range i (arr s) \<and> in_range j (arr s)
      then (Inr (), upd (swp i j (arr s)) s) else (Inl OutOfBounds, s))"

definition same_elems :: "('st \<Rightarrow> 'a list) \<Rightarrow> 'st \<Rightarrow> 'st \<Rightarrow> bool" where
  "same_elems arr s t \<longleftrightarrow> mset (arr s) = mset (arr t)"

text \<open>
  An array held in the state, and the shuffling loops over it: whatever indices such a
  loop draws, the array keeps its elements, and indices drawn inside the array never stop it.
\<close>

locale array_field =
  fixes arr :: "'st \<Rightarrow> 'a list" and upd :: "'a list \<Rightarrow> 'st \<Rightarrow> 'st"
  assumes arr_upd: "arr (upd xs s) = xs"
begin

lemma swap_in_keeps: "keeps (same_elems arr) (swap_in arr upd i j)"
  by (auto simp: keeps_def same_elems_def swap_in_def arr_upd mset_swp)

lemma swap_in_returns:
  "0 \<le> i \<Longrightarrow> i < int n \<Longrightarrow> 0 \<le> j \<Longrightarrow> j < int n \<Longrightarrow>
   returns (\<lambda>s. length (arr s) = n) (swap_in arr upd i j) (\<lambda>_ s. length (arr s) = n)"
  by (simp add: returns_def swap_in_def in_range_def arr_upd)

end

sublocale array_field \<subseteq> elems: state_relation "same_elems arr"
  by unfold_locales (simp_all add: same_elems_def)

section \<open>Text\<close>

text \<open>The pieces of a list between the occurrences of a separator.\<close>

fun split_at :: "'a \<Rightarrow> 'a list \<Rightarrow> 'a list list" where
  "split_at c [] = [[]]"
| "split_at c (x # xs) = (if x = c then [] # split_at c xs
     else (x # hd (split_at c xs)) # tl (split_at c xs))"

lemma split_at_not_Nil: "split_at c xs \<noteq> []"
  by (cases xs) auto

lemma split_at_append: "c \<notin> set xs \<Longrightarrow> split_at c (xs @ c # ys) = xs # split_at c ys"
  by (induction xs) auto

lemma split_at_none: "c \<notin> set xs \<Longrightarrow> split_at c xs = [xs]"
  by (induction xs) auto

end
