(* ===== verification/CFloat.thy ===== *)
theory CFloat
  imports Prelude "HOL-Library.Log_Nat"
begin

text \<open>
  The \<open>float\<close> and \<open>double\<close> values of the C code. A value is the rational number it
  stands for, and every operation of the code rounds its exact result to 24 (float) or 53
  (double) significant bits, to nearest with ties to even, as IEEE 754 prescribes.
  The exponent range is unbounded: the magnitudes in this program (prices, balances,
  response times, seconds since 1970) stay far from overflow and from the subnormals.
  Infinities and NaN appear in one place only, the rate computation of the driver, and
  are modelled there (\<open>dbl\<close>).
\<close>

definition rne :: "rat \<Rightarrow> int" where
  "rne x = (let f = \<lfloor>x\<rfloor>; d = x - of_int f in
     if d < 1 / 2 then f
     else if 1 / 2 < d then f + 1
     else if even f then f else f + 1)"

text \<open>The binary exponent of a number other than 0: \<open>2 ^ e \<le> \<bar>x\<bar> < 2 ^ (e + 1)\<close>.\<close>

definition bin_exp :: "rat \<Rightarrow> int" where
  "bin_exp x = (let (n, d) = quotient_of \<bar>x\<bar>; k = bitlen n - bitlen d in
     if 2 powi k \<le> \<bar>x\<bar> then k else k - 1)"

definition fl :: "nat \<Rightarrow> rat \<Rightarrow> rat" where
  "fl p x = (if x = 0 then 0
     else let e = bin_exp x - int (p - 1) in of_int (rne (x / 2 powi e)) * 2 powi e)"

definition f32 :: "rat \<Rightarrow> rat" where
  "f32 x = fl 24 x"

definition f64 :: "rat \<Rightarrow> rat" where
  "f64 x = fl 53 x"

text \<open>Conversion of a floating value to \<open>int\<close>: the fraction is discarded.\<close>

definition trunc_int :: "rat \<Rightarrow> int" where
  "trunc_int x = (if 0 \<le> x then \<lfloor>x\<rfloor> else \<lceil>x\<rceil>)"

text \<open>
  The same to the 32 bits of an \<open>int\<close>: of a value outside its range, for which C leaves the
  conversion undefined, the instruction \<^verbatim>\<open>cvttsd2si\<close> of the compiled code makes the least \<open>int\<close>.
\<close>

definition dbl_to_int :: "rat \<Rightarrow> int" where
  "dbl_to_int x = (let i = trunc_int x in
     if - 2147483648 \<le> i \<and> i < 2147483648 then i else - 2147483648)"

lemma rne_of_int [simp]: "rne (of_int n) = n"
  by (simp add: rne_def)

lemma rne_nonneg: "0 \<le> x \<Longrightarrow> 0 \<le> rne x"
  by (simp add: rne_def Let_def)

lemma rne_ge: "\<lfloor>x\<rfloor> \<le> rne x"
  by (simp add: rne_def Let_def)

lemma rne_le: "rne x \<le> \<lfloor>x\<rfloor> + 1"
  by (simp add: rne_def Let_def)

lemma rne_nonpos:
  assumes "x \<le> 0"
  shows "rne x \<le> 0"
proof (cases "\<lfloor>x\<rfloor> = 0")
  case True
  with assms have "x = 0" by linarith
  then show ?thesis by (simp add: rne_def)
next
  case False
  moreover have "\<lfloor>x\<rfloor> \<le> 0" using assms by linarith
  ultimately show ?thesis using rne_le [of x] by linarith
qed

lemma fl_0 [simp]: "fl p 0 = 0"
  by (simp add: fl_def)

lemma fl_nonneg: "0 \<le> x \<Longrightarrow> 0 \<le> fl p x"
  by (auto simp: fl_def Let_def intro!: mult_nonneg_nonneg rne_nonneg divide_nonneg_pos)

lemma fl_nonpos: "x \<le> 0 \<Longrightarrow> fl p x \<le> 0"
  by (auto simp: fl_def Let_def intro!: mult_nonpos_nonneg rne_nonpos divide_nonpos_pos)

lemma bin_exp_int:
  assumes "0 < n"
  shows "bin_exp (of_int n) = bitlen n - 1"
proof -
  have "2 ^ nat (bitlen n - 1) \<le> n" using bitlen_bounds [OF assms] by simp
  moreover have b: "1 \<le> bitlen n"
    using assms bitlen_bounds [OF assms] bitlen_nonneg [of n]
    by (cases "bitlen n = 0") auto
  ultimately have "(2 :: rat) powi (bitlen n - 1) \<le> of_int n"
    using of_int_le_iff [of "2 ^ nat (bitlen n - 1)" n, where 'a = rat]
    by (simp add: power_int_def)
  moreover have "bitlen 1 = 1" by (simp add: bitlen_def floorlog_def)
  ultimately show ?thesis using assms by (simp add: bin_exp_def quotient_of_int)
qed

lemma fl_of_int:
  assumes "0 < p" and "0 \<le> n" and "n < 2 ^ p"
  shows "fl p (of_int n) = of_int n"
proof (cases "n = 0")
  case False
  with assms have n: "0 < n" by simp
  define e where "e = bitlen n - 1 - int (p - 1)"
  have "2 ^ nat (bitlen n - 1) \<le> n" using bitlen_bounds [OF n] by simp
  with assms(3) have "(2 :: int) ^ nat (bitlen n - 1) < 2 ^ p" by linarith
  then have "nat (bitlen n - 1) < p" by simp
  with assms(1) have e: "e \<le> 0" by (simp add: e_def)
  have "of_int n / (2 :: rat) powi e = of_int (n * 2 ^ nat (- e))"
    using e by (simp add: power_int_def field_simps)
  moreover have "fl p (of_int n) = of_int (rne (of_int n / 2 powi e)) * 2 powi e"
    using n by (simp add: fl_def bin_exp_int e_def Let_def)
  ultimately have "fl p (of_int n) = of_int (n * 2 ^ nat (- e)) * 2 powi e"
    by (simp only: rne_of_int)
  also have "\<dots> = of_int n"
    using e by (simp add: power_int_def field_simps)
  finally show ?thesis .
qed simp

lemma bin_exp_le:
  assumes "0 < x"
  shows "2 powi bin_exp x \<le> x"
proof -
  obtain n d where q: "quotient_of x = (n, d)" by fastforce
  have x: "x = of_int n / of_int d" and d: "0 < d"
    using quotient_of_div [OF q] quotient_of_denom_pos [OF q] by auto
  with assms have n: "0 < n" by (simp add: zero_less_divide_iff)
  have "2 ^ nat (bitlen n - 1) \<le> n" using bitlen_bounds [OF n] by simp
  then have bn: "(2 :: rat) powi (bitlen n - 1) \<le> of_int n"
    using of_int_le_iff [of "2 ^ nat (bitlen n - 1)" n, where 'a = rat] n
    by (simp add: power_int_def bitlen_def)
  have "d \<le> 2 ^ nat (bitlen d)" using bitlen_bounds [OF d] by simp
  then have bd: "of_int d \<le> (2 :: rat) powi bitlen d"
    using of_int_le_iff [of d "2 ^ nat (bitlen d)", where 'a = rat]
    by (simp add: power_int_def bitlen_nonneg)
  define k where "k = bitlen n - bitlen d"
  have "(2 :: rat) powi (k - 1) = 2 powi (bitlen n - 1) / 2 powi bitlen d"
    unfolding k_def by (simp add: power_int_diff [symmetric] algebra_simps)
  also have "\<dots> \<le> of_int n / of_int d"
    using bn bd d n by (intro frac_le) simp_all
  finally have "2 powi (k - 1) \<le> x" by (simp add: x)
  with assms q show ?thesis by (simp add: bin_exp_def k_def [symmetric] Let_def)
qed

lemma fl_quotient_ge_1:
  assumes "0 < x"
  shows "1 \<le> x / 2 powi (bin_exp x - int (p - 1))"
proof -
  have "(2 :: rat) powi (bin_exp x - int (p - 1)) \<le> 2 powi bin_exp x"
    by (rule power_int_increasing) simp_all
  with bin_exp_le [OF assms] have "2 powi (bin_exp x - int (p - 1)) \<le> x" by linarith
  then show ?thesis by (simp add: le_divide_eq)
qed

lemma fl_pos:
  assumes "0 < x"
  shows "0 < fl p x"
proof -
  let ?y = "x / 2 powi (bin_exp x - int (p - 1))"
  have "1 \<le> \<lfloor>?y\<rfloor>" using fl_quotient_ge_1 [OF assms, of p] by (simp only: one_le_floor)
  then have "1 \<le> rne ?y" using rne_ge [of ?y] by linarith
  with assms show ?thesis by (simp add: fl_def Let_def)
qed

lemma fl_le_twice:
  assumes "0 \<le> x"
  shows "fl p x \<le> 2 * x"
proof (cases "x = 0")
  case False
  with assms have x: "0 < x" by simp
  define e where "e = bin_exp x - int (p - 1)"
  define y where "y = x / 2 powi e"
  have "1 \<le> y" using fl_quotient_ge_1 [OF x, of p] by (simp add: y_def e_def)
  moreover have "of_int (rne y) \<le> (of_int (\<lfloor>y\<rfloor> + 1) :: rat)"
    using rne_le [of y] by (simp only: of_int_le_iff)
  ultimately have "of_int (rne y) \<le> 2 * y" by linarith
  then have "of_int (rne y) * 2 powi e \<le> 2 * y * 2 powi e"
    by (rule mult_right_mono) simp
  with x show ?thesis by (simp add: fl_def Let_def y_def e_def)
qed simp

text \<open>Rounding errors, and the integers that rounding does not cross.\<close>

lemma rne_error: "\<bar>of_int (rne x) - x\<bar> \<le> 1 / 2"
proof -
  have "of_int \<lfloor>x\<rfloor> \<le> x" "x < of_int \<lfloor>x\<rfloor> + 1" by linarith+
  then show ?thesis by (auto simp: rne_def Let_def abs_le_iff)
qed

lemma fl_error:
  assumes "0 < x" and "x < 2 powi (k + 1)"
  shows "\<bar>fl p x - x\<bar> \<le> 2 powi (k - int (p - 1)) / 2"
proof -
  define e where "e = bin_exp x - int (p - 1)"
  define y where "y = x / 2 powi e"
  from bin_exp_le [OF assms(1)] assms(2) have "(2 :: rat) powi bin_exp x < 2 powi (k + 1)" by linarith
  then have "bin_exp x < k + 1"
    using power_int_increasing [of "k + 1" "bin_exp x" "2 :: rat"] by linarith
  then have le: "(2 :: rat) powi e \<le> 2 powi (k - int (p - 1))"
    unfolding e_def by (intro power_int_increasing) simp_all
  have "fl p x - x = (of_int (rne y) - y) * 2 powi e"
    using assms(1) by (simp add: fl_def Let_def e_def y_def algebra_simps)
  then have "\<bar>fl p x - x\<bar> = \<bar>of_int (rne y) - y\<bar> * 2 powi e" by (simp add: abs_mult)
  also have "\<dots> \<le> 1 / 2 * 2 powi e" by (intro mult_right_mono rne_error) simp
  finally show ?thesis using le by simp
qed

lemma fl_ge_int:
  assumes "0 < m" and "of_int m \<le> x" and "m < 2 ^ p" and "0 < p"
  shows "of_int m \<le> fl p x"
proof -
  define e where "e = bin_exp x - int (p - 1)"
  define y where "y = x / 2 powi e"
  have x: "0 < x" using assms(1) by (intro less_le_trans [OF _ assms(2)]) simp
  have fl: "fl p x = of_int (rne y) * 2 powi e"
    using x by (simp add: fl_def Let_def e_def y_def)
  show ?thesis
  proof (cases "e \<le> 0")
    case True
    have "of_int (m * 2 ^ nat (- e)) = of_int m / (2 :: rat) powi e"
      using True by (simp add: power_int_def field_simps)
    also have "\<dots> \<le> y" unfolding y_def by (intro divide_right_mono assms(2)) simp
    finally have "m * 2 ^ nat (- e) \<le> \<lfloor>y\<rfloor>" by (simp only: le_floor_iff)
    with rne_ge [of y] have "m * 2 ^ nat (- e) \<le> rne y" by linarith
    then have "of_int (m * 2 ^ nat (- e)) * (2 :: rat) powi e \<le> of_int (rne y) * 2 powi e"
      by (intro mult_right_mono) (simp_all only: of_int_le_iff, simp)
    moreover have "of_int (m * 2 ^ nat (- e)) * (2 :: rat) powi e = of_int m"
      using True by (simp add: power_int_def field_simps)
    ultimately show ?thesis by (simp only: fl)
  next
    case False
    have "2 powi bin_exp x \<le> x" by (rule bin_exp_le [OF x])
    moreover have "(2 :: rat) powi bin_exp x = 2 ^ (p - 1) * 2 powi e"
      by (simp add: e_def power_int_diff)
    ultimately have "of_int (2 ^ (p - 1)) \<le> y" by (simp add: y_def le_divide_eq)
    then have "2 ^ (p - 1) \<le> \<lfloor>y\<rfloor>" by (simp only: le_floor_iff)
    with rne_ge [of y] have r: "2 ^ (p - 1) \<le> rne y" by linarith
    moreover have "(0 :: int) \<le> 2 ^ (p - 1)" by simp
    ultimately have r0: "0 \<le> rne y" by linarith
    have "(2 :: rat) = 2 powi 1" by simp
    also have "\<dots> \<le> 2 powi e" using False by (intro power_int_increasing) simp_all
    finally have two: "(2 :: rat) \<le> 2 powi e" .
    have "m < 2 ^ (p - 1) * 2" using assms(3,4) by (cases p) simp_all
    then have "(of_int m :: rat) \<le> of_int (2 ^ (p - 1)) * 2"
      by (metis less_imp_le of_int_le_iff of_int_mult of_int_numeral)
    also have "\<dots> \<le> of_int (rne y) * 2 powi e"
      using r r0 two by (intro mult_mono iffD2 [OF of_int_le_iff]) simp_all
    finally show ?thesis by (simp only: fl)
  qed
qed

lemmas f32_sign = fl_nonneg [of _ 24, folded f32_def] fl_nonpos [of _ 24, folded f32_def]
lemmas f64_sign = fl_nonneg [of _ 53, folded f64_def] fl_nonpos [of _ 53, folded f64_def]

lemma f_0 [simp]: "f32 0 = 0" "f64 0 = 0"
  by (simp_all add: f32_def f64_def)

lemmas f64_pos = fl_pos [of _ 53, folded f64_def]
lemmas f64_le_twice = fl_le_twice [of _ 53, folded f64_def]

lemma f32_of_int: "0 \<le> n \<Longrightarrow> n < 16777216 \<Longrightarrow> f32 (of_int n) = of_int n"
  by (simp add: f32_def fl_of_int)

lemma f64_of_int: "0 \<le> n \<Longrightarrow> n < 9007199254740992 \<Longrightarrow> f64 (of_int n) = of_int n"
  by (simp add: f64_def fl_of_int)

lemma f64_close:
  assumes "0 \<le> x" and "x < of_nat n" and "0 < n"
  shows "f64 x \<le> x + of_nat n / 2 ^ 53"
proof (cases "x = 0")
  case False
  define k where "k = bitlen (int n) - 1"
  have b: "2 ^ nat k \<le> int n" "int n < 2 ^ nat (k + 1)" "0 \<le> k"
    using bitlen_bounds [of "int n"] assms(3) bitlen_nonneg [of "int n"]
      bitlen_eq_zero_iff [of "int n"] by (auto simp: k_def)
  have "(2 :: rat) powi (k + 1) = of_int (2 ^ nat (k + 1))" using b(3) by (simp add: power_int_def)
  moreover have "(of_nat n :: rat) < of_int (2 ^ nat (k + 1))" using b(2) by (metis of_int_less_iff of_int_of_nat_eq)
  ultimately have "x < 2 powi (k + 1)" using assms(2) by linarith
  then have "\<bar>fl 53 x - x\<bar> \<le> 2 powi (k - int (53 - 1)) / 2" using assms(1) False by (intro fl_error) auto
  also have "(2 :: rat) powi (k - int (53 - 1)) / 2 = 2 powi k / 2 ^ 53" by (simp add: power_int_diff)
  also have "(2 :: rat) powi k = of_int (2 ^ nat k)" using b(3) by (simp add: power_int_def)
  also have "of_int (2 ^ nat k) / 2 ^ 53 \<le> (of_nat n :: rat) / 2 ^ 53"
    using b(1) by (intro divide_right_mono) (metis of_int_le_iff of_int_of_nat_eq, simp)
  finally show ?thesis unfolding f64_def by linarith
qed simp

lemma trunc_int_of_int [simp]: "trunc_int (of_int n) = n"
  by (simp add: trunc_int_def)

lemma trunc_int_nonneg: "0 \<le> x \<Longrightarrow> 0 \<le> trunc_int x"
  by (simp add: trunc_int_def)

lemma dbl_to_int_range:
  assumes "0 \<le> x" and "x < 2147483648"
  shows "dbl_to_int x = \<lfloor>x\<rfloor>" and "0 \<le> dbl_to_int x"
proof -
  have "\<lfloor>x\<rfloor> < 2147483648" using assms(2) by (simp add: floor_less_iff)
  moreover have "0 \<le> \<lfloor>x\<rfloor>" using assms(1) by simp
  ultimately show "dbl_to_int x = \<lfloor>x\<rfloor>" "0 \<le> dbl_to_int x"
    using assms(1) by (simp_all add: dbl_to_int_def trunc_int_def Let_def)
qed

section \<open>Infinities\<close>

text \<open>
  A \<open>double\<close> that can be infinite or NaN: a rate, whose denominator can be 0. A difference of equal
  numbers is \<open>+0.0\<close>.
\<close>

datatype dbl = Fin rat | PInf | NInf | NaN

definition dbl_div :: "rat \<Rightarrow> rat \<Rightarrow> dbl" where
  "dbl_div x y = (if y \<noteq> 0 then Fin (f64 (x / y))
     else if x > 0 then PInf else if x < 0 then NInf else NaN)"

fun dbl_times :: "dbl \<Rightarrow> rat \<Rightarrow> dbl" where
  "dbl_times (Fin x) y = Fin (f64 (x * y))"
| "dbl_times PInf y = (if y > 0 then PInf else if y < 0 then NInf else NaN)"
| "dbl_times NInf y = (if y > 0 then NInf else if y < 0 then PInf else NaN)"
| "dbl_times NaN y = NaN"

fun dbl_greater :: "dbl \<Rightarrow> rat \<Rightarrow> bool" where
  "dbl_greater (Fin x) y \<longleftrightarrow> x > y"
| "dbl_greater PInf y \<longleftrightarrow> True"
| "dbl_greater NInf y \<longleftrightarrow> False"
| "dbl_greater NaN y \<longleftrightarrow> False"

end
