(* ===== verification/CInt.thy ===== *)
theory CInt
  imports Prelude "HOL-Library.Word"
begin

text \<open>
  An \<open>int\<close> has 32 bits: a conversion from \<open>long\<close> keeps the low 32, and arithmetic that
  overflows, which C leaves undefined, wraps around in the code that compilers make of it.
\<close>

definition c_int :: "int \<Rightarrow> int" where
  "c_int n = sint (word_of_int n :: 32 word)"

lemma c_int_id: "- 2147483648 \<le> n \<Longrightarrow> n < 2147483648 \<Longrightarrow> c_int n = n"
  unfolding c_int_def sint_sbintrunc' by (intro signed_take_bit_int_eq_self) simp_all

lemma c_int_less: "c_int n < 2147483648"
  using sint_lt [of "word_of_int n :: 32 word"] by (simp add: c_int_def)

lemma c_int_ge: "- 2147483648 \<le> c_int n"
  using sint_ge [of "word_of_int n :: 32 word"] by (simp add: c_int_def)

lemma c_int_add [simp]: "c_int (c_int m + n) = c_int (m + n)"
  by (simp add: c_int_def)

lemma c_int_add_period: "c_int (n + 4294967296) = c_int n"
proof -
  have "(word_of_int 4294967296 :: 32 word) = 0" by simp
  then show ?thesis by (simp only: c_int_def of_int_add of_int_numeral add_0_right)
qed

end
