(* ===== verification/Support.thy ===== *)
theory Support
  imports CFloat CInt "HOL-Library.Sublist"
begin

text \<open>
  The support routines of \<^verbatim>\<open>tpcc-mysql/src/support.c\<close>: random numbers, random strings,
  timestamps, the permutation of the customers of a district, and customer last names.

  The state holds the file's static variables and what the routines read from outside:
  the results of \<open>rand\<close>, the contents found in uninitialised memory, and the strings that
  \<open>strftime\<close> produces from the clock.
\<close>

unbundle bit_operations_syntax

section \<open>State\<close>

record support =
  rng :: "nat stream"              \<comment> \<open>the results of the coming calls of \<open>rand\<close>\<close>
  garbage :: "32 word stream"      \<comment> \<open>what uninitialised variables are found to hold\<close>
  stamps :: "string option stream" \<comment> \<open>results of \<open>strftime\<close>; \<open>None\<close> when it returns 0\<close>
  nurand_first :: bool             \<comment> \<open>the static \<open>first\<close> of \<open>NURand\<close>\<close>
  nums :: "int list"
  perm_count :: int

definition CUST_PER_DIST :: int where
  "CUST_PER_DIST = 3000"

definition ORD_PER_DIST :: int where
  "ORD_PER_DIST = 3000"

definition DIST_PER_WARE :: int where
  "DIST_PER_WARE = 10"

definition MAXITEMS :: int where
  "MAXITEMS = 100000"

section \<open>Random numbers\<close>

text \<open>\<open>rand\<close> returns a number in \<open>0 \<dots> RAND_MAX\<close>, with \<open>RAND_MAX = 2 ^ 31 - 1\<close> in glibc.\<close>

definition c_rand :: "('z support_scheme, int) cm" where
  "c_rand s = (Inr (int (shd (rng s) mod 2147483648)), s\<lparr>rng := stl (rng s)\<rparr>)"

definition uninit :: "('z support_scheme, 32 word) cm" where
  "uninit s = (Inr (shd (garbage s)), s\<lparr>garbage := stl (garbage s)\<rparr>)"

definition RandomNumber :: "int \<Rightarrow> int \<Rightarrow> ('z support_scheme, int) cm" where
  "RandomNumber lo hi = bnd c_rand (\<lambda>r.
     if hi - lo + 1 = 0 then halt DivZero else ret (lo + r smod (hi - lo + 1)))"

text \<open>
  \<open>C_255\<close>, \<open>C_1023\<close> and \<open>C_8191\<close> are automatic variables that only the first call
  assigns: later calls read whatever is in their place. The arithmetic is on \<open>unsigned\<close>.
\<close>

definition nurand_constants :: "('z support_scheme, 32 word \<times> 32 word \<times> 32 word) cm" where
  "nurand_constants = bnd (gets nurand_first) (\<lambda>first.
     if first then
       bnd (RandomNumber 0 255) (\<lambda>C_255.
       bnd (RandomNumber 0 1023) (\<lambda>C_1023.
       bnd (RandomNumber 0 8191) (\<lambda>C_8191.
       thn (modify (\<lambda>s. s\<lparr>nurand_first := False\<rparr>))
         (ret (word_of_int C_255, word_of_int C_1023, word_of_int C_8191)))))
     else
       bnd uninit (\<lambda>C_255. bnd uninit (\<lambda>C_1023. bnd uninit (\<lambda>C_8191.
         ret (C_255, C_1023, C_8191)))))"

definition NURand :: "int \<Rightarrow> int \<Rightarrow> int \<Rightarrow> ('z support_scheme, int) cm" where
  "NURand A x y = bnd nurand_constants (\<lambda>(C_255, C_1023, C_8191).
     bnd (if A = 255 then ret C_255
          else if A = 1023 then ret C_1023
          else if A = 8191 then ret C_8191
          else halt Abort) (\<lambda>C.
     bnd (RandomNumber 0 A) (\<lambda>r1.
     bnd (RandomNumber x y) (\<lambda>r2.
       let m = word_of_int y - word_of_int x + 1 :: 32 word in
       if m = 0 then halt DivZero
       else ret (sint ((word_of_int (r1 OR r2) + C) mod m + word_of_int x))))))"

section \<open>Random strings\<close>

definition alphanum :: string where
  "alphanum = ''0123456789ABCDEFGHIJKLMNOPQRSTUVWXYZabcdefghijklmnopqrstuvwxyz''"

definition numeric :: string where
  "numeric = ''0123456789''"

primrec pick_chars :: "string \<Rightarrow> int \<Rightarrow> nat \<Rightarrow> ('z support_scheme, string) cm" where
  "pick_chars tab arrmax 0 = ret []"
| "pick_chars tab arrmax (Suc n) =
     bnd (RandomNumber 0 arrmax) (\<lambda>i.
     bnd (rd tab i) (\<lambda>c.
     bnd (pick_chars tab arrmax n) (\<lambda>cs. ret (c # cs))))"

text \<open>The result stands for the characters stored in \<open>str\<close>; its length is the value returned.\<close>

definition MakeAlphaString :: "int \<Rightarrow> int \<Rightarrow> ('z support_scheme, string) cm" where
  "MakeAlphaString x y = bnd (RandomNumber x y) (\<lambda>len. pick_chars alphanum 61 (nat len))"

definition MakeNumberString :: "int \<Rightarrow> int \<Rightarrow> ('z support_scheme, string) cm" where
  "MakeNumberString x y = bnd (RandomNumber x y) (\<lambda>len. pick_chars numeric 9 (nat len))"

definition gettimestamp :: "('z support_scheme, string) cm" where
  "gettimestamp s = (case shd (stamps s) of
       None \<Rightarrow> (Inl Abort, s\<lparr>stamps := stl (stamps s)\<rparr>)
     | Some str \<Rightarrow> (Inr str, s\<lparr>stamps := stl (stamps s)\<rparr>))"

section \<open>The permutation of the customers\<close>

abbreviation set_nums :: "int list \<Rightarrow> 'z support_scheme \<Rightarrow> 'z support_scheme" where
  "set_nums xs \<equiv> \<lambda>s. s\<lparr>nums := xs\<rparr>"

definition InitPermutation :: "('z support_scheme, unit) cm" where
  "InitPermutation =
     thn (modify (\<lambda>s. s\<lparr>perm_count := 0, nums := [1..ORD_PER_DIST]\<rparr>))
      (cfor [0..ORD_PER_DIST - 2] (\<lambda>i.
         bnd (RandomNumber (i + 1) (ORD_PER_DIST - 1)) (\<lambda>j. swap_in nums set_nums i j)))"

definition GetPermutation :: "('z support_scheme, int) cm" where
  "GetPermutation = bnd (gets perm_count) (\<lambda>k.
     if k \<ge> ORD_PER_DIST then halt Abort
     else bnd (gets nums) (\<lambda>xs. bnd (rd xs k) (\<lambda>v.
       thn (modify (\<lambda>s. s\<lparr>perm_count := k + 1\<rparr>)) (ret v))))"

section \<open>Last names\<close>

definition syllables :: "string list" where
  "syllables = [''BAR'', ''OUGHT'', ''ABLE'', ''PRI'', ''PRES'',
     ''ESE'', ''ANTI'', ''CALLY'', ''ATION'', ''EING'']"

definition Lastname :: "int \<Rightarrow> ('st, string) cm" where
  "Lastname num =
     bnd (rd syllables (num sdiv 100)) (\<lambda>a.
     bnd (rd syllables ((num sdiv 10) smod 10)) (\<lambda>b.
     bnd (rd syllables (num smod 10)) (\<lambda>c. ret (a @ b @ c))))"

section \<open>Lemmas: random numbers\<close>

lemma smod_nonneg_eq: "0 \<le> a \<Longrightarrow> 0 < b \<Longrightarrow> a smod b = a mod (b :: int)"
  by (cases "a = 0") (simp_all add: signed_modulo_int_def)

lemma sdiv_nonneg_eq: "0 \<le> a \<Longrightarrow> 0 < b \<Longrightarrow> a sdiv b = a div (b :: int)"
  by (cases "a = 0") (simp_all add: signed_divide_int_def)

text \<open>The draws change the random stream and nothing else.\<close>

definition rng_frame :: "'z support_scheme \<Rightarrow> 'z support_scheme \<Rightarrow> bool" where
  "rng_frame s t \<longleftrightarrow> t = s\<lparr>rng := rng t\<rparr>"

interpretation rngf: state_relation rng_frame
proof
  show "rng_frame s s" for s :: "'z support_scheme"
    by (simp add: rng_frame_def)
  show "rng_frame s t \<Longrightarrow> rng_frame t u \<Longrightarrow> rng_frame s u" for s t u :: "'z support_scheme"
    unfolding rng_frame_def by (metis support.update_convs(1) support.surjective)
qed

lemma RandomNumber_run:
  assumes "lo \<le> hi"
  shows "RandomNumber lo hi s =
    (Inr (lo + int (shd (rng s) mod 2147483648) mod (hi - lo + 1)), s\<lparr>rng := stl (rng s)\<rparr>)"
  using assms by (simp add: RandomNumber_def c_rand_def run_simps smod_nonneg_eq)

lemma RandomNumber_frame [keeps_intros]: "keeps rng_frame (RandomNumber lo hi)"
  by (auto simp: keeps_def rng_frame_def RandomNumber_def c_rand_def run_simps)

lemma RandomNumber_returns [returns_intros]:
  assumes "lo \<le> hi" and "\<And>s g. P s \<Longrightarrow> P (s\<lparr>rng := g\<rparr>)"
  shows "returns P (RandomNumber lo hi) (\<lambda>r s. P s \<and> lo \<le> r \<and> r \<le> hi)"
proof (rule returnsI)
  fix s assume "P s"
  moreover have "0 \<le> k mod (hi - lo + 1)" and "k mod (hi - lo + 1) \<le> hi - lo" for k
    using assms(1) pos_mod_bound [of "hi - lo + 1" k] by auto
  ultimately show "\<exists>r t. RandomNumber lo hi s = (Inr r, t) \<and> P t \<and> lo \<le> r \<and> r \<le> hi"
    using assms(2) by (simp add: RandomNumber_run [OF assms(1)] add_increasing2 algebra_simps)
qed

lemma RandomNumber_ok:
  assumes "lo \<le> hi" and "RandomNumber lo hi s = (Inr r, t)"
  shows "lo \<le> r \<and> r \<le> hi \<and> rng_frame s t"
  using returnsD [OF RandomNumber_returns [OF assms(1), of "\<lambda>_. True"], of s] assms(2)
    keepsD [OF RandomNumber_frame assms(2)] by auto

lemma word_mod_add_range:
  fixes a :: "32 word"
  assumes "0 \<le> x" and "x \<le> y" and "y < 2147483648"
  shows "x \<le> sint (a mod (word_of_int y - word_of_int x + 1) + word_of_int x)"
    and "sint (a mod (word_of_int y - word_of_int x + 1) + word_of_int x) \<le> y"
    and "(word_of_int y - word_of_int x + 1 :: 32 word) \<noteq> 0"
proof -
  define m :: "32 word" where "m = word_of_int y - word_of_int x + 1"
  have m: "m = word_of_int (y - x + 1)" by (simp add: m_def)
  have um: "uint m = y - x + 1"
    using assms unfolding m uint_word_of_int by simp
  then show nz: "(word_of_int y - word_of_int x + 1 :: 32 word) \<noteq> 0"
    using assms by (auto simp: m_def [symmetric])
  define k where "k = uint a mod (y - x + 1)"
  have k: "0 \<le> k" "k \<le> y - x"
    using assms pos_mod_bound [of "y - x + 1" "uint a"] by (auto simp: k_def)
  have "a mod m = word_of_int k" by (simp add: word_mod_def um k_def)
  then have eq: "a mod m + word_of_int x = word_of_int (k + x)" by simp
  have "sint (word_of_int (k + x) :: 32 word) = k + x"
    unfolding sint_sbintrunc' using assms k by (intro signed_take_bit_int_eq_self) simp_all
  with eq k show "x \<le> sint (a mod (word_of_int y - word_of_int x + 1) + word_of_int x)"
    and "sint (a mod (word_of_int y - word_of_int x + 1) + word_of_int x) \<le> y"
    by (simp_all add: m_def)
qed

lemma nurand_constants_frame:
  assumes "\<And>s g u b. P s \<Longrightarrow> P (s\<lparr>rng := g, garbage := u, nurand_first := b\<rparr>)"
  shows "returns P nurand_constants (\<lambda>_. P)"
proof (rule returnsI)
  fix s assume P: "P s"
  show "\<exists>a t. nurand_constants s = (Inr a, t) \<and> P t"
  proof (cases "nurand_first s")
    case True
    with assms [OF P, where g = "stl (stl (stl (rng s)))" and u = "garbage s" and b = False] show ?thesis
      by (simp add: nurand_constants_def run_simps RandomNumber_run)
  next
    case False
    moreover have "P (s\<lparr>garbage := stl (stl (stl (garbage s)))\<rparr>)"
      using assms [OF P, where g = "rng s" and u = "stl (stl (stl (garbage s)))"
          and b = "nurand_first s"] by simp
    ultimately show ?thesis
      by (simp add: nurand_constants_def run_simps uninit_def)
  qed
qed

lemma NURand_returns [returns_intros]:
  assumes A: "A \<in> {255, 1023, 8191}" and xy: "0 \<le> x" "x \<le> y" "y < 2147483648"
    and P: "\<And>s g u b. P s \<Longrightarrow> P (s\<lparr>rng := g, garbage := u, nurand_first := b\<rparr>)"
  shows "returns P (NURand A x y) (\<lambda>r s. P s \<and> x \<le> r \<and> r \<le> y)"
proof -
  have P': "P (s\<lparr>rng := g\<rparr>)" if "P s" for s g
    using P [OF that, where g = g and u = "garbage s" and b = "nurand_first s"] by simp
  have *: "returns P (bnd (RandomNumber 0 A) (\<lambda>r1. bnd (RandomNumber x y) (\<lambda>r2.
       let m = word_of_int y - word_of_int x + 1 :: 32 word in
       if m = 0 then halt DivZero
       else ret (sint ((word_of_int (r1 OR r2) + C) mod m + word_of_int x)))))
     (\<lambda>r s. P s \<and> x \<le> r \<and> r \<le> y)" for C
    using A xy P'
    by (auto intro!: returns_bnd [OF RandomNumber_returns] returns_ret word_mod_add_range
        simp: Let_def word_mod_add_range(3))
  have "returns P (bnd (if A = 255 then ret c1 else if A = 1023 then ret c2
       else if A = 8191 then ret c3 else halt Abort) (\<lambda>C.
     bnd (RandomNumber 0 A) (\<lambda>r1. bnd (RandomNumber x y) (\<lambda>r2.
       let m = word_of_int y - word_of_int x + 1 :: 32 word in
       if m = 0 then halt DivZero
       else ret (sint ((word_of_int (r1 OR r2) + C) mod m + word_of_int x))))))
     (\<lambda>r s. P s \<and> x \<le> r \<and> r \<le> y)" for c1 c2 c3
    using A * by auto
  then show ?thesis
    unfolding NURand_def using P
    by (auto intro!: returns_bnd [OF nurand_constants_frame] split: prod.split)
qed

section \<open>Lemmas: strings\<close>

lemma pick_chars_returns:
  assumes "0 \<le> arrmax" and "arrmax < int (length tab)" and "\<And>s g. P s \<Longrightarrow> P (s\<lparr>rng := g\<rparr>)"
  shows "returns P (pick_chars tab arrmax n) (\<lambda>cs s. P s \<and> length cs = n \<and> set cs \<subseteq> set tab)"
proof (induction n)
  case 0
  show ?case by (simp add: returns_def)
next
  case (Suc n)
  let ?Q = "\<lambda>n cs s. P s \<and> length cs = n \<and> set cs \<subseteq> set tab"
  have cons: "returns (\<lambda>s. P s \<and> c \<in> set tab)
      (bnd (pick_chars tab arrmax n) (\<lambda>cs. ret (c # cs))) (?Q (Suc n))" for c
    by (rule returns_bnd [OF returns_pure [OF Suc.IH]]) (auto intro!: returns_ret)
  have "returns (\<lambda>s. P s \<and> 0 \<le> i \<and> i \<le> arrmax) (rd tab i) (\<lambda>c s. P s \<and> c \<in> set tab)" for i
    using assms(2) by (auto simp: returns_def rd_def)
  note step = returns_bnd [OF this cons]
  show ?case
    using returns_bnd [OF RandomNumber_returns [where P = P, OF assms(1,3)] step] by simp
qed

lemma MakeAlphaString_returns [returns_intros]:
  assumes "0 \<le> x" and "x \<le> y" and "\<And>s g. P s \<Longrightarrow> P (s\<lparr>rng := g\<rparr>)"
  shows "returns P (MakeAlphaString x y)
    (\<lambda>cs s. P s \<and> x \<le> int (length cs) \<and> int (length cs) \<le> y \<and> set cs \<subseteq> set alphanum)"
  unfolding MakeAlphaString_def
proof (rule returns_bnd [OF RandomNumber_returns [where P = P, OF assms(2,3)]])
  show "returns (\<lambda>s. P s \<and> x \<le> len \<and> len \<le> y) (pick_chars alphanum 61 (nat len))
    (\<lambda>cs s. P s \<and> x \<le> int (length cs) \<and> int (length cs) \<le> y \<and> set cs \<subseteq> set alphanum)" for len
    using pick_chars_returns [of 61 alphanum P "nat len"] assms
    by (auto simp: returns_def alphanum_def)
qed

lemma MakeNumberString_returns [returns_intros]:
  assumes "0 \<le> x" and "x \<le> y" and "\<And>s g. P s \<Longrightarrow> P (s\<lparr>rng := g\<rparr>)"
  shows "returns P (MakeNumberString x y)
    (\<lambda>cs s. P s \<and> x \<le> int (length cs) \<and> int (length cs) \<le> y \<and> set cs \<subseteq> set numeric)"
  unfolding MakeNumberString_def
proof (rule returns_bnd [OF RandomNumber_returns [where P = P, OF assms(2,3)]])
  show "returns (\<lambda>s. P s \<and> x \<le> len \<and> len \<le> y) (pick_chars numeric 9 (nat len))
    (\<lambda>cs s. P s \<and> x \<le> int (length cs) \<and> int (length cs) \<le> y \<and> set cs \<subseteq> set numeric)" for len
    using pick_chars_returns [of 9 numeric P "nat len"] assms
    by (auto simp: returns_def numeric_def)
qed

section \<open>Lemmas: the permutation\<close>

text \<open>
  A source that hands out the elements of a list one by one: \<open>rest\<close> is what it has still
  to return.
\<close>

locale hand_out =
  fixes get :: "('st, int) cm"
    and ok :: "'st \<Rightarrow> bool"
    and rest :: "'st \<Rightarrow> int list"
  assumes get_spec: "returns (\<lambda>s. ok s \<and> rest s = x # xs) get (\<lambda>a s. ok s \<and> a = x \<and> rest s = xs)"
begin

lemma draw_rest:
  "returns (\<lambda>s. ok s \<and> rest s = xs) (replicateM (length xs) get)
     (\<lambda>cs s. cs = xs \<and> ok s \<and> rest s = [])"
proof (induction xs)
  case Nil
  show ?case by (simp add: returns_def)
next
  case (Cons x xs)
  have *: "returns (\<lambda>s. (ok s \<and> rest s = xs) \<and> a = x)
      (bnd (replicateM (length xs) get) (\<lambda>as. ret (a # as)))
      (\<lambda>cs s. cs = x # xs \<and> ok s \<and> rest s = [])" for a
    by (rule returns_bnd [OF returns_pure [OF Cons.IH]]) (auto intro!: returns_ret)
  have "returns (\<lambda>s. ok s \<and> a = x \<and> rest s = xs)
      (bnd (replicateM (length xs) get) (\<lambda>as. ret (a # as)))
      (\<lambda>cs s. cs = x # xs \<and> ok s \<and> rest s = [])" for a
    by (rule returns_conseq [OF *]) auto
  then show ?case by (auto intro: returns_bnd [OF get_spec])
qed

end

text \<open>
  What a caller may expect of a source of distinct numbers: after \<open>init\<close> the calls of
  \<open>get\<close> return the given elements, each once, and the call after the last one aborts.
\<close>

locale permutation_source = hand_out get ok rest
  for get :: "('st, int) cm" and ok :: "'st \<Rightarrow> bool" and rest :: "'st \<Rightarrow> int list" +
  fixes init :: "('st, unit) cm"
    and elems :: "int list"
  assumes init_spec: "returns (\<lambda>_. True) init (\<lambda>_ s. ok s \<and> mset (rest s) = mset elems)"
    and get_exhausted: "ok s \<Longrightarrow> rest s = [] \<Longrightarrow> get s = (Inl Abort, s)"
begin

lemma draw_round:
  "returns (\<lambda>_. True) (thn init (replicateM (length elems) get))
     (\<lambda>cs s. mset cs = mset elems \<and> get s = (Inl Abort, s))"
proof (rule returns_thn [OF init_spec], rule returnsI)
  fix s assume s: "ok s \<and> mset (rest s) = mset elems"
  then have "length (rest s) = length elems" by (auto dest: mset_eq_length)
  with returnsD [OF draw_rest [of "rest s"], of s] s
  show "\<exists>cs t. replicateM (length elems) get s = (Inr cs, t) \<and>
      mset cs = mset elems \<and> get t = (Inl Abort, t)"
    by (auto dest: get_exhausted)
qed

end

interpretation numsf: array_field nums set_nums
  by unfold_locales simp

definition perm_ok :: "'z support_scheme \<Rightarrow> bool" where
  "perm_ok s \<longleftrightarrow> int (length (nums s)) = ORD_PER_DIST \<and> 0 \<le> perm_count s"

definition perm_rest :: "'z support_scheme \<Rightarrow> int list" where
  "perm_rest s = drop (nat (perm_count s)) (nums s)"

lemma InitPermutation_returns:
  "returns (\<lambda>_. True) InitPermutation
     (\<lambda>_ s. perm_ok s \<and> perm_count s = 0 \<and> mset (nums s) = mset [1..ORD_PER_DIST])"
proof -
  let ?I = "\<lambda>s :: 'z support_scheme.
    perm_ok s \<and> perm_count s = 0 \<and> mset (nums s) = mset [1..ORD_PER_DIST]"
  have swap: "returns (\<lambda>s. ?I s \<and> i + 1 \<le> j \<and> j \<le> ORD_PER_DIST - 1)
      (swap_in nums set_nums i j) (\<lambda>_. ?I)" if "0 \<le> i" for i j
    using that
    by (auto simp: returns_def swap_in_def in_range_def perm_ok_def mset_swp)
  have "returns ?I (bnd (RandomNumber (i + 1) (ORD_PER_DIST - 1))
      (\<lambda>j. swap_in nums set_nums i j)) (\<lambda>_. ?I)" if "i \<in> set [0..ORD_PER_DIST - 2]" for i
    using that
    by (intro returns_bnd [OF RandomNumber_returns swap]) (auto simp: perm_ok_def)
  then show ?thesis
    unfolding InitPermutation_def
    by (intro returns_thn [OF returns_modify returns_cfor])
      (auto simp: perm_ok_def ORD_PER_DIST_def)
qed

lemma GetPermutation_run:
  assumes "perm_ok s" and "perm_rest s = x # xs"
  shows "GetPermutation s = (Inr x, s\<lparr>perm_count := perm_count s + 1\<rparr>)"
proof -
  have "nat (perm_count s) < length (nums s)"
    using assms(2) by (metis perm_rest_def drop_eq_Nil list.distinct(1) not_le)
  moreover from this have "nums s ! nat (perm_count s) = x"
    using assms(2) by (metis perm_rest_def nth_via_drop)
  moreover have "perm_count s < ORD_PER_DIST"
    using assms(1) calculation(1) by (simp add: perm_ok_def nat_less_iff)
  ultimately show ?thesis
    using assms(1) by (simp add: GetPermutation_def run_simps perm_ok_def)
qed

interpretation perm: permutation_source
  GetPermutation perm_ok perm_rest InitPermutation "[1..ORD_PER_DIST]"
proof
  show "returns (\<lambda>_. True) InitPermutation
      (\<lambda>_ s. perm_ok s \<and> mset (perm_rest s) = mset [1..ORD_PER_DIST])"
    by (rule returns_conseq [OF InitPermutation_returns]) (auto simp: perm_rest_def)
  show "returns (\<lambda>s. perm_ok s \<and> perm_rest s = x # xs) GetPermutation
      (\<lambda>a s. perm_ok s \<and> a = x \<and> perm_rest s = xs)" for x xs
    by (auto simp: returns_def GetPermutation_run perm_ok_def perm_rest_def nat_add_distrib
        drop_Suc tl_drop [symmetric])
  show "GetPermutation s = (Inl Abort, s)" if "perm_ok s" "perm_rest s = []"
    for s :: "'z support_scheme"
    using that by (auto simp: GetPermutation_def perm_ok_def perm_rest_def run_simps)
qed

section \<open>Lemmas: last names\<close>

lemma Lastname_run:
  assumes "0 \<le> num" and "num \<le> 999"
  shows "Lastname num s = (Inr (syllables ! nat (num div 100) @
    syllables ! nat (num div 10 mod 10) @ syllables ! nat (num mod 10)), s)"
proof -
  have "num div 100 < 10" using assms by linarith
  then show ?thesis
    using assms
    by (simp add: Lastname_def run_simps syllables_def sdiv_nonneg_eq smod_nonneg_eq
        del: nth_Cons_numeral)
qed

lemma digits3_eq:
  fixes a b :: int
  assumes "a div 100 = b div 100" and "a div 10 mod 10 = b div 10 mod 10" and "a mod 10 = b mod 10"
  shows "a = b"
proof -
  have "k div 100 = k div 10 div 10" for k :: int
    using zdiv_zmult2_eq [of 10 k 10] by simp
  with assms have "a div 10 = b div 10"
    by (metis div_mult_mod_eq)
  with assms show ?thesis by (metis div_mult_mod_eq)
qed

text \<open>No syllable is a prefix of another, so a name can be cut in one way only.\<close>

lemma syllables_prefix_free:
  assumes "i < 10" and "j < 10" and "syllables ! i @ us = syllables ! j @ vs"
  shows "i = j \<and> us = vs"
proof -
  have "i \<in> {0, 1, 2, 3, 4, 5, 6, 7, 8, 9}" and "j \<in> {0, 1, 2, 3, 4, 5, 6, 7, 8, 9}"
    using assms(1,2) by auto
  then show ?thesis using assms(3) by (auto simp: syllables_def)
qed

lemma syllables_length: "i < 10 \<Longrightarrow> length (syllables ! i) \<le> 5"
  by (auto simp: syllables_def less_Suc_eq numeral_eq_Suc)

section \<open>Properties\<close>

text \<open>
  The non-uniform random numbers stay in the range asked for, whatever the
  constant \<open>C\<close> holds: also in the calls after the first one, which read it from
  uninitialised memory. The function never aborts for the three values of \<open>A\<close> in use.
\<close>

theorem NURand_in_range:
  assumes "A \<in> {255, 1023, 8191}" and "0 \<le> x" and "x \<le> y" and "y < 2147483648"
  shows "\<exists>r t. NURand A x y s = (Inr r, t) \<and> x \<le> r \<and> r \<le> y"
  using returnsD [OF NURand_returns [OF assms, of "\<lambda>_. True"], of s] by simp

definition example_support :: support where
  "example_support = \<lparr>rng = sconst 41, garbage = sconst 7, stamps = sconst (Some ''2014-11-01''),
     nurand_first = False, nums = [], perm_count = 0\<rparr>"

theorem NURand_in_range_witness:
  "\<exists>r t. NURand 1023 1 3000 example_support = (Inr r, t) \<and> 1 \<le> r \<and> r \<le> 3000"
  by (rule NURand_in_range) simp_all

text \<open>
  The constant \<open>C\<close> of \<open>NURand\<close> is not the same in all calls: from the second
  call on the result depends on what the uninitialised variables are found to hold. Two
  states that differ in nothing but that memory give two results.
\<close>

theorem NURand_constant_lost:
  "\<exists>s :: support. \<exists>g. \<not> nurand_first s \<and>
     fst (NURand 255 0 999 s) \<noteq> fst (NURand 255 0 999 (s\<lparr>garbage := g\<rparr>))"
proof (intro exI conjI)
  show "\<not> nurand_first example_support" by (simp add: example_support_def)
  show "fst (NURand 255 0 999 example_support) \<noteq>
      fst (NURand 255 0 999 (example_support\<lparr>garbage := sconst 8\<rparr>))"
    by (simp add: NURand_def nurand_constants_def run_simps uninit_def RandomNumber_run
        example_support_def Let_def)
qed

text \<open>
  Property C19. \<open>InitPermutation\<close> followed by \<open>ORD_PER_DIST\<close> calls of \<open>GetPermutation\<close>
  yields every customer number \<open>1 \<dots> ORD_PER_DIST\<close> exactly once, for every sequence of
  random numbers, and one more call aborts: the shuffle never leaves the array and never
  loses or doubles a customer.
\<close>

theorem permutation_round:
  "\<exists>cs t. thn InitPermutation (replicateM (nat ORD_PER_DIST) GetPermutation) s = (Inr cs, t) \<and>
     mset cs = mset [1..ORD_PER_DIST] \<and> GetPermutation t = (Inl Abort, t)"
  using returnsD [OF perm.draw_round, of s] by (simp add: ORD_PER_DIST_def)

text \<open>
  \<open>Lastname\<close> is total on \<open>0 \<dots> 999\<close>, gives different names to different
  numbers, and a name with its terminating NUL fits the smallest buffer it is written to
  (the 16 bytes of \<open>c_last\<close> in \<open>do_ordstat\<close>).
\<close>

theorem Lastname_names:
  assumes "0 \<le> a" and "a \<le> 999" and "0 \<le> b" and "b \<le> 999"
  shows "\<exists>m n. Lastname a s = (Inr m, s) \<and> Lastname b s = (Inr n, s) \<and>
     length m + 1 \<le> 16 \<and> (m = n \<longleftrightarrow> a = b)"
proof -
  have lt: "nat (k div 100) < 10" "nat (k div 10 mod 10) < 10" "nat (k mod 10) < 10"
    if "0 \<le> k" "k \<le> 999" for k :: int
    using that by linarith+
  note la = lt [OF assms(1,2)] and lb = lt [OF assms(3,4)]
  have inj: "a = b" if eq: "syllables ! nat (a div 100) @ syllables ! nat (a div 10 mod 10) @
      syllables ! nat (a mod 10) = syllables ! nat (b div 100) @
      syllables ! nat (b div 10 mod 10) @ syllables ! nat (b mod 10)"
  proof -
    note s1 = syllables_prefix_free [OF la(1) lb(1) eq]
    note s2 = syllables_prefix_free [OF la(2) lb(2) s1 [THEN conjunct2]]
    have "nat (a mod 10) = nat (b mod 10)"
      using syllables_prefix_free [OF la(3) lb(3), of "[]" "[]"] s2 by simp
    then have "a mod 10 = b mod 10" by simp
    moreover have "a div 100 = b div 100"
      using s1 [THEN conjunct1] assms eq_nat_nat_iff [of "a div 100" "b div 100"]
      by (simp add: pos_imp_zdiv_nonneg_iff)
    moreover have "a div 10 mod 10 = b div 10 mod 10"
      using s2 eq_nat_nat_iff [of "a div 10 mod 10" "b div 10 mod 10"] by simp
    ultimately show ?thesis using digits3_eq by blast
  qed
  show ?thesis
  proof (intro exI conjI)
    show "Lastname a s = (Inr (syllables ! nat (a div 100) @
        syllables ! nat (a div 10 mod 10) @ syllables ! nat (a mod 10)), s)"
      by (rule Lastname_run [OF assms(1,2)])
    show "Lastname b s = (Inr (syllables ! nat (b div 100) @
        syllables ! nat (b div 10 mod 10) @ syllables ! nat (b mod 10)), s)"
      by (rule Lastname_run [OF assms(3,4)])
    show "length (syllables ! nat (a div 100) @
        syllables ! nat (a div 10 mod 10) @ syllables ! nat (a mod 10)) + 1 \<le> 16"
      using la [THEN syllables_length] by simp
  qed (use inj in blast)
qed

theorem Lastname_names_witness:
  "\<exists>m n. Lastname 371 example_support = (Inr m, example_support) \<and>
     Lastname 999 example_support = (Inr n, example_support) \<and>
     length m + 1 \<le> 16 \<and> (m = n \<longleftrightarrow> (371 :: int) = 999)"
  by (rule Lastname_names) simp_all

end
