(* ===== verification/Sequence.thy ===== *)
theory Sequence
  imports Support
begin

text \<open>
  The transaction mix of \<^verbatim>\<open>tpcc-mysql/src/sequence.c\<close>: a shuffled array with one entry per
  transaction of a round, handed out to the threads one entry at a time. The mutex makes
  \<open>seq_get\<close> atomic, so a call is one step of the model.
\<close>

record seqst = support +
  seq_no :: int
  seq_py :: int
  seq_os :: int
  seq_dl :: int
  seq_sl :: int
  seq_total :: int
  seq_arr :: "int list"
  seq_next :: int

abbreviation set_seq :: "int list \<Rightarrow> 'z seqst_scheme \<Rightarrow> 'z seqst_scheme" where
  "set_seq xs \<equiv> \<lambda>s. s\<lparr>seq_arr := xs\<rparr>"

text \<open>\<open>seq[j] = v\<close>, which must stay inside the allocated array.\<close>

definition seq_store :: "int \<Rightarrow> int \<Rightarrow> ('z seqst_scheme, unit) cm" where
  "seq_store j v s =
     (if in_range j (seq_arr s) then (Inr (), s\<lparr>seq_arr := (seq_arr s)[nat j := v]\<rparr>)
      else (Inl OutOfBounds, s))"

text \<open>One of the five loops that fill the array: \<open>n\<close> entries \<open>v\<close> from index \<open>j\<close> on.\<close>

definition seq_fill :: "int \<Rightarrow> int \<Rightarrow> int \<Rightarrow> ('z seqst_scheme, int) cm" where
  "seq_fill n v j = cfold [0..n - 1] (\<lambda>_ j. thn (seq_store j v) (ret (j + 1))) j"

definition shuffle_fill :: "('z seqst_scheme, int) cm" where
  "shuffle_fill =
     bnd (gets seq_no) (\<lambda>no. bnd (gets seq_py) (\<lambda>py. bnd (gets seq_os) (\<lambda>os.
     bnd (gets seq_dl) (\<lambda>dl. bnd (gets seq_sl) (\<lambda>sl.
     bnd (seq_fill no 0 0) (\<lambda>j. bnd (seq_fill py 1 j) (\<lambda>j. bnd (seq_fill os 2 j) (\<lambda>j.
     bnd (seq_fill dl 3 j) (\<lambda>j. seq_fill sl 4 j)))))))))"

text \<open>The index \<open>j\<close> of the last loop of \<open>shuffle\<close> is \<open>tot - 1 - i\<close> throughout.\<close>

definition shuffle_swap :: "int \<Rightarrow> int \<Rightarrow> ('z seqst_scheme, unit) cm" where
  "shuffle_swap tot i = bnd c_rand (\<lambda>r.
     let rnd = r smod (tot - 1 - i + 1) in swap_in seq_arr set_seq (rnd + i) i)"

definition shuffle :: "('z seqst_scheme, unit) cm" where
  "shuffle = thn shuffle_fill
     (bnd (gets seq_total) (\<lambda>tot. cfor [0..tot - 2] (shuffle_swap tot)))"

definition seq_init :: "int \<Rightarrow> int \<Rightarrow> int \<Rightarrow> int \<Rightarrow> int \<Rightarrow> ('z seqst_scheme, unit) cm" where
  "seq_init n p os d sl =
     thn (modify (\<lambda>st. let tot = n + p + os + d + sl in
        st\<lparr>seq_no := n, seq_py := p, seq_os := os, seq_dl := d, seq_sl := sl,
           seq_total := tot, seq_arr := map sint (stake (nat tot) (garbage st)),
           garbage := sdrop (nat tot) (garbage st)\<rparr>))
     (thn shuffle (modify (\<lambda>st. st\<lparr>seq_next := 0\<rparr>)))"

definition seq_get :: "('z seqst_scheme, int) cm" where
  "seq_get =
     bnd (gets seq_next) (\<lambda>k. bnd (gets seq_total) (\<lambda>tot.
     thn (on_cond (k \<ge> tot) (thn shuffle (modify (\<lambda>s. s\<lparr>seq_next := 0\<rparr>))))
     (bnd (gets seq_next) (\<lambda>k. bnd (gets seq_arr) (\<lambda>xs. bnd (rd xs k) (\<lambda>retval.
       thn (modify (\<lambda>s. s\<lparr>seq_next := k + 1\<rparr>)) (ret retval)))))))"

section \<open>Lemmas\<close>

interpretation seqf: array_field seq_arr set_seq
  by unfold_locales simp

text \<open>The entries of one round, in the order in which \<open>shuffle\<close> writes them.\<close>

definition seq_mix :: "'z seqst_scheme \<Rightarrow> int list" where
  "seq_mix s = replicate (nat (seq_no s)) 0 @ replicate (nat (seq_py s)) 1 @
     replicate (nat (seq_os s)) 2 @ replicate (nat (seq_dl s)) 3 @ replicate (nat (seq_sl s)) 4"

definition seq_ok :: "'z seqst_scheme \<Rightarrow> bool" where
  "seq_ok s \<longleftrightarrow> 0 \<le> seq_no s \<and> 0 \<le> seq_py s \<and> 0 \<le> seq_os s \<and> 0 \<le> seq_dl s \<and> 0 \<le> seq_sl s \<and>
     seq_total s = seq_no s + seq_py s + seq_os s + seq_dl s + seq_sl s \<and> 0 < seq_total s \<and>
     int (length (seq_arr s)) = seq_total s \<and> 0 \<le> seq_next s \<and> seq_next s \<le> seq_total s"

definition seq_rest :: "'z seqst_scheme \<Rightarrow> int list" where
  "seq_rest s = drop (nat (seq_next s)) (seq_arr s)"

lemma length_seq_mix: "seq_ok s \<Longrightarrow> int (length (seq_mix s)) = seq_total s"
  by (simp add: seq_ok_def seq_mix_def)

lemma seq_fill_run_nat:
  "j + n \<le> length (seq_arr s) \<Longrightarrow>
   cfold (map f [0..<n]) (\<lambda>_ j. thn (seq_store j v) (ret (j + 1))) (int j) s =
   (Inr (int (j + n)), s\<lparr>seq_arr := take j (seq_arr s) @ replicate n v @ drop (j + n) (seq_arr s)\<rparr>)"
proof (induction n arbitrary: j s f)
  case 0
  then show ?case by (simp add: ret_eq)
next
  case (Suc n)
  have cons: "map f [0..<Suc n] = f 0 # map (\<lambda>i. f (Suc i)) [0..<n]"
    by (simp add: upt_conv_Cons map_Suc_upt [symmetric] del: upt_Suc)
  have store: "thn (seq_store (int j) v) (ret (int j + 1)) s =
      (Inr (int (Suc j)), s\<lparr>seq_arr := (seq_arr s)[j := v]\<rparr>)"
    using Suc.prems by (simp add: run_simps seq_store_def in_range_def)
  have "take (Suc j) ((seq_arr s)[j := v]) = take j (seq_arr s) @ [v]"
    using Suc.prems by (simp add: take_Suc_conv_app_nth)
  with Suc.IH [of "Suc j" "s\<lparr>seq_arr := (seq_arr s)[j := v]\<rparr>" "\<lambda>i. f (Suc i)"] Suc.prems
  show ?case
    unfolding cons by (simp add: bnd_def store)
qed

lemma seq_fill_run:
  assumes "j + nat n \<le> length (seq_arr s)"
  shows "seq_fill n v (int j) s = (Inr (int (j + nat n)),
    s\<lparr>seq_arr := take j (seq_arr s) @ replicate (nat n) v @ drop (j + nat n) (seq_arr s)\<rparr>)"
  unfolding seq_fill_def upto_map_int
  using seq_fill_run_nat [OF assms, of int v] by simp

text \<open>The weights and the length of the array, which \<open>shuffle\<close> relies on and keeps.\<close>

definition seq_shape :: "'z seqst_scheme \<Rightarrow> bool" where
  "seq_shape s \<longleftrightarrow> 0 \<le> seq_no s \<and> 0 \<le> seq_py s \<and> 0 \<le> seq_os s \<and> 0 \<le> seq_dl s \<and> 0 \<le> seq_sl s \<and>
     seq_total s = seq_no s + seq_py s + seq_os s + seq_dl s + seq_sl s \<and> 0 < seq_total s \<and>
     int (length (seq_arr s)) = seq_total s"

lemma shuffle_fill_run:
  assumes "seq_shape s"
  shows "\<exists>j. shuffle_fill s = (Inr j, s\<lparr>seq_arr := seq_mix s\<rparr>)"
proof -
  define a b c d e where "a = nat (seq_no s)" and "b = nat (seq_py s)" and "c = nat (seq_os s)"
    and "d = nat (seq_dl s)" and "e = nat (seq_sl s)"
  note defs = this
  have len: "length (seq_arr s) = a + b + c + d + e"
    using assms unfolding seq_shape_def defs by linarith
  let ?arr = "\<lambda>xs n. s\<lparr>seq_arr := xs @ drop n (seq_arr s)\<rparr>"
  let ?x1 = "replicate a 0"
  let ?x2 = "?x1 @ replicate b 1"
  let ?x3 = "?x2 @ replicate c 2"
  let ?x4 = "?x3 @ replicate d 3"
  have 1: "seq_fill (seq_no s) 0 0 s = (Inr (int a), ?arr ?x1 a)"
    using seq_fill_run [of 0 "seq_no s" s 0] len by (simp add: defs)
  have 2: "seq_fill (seq_py s) 1 (int a) (?arr ?x1 a) = (Inr (int (a + b)), ?arr ?x2 (a + b))"
    using seq_fill_run [of a "seq_py s" "?arr ?x1 a" 1] len by (simp add: defs add.commute)
  have 3: "seq_fill (seq_os s) 2 (int (a + b)) (?arr ?x2 (a + b)) =
      (Inr (int (a + b + c)), ?arr ?x3 (a + b + c))"
    using seq_fill_run [of "a + b" "seq_os s" "?arr ?x2 (a + b)" 2] len
    by (simp add: defs add.commute)
  have 4: "seq_fill (seq_dl s) 3 (int (a + b + c)) (?arr ?x3 (a + b + c)) =
      (Inr (int (a + b + c + d)), ?arr ?x4 (a + b + c + d))"
    using seq_fill_run [of "a + b + c" "seq_dl s" "?arr ?x3 (a + b + c)" 3] len
    by (simp add: defs add.commute)
  have 5: "seq_fill (seq_sl s) 4 (int (a + b + c + d)) (?arr ?x4 (a + b + c + d)) =
      (Inr (int (a + b + c + d + e)), s\<lparr>seq_arr := ?x4 @ replicate e 4\<rparr>)"
    using seq_fill_run [of "a + b + c + d" "seq_sl s" "?arr ?x4 (a + b + c + d)" 4] len
    by (simp add: defs add.commute)
  show ?thesis
    unfolding shuffle_fill_def
    by (simp only: bnd_gets bnd_Inr 1 2 3 4 5) (simp add: seq_mix_def defs)
qed

lemma seq_mix_arr [simp]: "seq_mix (s\<lparr>seq_arr := xs\<rparr>) = seq_mix s"
  by (simp add: seq_mix_def)

lemma shuffle_swap_run:
  assumes "0 \<le> i" and "i \<le> tot - 2" and "int (length (seq_arr s)) = tot"
  shows "\<exists>xs g. shuffle_swap tot i s = (Inr (), s\<lparr>seq_arr := xs, rng := g\<rparr>) \<and>
    mset xs = mset (seq_arr s)"
proof -
  define r where "r = int (shd (rng s) mod 2147483648) smod (tot - i)"
  have "r = int (shd (rng s) mod 2147483648) mod (tot - i)"
    using assms unfolding r_def by (intro smod_nonneg_eq) simp_all
  then have "0 \<le> r" "r < tot - i"
    using assms pos_mod_bound [of "tot - i"] by auto
  with assms have "in_range (r + i) (seq_arr s)" "in_range i (seq_arr s)"
    by (simp_all add: in_range_def)
  moreover have "tot - 1 - i + 1 = tot - i" by simp
  ultimately show ?thesis
    unfolding shuffle_swap_def
    by (auto simp: c_rand_def run_simps Let_def swap_in_def r_def [symmetric] mset_swp
        simp del: diff_add_cancel
        intro!: exI [of _ "swp (r + i) i (seq_arr s)"] exI [of _ "stl (rng s)"])
qed

text \<open>\<open>shuffle\<close> changes the array and the random stream only.\<close>

definition seq_shuffled :: "'z seqst_scheme \<Rightarrow> 'z seqst_scheme \<Rightarrow> bool" where
  "seq_shuffled s t \<longleftrightarrow> (\<exists>xs g. t = s\<lparr>seq_arr := xs, rng := g\<rparr> \<and> mset xs = mset (seq_mix s))"

lemma shuffle_run:
  assumes "seq_shape s"
  shows "\<exists>t. shuffle s = (Inr (), t) \<and> seq_shuffled s t"
proof -
  obtain j where fill: "shuffle_fill s = (Inr j, s\<lparr>seq_arr := seq_mix s\<rparr>)"
    using shuffle_fill_run [OF assms] by blast
  have len: "int (length (seq_mix s)) = seq_total s"
    using assms by (simp add: seq_shape_def seq_mix_def)
  have "returns (seq_shuffled s) (shuffle_swap (seq_total s) i) (\<lambda>_. seq_shuffled s)"
    if "i \<in> set [0..seq_total s - 2]" for i
  proof (rule returnsI)
    fix u assume "seq_shuffled s u"
    then obtain xs g where u: "u = s\<lparr>seq_arr := xs, rng := g\<rparr>" "mset xs = mset (seq_mix s)"
      by (auto simp: seq_shuffled_def)
    then have "int (length (seq_arr u)) = seq_total s"
      using len mset_eq_length [OF u(2)] by simp
    with shuffle_swap_run [of i "seq_total s" u] that obtain ys h where
      "shuffle_swap (seq_total s) i u = (Inr (), u\<lparr>seq_arr := ys, rng := h\<rparr>)"
      "mset ys = mset (seq_arr u)" by auto
    with u have "shuffle_swap (seq_total s) i u = (Inr (), s\<lparr>seq_arr := ys, rng := h\<rparr>)"
      and "mset ys = mset (seq_mix s)" by simp_all
    then show "\<exists>a t. shuffle_swap (seq_total s) i u = (Inr a, t) \<and> seq_shuffled s t"
      by (intro exI conjI) (auto simp: seq_shuffled_def)
  qed
  note loop = returns_cfor [where js = "[0..seq_total s - 2]", OF this]
  have "seq_shuffled s (s\<lparr>seq_arr := seq_mix s\<rparr>)"
    by (auto simp: seq_shuffled_def intro!: exI [of _ "rng s"])
  from returnsD [OF loop this] show ?thesis
    by (auto simp: shuffle_def run_simps fill)
qed

text \<open>
  A source of shuffled rounds: it hands out the rest of the current round, and when a round
  is used up the next call starts another one with the same elements.
\<close>

locale round_source = hand_out get ok rest
  for get :: "('st, int) cm" and ok :: "'st \<Rightarrow> bool" and rest :: "'st \<Rightarrow> int list" +
  fixes mix :: "int list"
  assumes mix_nonempty: "mix \<noteq> []"
    and refill: "returns (\<lambda>s. ok s \<and> rest s = []) get
      (\<lambda>a s. ok s \<and> mset (a # rest s) = mset mix)"
begin

lemma one_round:
  "returns (\<lambda>s. ok s \<and> rest s = []) (replicateM (length mix) get)
     (\<lambda>vs s. mset vs = mset mix \<and> ok s \<and> rest s = [])"
proof -
  obtain n where n: "length mix = Suc n" using mix_nonempty by (cases mix) auto
  have tail: "returns (\<lambda>s. ok s \<and> mset (a # rest s) = mset mix)
      (bnd (replicateM n get) (\<lambda>as. ret (a # as)))
      (\<lambda>vs s. mset vs = mset mix \<and> ok s \<and> rest s = [])" for a
  proof (rule returnsI)
    fix s assume s: "ok s \<and> mset (a # rest s) = mset mix"
    then have "length (rest s) = n" using n mset_eq_length [of "a # rest s" mix] by simp
    with returnsD [OF draw_rest [of "rest s"], of s] s
    show "\<exists>vs t. bnd (replicateM n get) (\<lambda>as. ret (a # as)) s = (Inr vs, t) \<and>
        mset vs = mset mix \<and> ok t \<and> rest t = []"
      by (auto simp: run_simps)
  qed
  show ?thesis unfolding n by (simp add: returns_bnd [OF refill tail])
qed

lemma many_rounds:
  "returns (\<lambda>s. ok s \<and> rest s = []) (replicateM k (replicateM (length mix) get))
     (\<lambda>vss s. (\<forall>vs \<in> set vss. mset vs = mset mix) \<and> length vss = k \<and> ok s \<and> rest s = [])"
proof (induction k)
  case 0
  show ?case by (simp add: returns_def ret_eq)
next
  case (Suc k)
  have "returns (\<lambda>s. mset vs = mset mix \<and> ok s \<and> rest s = [])
      (bnd (replicateM k (replicateM (length mix) get)) (\<lambda>vss. ret (vs # vss)))
      (\<lambda>vss s. (\<forall>vs \<in> set vss. mset vs = mset mix) \<and> length vss = Suc k \<and> ok s \<and> rest s = [])"
    for vs
  proof (rule returnsI)
    fix s assume "mset vs = mset mix \<and> ok s \<and> rest s = []"
    with returnsD [OF Suc.IH, of s]
    show "\<exists>a t. bnd (replicateM k (replicateM (length mix) get)) (\<lambda>vss. ret (vs # vss)) s = (Inr a, t) \<and>
        (\<forall>vs \<in> set a. mset vs = mset mix) \<and> length a = Suc k \<and> ok t \<and> rest t = []"
      by (auto simp: run_simps)
  qed
  then show ?case by (simp add: returns_bnd [OF one_round])
qed

lemma rounds_from_full:
  "returns (\<lambda>s. ok s \<and> mset (rest s) = mset mix) (replicateM k (replicateM (length mix) get))
     (\<lambda>vss _. (\<forall>vs \<in> set vss. mset vs = mset mix) \<and> length vss = k)"
proof (cases k)
  case 0
  then show ?thesis by (simp add: returns_def ret_eq)
next
  case (Suc m)
  show ?thesis
  proof (rule returnsI)
    fix s assume s: "ok s \<and> mset (rest s) = mset mix"
    then have "length (rest s) = length mix" using mset_eq_length by blast
    with returnsD [OF draw_rest [of "rest s"], of s] s obtain t where
      t: "replicateM (length mix) get s = (Inr (rest s), t)" "ok t" "rest t = []" by auto
    with returnsD [OF many_rounds [of m], of t] s
    show "\<exists>vss t. replicateM k (replicateM (length mix) get) s = (Inr vss, t) \<and>
        (\<forall>vs \<in> set vss. mset vs = mset mix) \<and> length vss = k"
      by (auto simp: Suc run_simps)
  qed
qed

lemma drawn_in_mix:
  assumes "ok s" and "set (rest s) \<subseteq> set mix"
  shows "\<exists>a t. get s = (Inr a, t) \<and> a \<in> set mix \<and> ok t \<and> set (rest t) \<subseteq> set mix"
proof (cases "rest s")
  case Nil
  with assms(1) returnsD [OF refill, of s] show ?thesis
    by (metis list.set_intros(1) set_mset_mset set_subset_Cons)
next
  case (Cons x xs)
  with assms returnsD [OF get_spec [of x xs], of s] show ?thesis by auto
qed

lemma all_drawn_in_mix:
  "returns (\<lambda>s. ok s \<and> set (rest s) \<subseteq> set mix) (replicateM k get)
     (\<lambda>vs _. set vs \<subseteq> set mix \<and> length vs = k)"
proof (induction k)
  case 0
  show ?case by (simp add: returns_def ret_eq)
next
  case (Suc k)
  show ?case
  proof (rule returnsI)
    fix s assume "ok s \<and> set (rest s) \<subseteq> set mix"
    with drawn_in_mix obtain a t where "get s = (Inr a, t)" "a \<in> set mix"
      "ok t" "set (rest t) \<subseteq> set mix" by blast
    with returnsD [OF Suc.IH, of t]
    show "\<exists>vs t. replicateM (Suc k) get s = (Inr vs, t) \<and> set vs \<subseteq> set mix \<and> length vs = Suc k"
      by (auto simp: run_simps)
  qed
qed

end

section \<open>\<open>seq_get\<close> is a source of shuffled rounds\<close>

text \<open>
  The five weights are fixed by \<open>seq_init\<close>; \<open>seq_ready n p os d sl\<close> is the invariant of the
  program after it.
\<close>

definition seq_ready :: "int \<Rightarrow> int \<Rightarrow> int \<Rightarrow> int \<Rightarrow> int \<Rightarrow> 'z seqst_scheme \<Rightarrow> bool" where
  "seq_ready n p os d sl s \<longleftrightarrow> seq_shape s \<and> 0 \<le> seq_next s \<and> seq_next s \<le> seq_total s \<and>
     seq_no s = n \<and> seq_py s = p \<and> seq_os s = os \<and> seq_dl s = d \<and> seq_sl s = sl"

definition mix_of :: "int \<Rightarrow> int \<Rightarrow> int \<Rightarrow> int \<Rightarrow> int \<Rightarrow> int list" where
  "mix_of n p os d sl = replicate (nat n) 0 @ replicate (nat p) 1 @
     replicate (nat os) 2 @ replicate (nat d) 3 @ replicate (nat sl) 4"

lemma seq_get_pop:
  assumes "seq_ready n p os d sl s" and "seq_rest s = x # xs"
  shows "seq_get s = (Inr x, s\<lparr>seq_next := seq_next s + 1\<rparr>)"
proof -
  have lt: "nat (seq_next s) < length (seq_arr s)"
    using assms(2) by (metis drop_eq_Nil list.distinct(1) not_le seq_rest_def)
  moreover have "seq_arr s ! nat (seq_next s) = x"
    using assms(2) unfolding seq_rest_def by (rule nth_via_drop)
  moreover have "seq_next s < seq_total s"
    using lt assms(1) by (simp add: seq_ready_def seq_shape_def nat_less_iff)
  ultimately show ?thesis
    using assms(1) by (simp add: seq_get_def run_simps seq_ready_def seq_shape_def)
qed

lemma seq_rest_step:
  assumes "0 \<le> seq_next s" and "seq_rest s = x # xs"
  shows "seq_rest (s\<lparr>seq_next := seq_next s + 1\<rparr>) = xs"
  using assms by (simp add: seq_rest_def nat_add_distrib drop_Suc tl_drop [symmetric])

lemma seq_ready_step:
  assumes "seq_ready n p os d sl s" and "seq_rest s = x # xs"
  shows "seq_ready n p os d sl (s\<lparr>seq_next := seq_next s + 1\<rparr>)"
proof -
  have "nat (seq_next s) < length (seq_arr s)"
    using assms(2) by (metis drop_eq_Nil list.distinct(1) not_le seq_rest_def)
  with assms(1) show ?thesis by (auto simp: seq_ready_def seq_shape_def)
qed

lemma seq_shuffled_shape:
  assumes "seq_shape s" and "seq_shuffled s t"
  shows "seq_shape (t\<lparr>seq_next := k\<rparr>)" and "mset (seq_arr t) = mset (seq_mix s)"
proof -
  obtain xs g where t: "t = s\<lparr>seq_arr := xs, rng := g\<rparr>" and xs: "mset xs = mset (seq_mix s)"
    using assms(2) by (auto simp: seq_shuffled_def)
  have "int (length (seq_mix s)) = seq_total s"
    using assms(1) by (simp add: seq_shape_def seq_mix_def)
  with assms(1) mset_eq_length [OF xs] show "seq_shape (t\<lparr>seq_next := k\<rparr>)"
    by (simp add: seq_shape_def t)
  show "mset (seq_arr t) = mset (seq_mix s)" by (simp add: t xs)
qed

lemma seq_get_refill:
  assumes "seq_ready n p os d sl s" and "seq_rest s = []"
  shows "\<exists>a t. seq_get s = (Inr a, t) \<and> seq_ready n p os d sl t \<and>
    mset (a # seq_rest t) = mset (mix_of n p os d sl)"
proof -
  have shape: "seq_shape s" using assms(1) by (simp add: seq_ready_def)
  have full: "seq_next s \<ge> seq_total s"
    using assms by (auto simp: seq_ready_def seq_rest_def seq_shape_def)
  obtain u where u: "shuffle s = (Inr (), u)" "seq_shuffled s u"
    using shuffle_run [OF shape] by blast
  let ?u = "u\<lparr>seq_next := 0\<rparr>"
  have ready: "seq_ready n p os d sl ?u"
    using seq_shuffled_shape(1) [OF shape u(2), of 0] u(2) assms(1)
    by (auto simp: seq_ready_def seq_shuffled_def seq_shape_def)
  have mix: "mset (seq_rest ?u) = mset (mix_of n p os d sl)"
    using seq_shuffled_shape(2) [OF shape u(2)] assms(1)
    by (simp add: seq_rest_def seq_mix_def mix_of_def seq_ready_def)
  have "seq_rest ?u \<noteq> []"
    using ready by (auto simp: seq_rest_def seq_ready_def seq_shape_def)
  then obtain x xs where xs: "seq_rest ?u = x # xs" by (cases "seq_rest ?u") auto
  have "seq_get s = seq_get ?u"
    using full ready by (simp add: seq_get_def run_simps u seq_ready_def seq_shape_def)
  also have "\<dots> = (Inr x, ?u\<lparr>seq_next := seq_next ?u + 1\<rparr>)"
    by (rule seq_get_pop [OF ready xs])
  finally show ?thesis
    using seq_ready_step [OF ready xs] seq_rest_step [OF _ xs] mix xs by auto
qed

lemma seq_hand_out:
  "hand_out seq_get (seq_ready n p os d sl) seq_rest"
proof
  show "returns (\<lambda>s. seq_ready n p os d sl s \<and> seq_rest s = x # xs) seq_get
      (\<lambda>a s. seq_ready n p os d sl s \<and> a = x \<and> seq_rest s = xs)" for x xs
  proof (rule returnsI, elim conjE)
    fix s :: "'z seqst_scheme"
    assume s: "seq_ready n p os d sl s" "seq_rest s = x # xs"
    then have "0 \<le> seq_next s" by (simp add: seq_ready_def)
    with seq_get_pop [OF s] seq_ready_step [OF s] seq_rest_step [OF _ s(2)]
    show "\<exists>a t. seq_get s = (Inr a, t) \<and> seq_ready n p os d sl t \<and> a = x \<and> seq_rest t = xs"
      by auto
  qed
qed

text \<open>The mix of the benchmark, set by \<open>seq_init(10,10,1,1,1)\<close> in \<open>main\<close>, is an instance.\<close>

abbreviation std_ready :: "'z seqst_scheme \<Rightarrow> bool" where
  "std_ready \<equiv> seq_ready 10 10 1 1 1"

abbreviation std_mix :: "int list" where
  "std_mix \<equiv> mix_of 10 10 1 1 1"

lemma seq_round_source:
  assumes "mix_of n p os d sl \<noteq> []"
  shows "round_source seq_get (seq_ready n p os d sl) seq_rest (mix_of n p os d sl)"
proof (intro round_source.intro seq_hand_out round_source_axioms.intro assms returnsI)
  show "\<exists>a t. seq_get s = (Inr a, t) \<and> seq_ready n p os d sl t \<and>
      mset (a # seq_rest t) = mset (mix_of n p os d sl)"
    if "seq_ready n p os d sl s \<and> seq_rest s = []" for s :: "'z seqst_scheme"
    using that by (intro seq_get_refill) auto
qed

interpretation std: round_source seq_get std_ready seq_rest std_mix
  by (rule seq_round_source) (simp add: mix_of_def)

lemma seq_init_returns:
  assumes "0 \<le> n" "0 \<le> p" "0 \<le> os" "0 \<le> d" "0 \<le> sl" and "0 < n + p + os + d + sl"
  shows "\<exists>t. seq_init n p os d sl s = (Inr (), t) \<and> seq_ready n p os d sl t \<and>
    seq_next t = 0 \<and> mset (seq_rest t) = mset (mix_of n p os d sl)"
proof -
  define u where "u = s\<lparr>seq_no := n, seq_py := p, seq_os := os, seq_dl := d, seq_sl := sl,
    seq_total := n + p + os + d + sl,
    seq_arr := map sint (stake (nat (n + p + os + d + sl)) (garbage s)),
    garbage := sdrop (nat (n + p + os + d + sl)) (garbage s)\<rparr>"
  have shape: "seq_shape u" using assms by (simp add: seq_shape_def u_def)
  obtain v where v: "shuffle u = (Inr (), v)" "seq_shuffled u v"
    using shuffle_run [OF shape] by blast
  have "seq_init n p os d sl s = (Inr (), v\<lparr>seq_next := 0\<rparr>)"
    by (simp add: seq_init_def Let_def u_def [symmetric] run_simps v)
  moreover have "seq_ready n p os d sl (v\<lparr>seq_next := 0\<rparr>)"
    using seq_shuffled_shape(1) [OF shape v(2), of 0] v(2)
    by (auto simp: seq_ready_def seq_shuffled_def seq_shape_def u_def)
  moreover have "mset (seq_rest (v\<lparr>seq_next := 0\<rparr>)) = mset (mix_of n p os d sl)"
    using seq_shuffled_shape(2) [OF shape v(2)]
    by (simp add: seq_rest_def seq_mix_def mix_of_def u_def)
  ultimately show ?thesis by auto
qed

section \<open>Properties\<close>

text \<open>
  Property C17. After \<open>seq_init\<close> with nonnegative weights of positive sum, the calls of
  \<open>seq_get\<close> come in rounds of \<open>total\<close> calls, and every round, also after any number of
  reshuffles, contains each kind of transaction exactly as often as its weight says.
\<close>

theorem seq_rounds_keep_mix:
  assumes "0 \<le> n" "0 \<le> p" "0 \<le> os" "0 \<le> d" "0 \<le> sl" and "0 < n + p + os + d + sl"
  shows "\<exists>vss t. thn (seq_init n p os d sl)
      (replicateM k (replicateM (nat (n + p + os + d + sl)) seq_get)) s = (Inr vss, t) \<and>
    length vss = k \<and>
    (\<forall>vs \<in> set vss. int (count_list vs 0) = n \<and> int (count_list vs 1) = p \<and>
       int (count_list vs 2) = os \<and> int (count_list vs 3) = d \<and> int (count_list vs 4) = sl)"
proof -
  let ?mix = "mix_of n p os d sl"
  have len: "length ?mix = nat (n + p + os + d + sl)"
    using assms by (simp add: mix_of_def)
  then have "?mix \<noteq> []" using assms(6) by auto
  note rounds = round_source.rounds_from_full [OF seq_round_source [OF this], of k, unfolded len]
  obtain t where "seq_init n p os d sl s = (Inr (), t)" "seq_ready n p os d sl t"
    "mset (seq_rest t) = mset ?mix"
    using seq_init_returns [OF assms, of s] by blast
  moreover from this returnsD [OF rounds, of t] obtain vss u where
    "replicateM k (replicateM (nat (n + p + os + d + sl)) seq_get) t = (Inr vss, u)"
    "\<forall>vs \<in> set vss. mset vs = mset ?mix" "length vss = k" by blast
  moreover have "count_list vs v = count_list ?mix v" if "mset vs = mset ?mix" for vs v
    using that by (metis count_mset)
  moreover have "count_list (replicate m x) y = (if x = y then m else 0)" for m and x y :: int
    by (induction m) auto
  ultimately show ?thesis
    using assms by (auto simp: thn_def bnd_def mix_of_def)
qed

theorem seq_rounds_keep_mix_witness:
  "\<exists>vss t. thn (seq_init 10 10 1 1 1) (replicateM 3 (replicateM (nat (10 + 10 + 1 + 1 + 1)) seq_get))
      (support.extend example_support
        \<lparr>seq_no = 0, seq_py = 0, seq_os = 0, seq_dl = 0, seq_sl = 0, seq_total = 0,
          seq_arr = [], seq_next = 0\<rparr>) = (Inr vss, t) \<and>
    length vss = 3 \<and>
    (\<forall>vs \<in> set vss. int (count_list vs 0) = 10 \<and> int (count_list vs 1) = 10 \<and>
       int (count_list vs 2) = 1 \<and> int (count_list vs 3) = 1 \<and> int (count_list vs 4) = 1)"
  by (rule seq_rounds_keep_mix) simp_all

text \<open>
  With the mix of the benchmark, every call of \<open>seq_get\<close> after \<open>seq_init\<close>
  returns one of the five transaction numbers: the driver's default branch
  (\<^verbatim>\<open>Error - Unknown sequence.\<close>) is never reached and the array is never read outside.
\<close>

theorem seq_get_known_transaction:
  "\<exists>vs t. thn (seq_init 10 10 1 1 1) (replicateM k seq_get) s = (Inr vs, t) \<and>
     length vs = k \<and> set vs \<subseteq> {0, 1, 2, 3, 4}"
proof -
  obtain t where t: "seq_init 10 10 1 1 1 s = (Inr (), t)" "std_ready t"
    "mset (seq_rest t) = mset std_mix"
    using seq_init_returns [of 10 10 1 1 1 s] by auto
  then have "set (seq_rest t) \<subseteq> set std_mix"
    by (metis order_refl set_mset_mset)
  with t returnsD [OF std.all_drawn_in_mix [of k], of t] show ?thesis
    by (auto simp: thn_def bnd_def mix_of_def)
qed

end
