(* ===== verification/Hist.thy ===== *)
theory Hist
  imports Sequence
begin

text \<open>
  The response-time histograms of \<^verbatim>\<open>tpcc-mysql/src/rthist.c\<close>: five histograms of
  \<open>MAXREC * REC_PER_SEC\<close> buckets for the current report interval (\<open>cur_hist\<close>) and for
  the whole run (\<open>total_hist\<close>), and the maxima that \<^verbatim>\<open>main.c\<close> keeps beside them. Every
  addition and multiplication of counters is one of \<open>int\<close>, in 32 bits (\<open>c_int\<close>).
\<close>

record hist = seqst +
  total_hist :: "int list list"
  cur_hist :: "int list list"
  max_rt :: "rat list"
  cur_max_rt :: "rat list"

definition MAXREC :: int where
  "MAXREC = 20"

definition REC_PER_SEC :: int where
  "REC_PER_SEC = 1000"

definition buckets :: nat where
  "buckets = nat (MAXREC * REC_PER_SEC)"

definition hist_init :: "('z hist_scheme, unit) cm" where
  "hist_init = modify (\<lambda>s. s\<lparr>total_hist := replicate 5 (replicate buckets 0),
     cur_hist := replicate 5 (replicate buckets 0)\<rparr>)"

text \<open>The sum of counters as the loops of the program form it.\<close>

definition int_sum :: "int list \<Rightarrow> int" where
  "int_sum row = fold (\<lambda>c tot. c_int (tot + c)) row 0"

text \<open>The bucket of a response time: \<open>rtclk * 1000.0\<close> converted to \<open>int\<close>, capped at the last one.\<close>

definition hist_bucket :: "rat \<Rightarrow> int" where
  "hist_bucket rtclk = (let i = dbl_to_int (f64 (rtclk * of_int REC_PER_SEC)) in
     if i \<ge> MAXREC * REC_PER_SEC then MAXREC * REC_PER_SEC - 1 else i)"

definition bump_cell :: "int \<Rightarrow> int \<Rightarrow> ('z hist_scheme, unit) cm" where
  "bump_cell tr i s =
     (if in_range tr (cur_hist s) \<and> in_range i (cur_hist s ! nat tr)
      then (Inr (), s\<lparr>cur_hist := (cur_hist s)[nat tr :=
              (cur_hist s ! nat tr)[nat i := c_int (cur_hist s ! nat tr ! nat i + 1)]]\<rparr>)
      else (Inl OutOfBounds, s))"

definition hist_inc :: "int \<Rightarrow> rat \<Rightarrow> ('z hist_scheme, unit) cm" where
  "hist_inc tr rtclk =
     (let i = hist_bucket rtclk in
      bnd (gets cur_max_rt) (\<lambda>ms. bnd (rd ms tr) (\<lambda>m.
      thn (on_cond (rtclk > m) (modify (\<lambda>s. s\<lparr>cur_max_rt := (cur_max_rt s)[nat tr := rtclk]\<rparr>)))
        (bump_cell tr i))))"

text \<open>
  The second loop of \<open>hist_ckp\<close> over the buckets from index \<open>i\<close> on, with the locals
  \<open>tmp\<close>, \<open>line\<close> and \<open>line_set\<close>.
\<close>

fun ckp_scan :: "int \<Rightarrow> int list \<Rightarrow> int \<Rightarrow> int \<Rightarrow> int \<Rightarrow> bool \<Rightarrow> int" where
  "ckp_scan tot [] i tmp line line_set = line"
| "ckp_scan tot (c # cs) i tmp line line_set =
     (let tmp' = c_int (tmp + c) in
      if tmp' \<ge> c_int (tot * 99) sdiv 100 \<and> \<not> line_set then ckp_scan tot cs (i + 1) tmp' i True
      else ckp_scan tot cs (i + 1) tmp' line line_set)"

definition hist_ckp :: "int \<Rightarrow> ('z hist_scheme, rat) cm" where
  "hist_ckp tr =
     bnd (gets cur_hist) (\<lambda>h. bnd (rd h tr) (\<lambda>row.
     bnd (gets total_hist) (\<lambda>th. bnd (rd th tr) (\<lambda>trow.
       let tot = int_sum row;
           line = ckp_scan tot row 0 0 (MAXREC * REC_PER_SEC) False
       in thn (modify (\<lambda>s. s\<lparr>total_hist := (total_hist s)[nat tr := map2 (\<lambda>a b. c_int (a + b)) trow row],
                             cur_hist := (cur_hist s)[nat tr := map (\<lambda>_. 0) row]\<rparr>))
            (ret (f64 (of_int line / of_int REC_PER_SEC)))))))"

text \<open>
  The loop of \<open>hist_report\<close> from the last bucket down to the first: the argument is the
  reversed row, \<open>i\<close> the index of its head.
\<close>

fun report_scan :: "int \<Rightarrow> int list \<Rightarrow> int \<Rightarrow> int \<Rightarrow> int \<Rightarrow> int" where
  "report_scan tot [] i tmp line = line"
| "report_scan tot (c # cs) i tmp line =
     (let tmp' = c_int (tmp + c) in
      report_scan tot cs (i - 1) tmp' (if c_int (tmp' * 10) \<le> tot then i else line))"

definition report_line :: "int list \<Rightarrow> int" where
  "report_line row = report_scan (int_sum row) (rev row) (MAXREC * REC_PER_SEC - 1) 0
     (MAXREC * REC_PER_SEC)"

text \<open>
  What \<open>hist_report\<close> prints of a histogram: the bars with the upper edge of the bucket
  they stand for, and at the end the percentile and the maximum.
\<close>

definition report_bars :: "int list \<Rightarrow> (rat \<times> int) list" where
  "report_bars row = map (\<lambda>i. (f64 (of_int (i + 1) / of_int REC_PER_SEC), row ! nat i))
     (takeWhile (\<lambda>i. i \<le> report_line row * 4) [0..int buckets - 1])"

definition hist_report :: "'z hist_scheme \<Rightarrow> ((rat \<times> int) list \<times> rat \<times> rat) list" where
  "hist_report s = map (\<lambda>j. (report_bars (total_hist s ! j),
      f64 (of_int (report_line (total_hist s ! j)) / of_int REC_PER_SEC), max_rt s ! j)) [0..<5]"

section \<open>Lemmas\<close>

definition hist_ok :: "'z hist_scheme \<Rightarrow> bool" where
  "hist_ok s \<longleftrightarrow> length (total_hist s) = 5 \<and> length (cur_hist s) = 5 \<and>
     length (max_rt s) = 5 \<and> length (cur_max_rt s) = 5 \<and>
     (\<forall>row \<in> set (total_hist s). length row = buckets) \<and>
     (\<forall>row \<in> set (cur_hist s). length row = buckets)"

lemma int_sum: "int_sum row = c_int (sum_list row)"
proof -
  have "fold (\<lambda>c tot. c_int (tot + c)) row (c_int a) = c_int (a + sum_list row)" for a
    by (induction row arbitrary: a) (simp_all add: add.assoc)
  from this [of 0] show ?thesis by (simp add: int_sum_def c_int_id)
qed

text \<open>A row with one bucket in use.\<close>

lemma sum_one_bucket:
  assumes "i < n"
  shows "sum_list (take m ((replicate n 0)[i := v])) = (if i < m then v else (0 :: int))"
    and "sum_list ((replicate n 0)[i := v]) = v"
  using assms by (simp_all add: upd_conv_take_nth_drop take_Cons' sum_list_replicate min_def)

lemma ckp_scan_set: "ckp_scan tot cs i tmp line True = line"
  by (induction cs arbitrary: i tmp) (simp_all add: Let_def)

text \<open>Once a bucket reaches the threshold, the scan returns the first such bucket.\<close>

lemma ckp_scan_first:
  assumes "k < length cs" and "tmp + sum_list (take (Suc k) cs) \<ge> c_int (tot * 99) sdiv 100"
    and "\<And>j. j < k \<Longrightarrow> tmp + sum_list (take (Suc j) cs) < c_int (tot * 99) sdiv 100"
    and "\<forall>c \<in> set cs. 0 \<le> c" and "0 \<le> tmp" and "tmp + sum_list cs < 2147483648"
  shows "ckp_scan tot cs i tmp line False = i + int k"
  using assms
proof (induction cs arbitrary: i tmp k)
  case Nil
  then show ?case by simp
next
  case (Cons c cs)
  have "0 \<le> sum_list cs" using Cons.prems(4) by (intro sum_list_nonneg) simp
  with Cons.prems(4-6) have wrap: "c_int (tmp + c) = tmp + c" by (intro c_int_id) simp_all
  show ?case
  proof (cases k)
    case 0
    with Cons.prems wrap show ?thesis by (simp add: ckp_scan_set)
  next
    case (Suc m)
    have "tmp + c < c_int (tot * 99) sdiv 100" using Cons.prems(3) [of 0] Suc by simp
    moreover have "ckp_scan tot cs (i + 1) (tmp + c) line False = i + 1 + int m"
    proof (rule Cons.IH)
      show "tmp + c + sum_list (take (Suc j) cs) < c_int (tot * 99) sdiv 100" if "j < m" for j
        using Cons.prems(3) [of "Suc j"] that Suc by (simp add: add.assoc)
    qed (use Cons.prems Suc in \<open>simp_all add: add.assoc\<close>)
    ultimately show ?thesis using Suc wrap by simp
  qed
qed

lemma sum_list_nonneg_take:
  fixes cs :: "int list"
  assumes "\<forall>c \<in> set cs. 0 \<le> c"
  shows "0 \<le> sum_list (take n cs)"
  using assms by (intro sum_list_nonneg) (auto dest: in_set_takeD)

lemma sdiv_nonpos: "a \<le> 0 \<Longrightarrow> a sdiv 100 \<le> (0 :: int)"
  by (auto simp: signed_divide_int_def sgn_if)

text \<open>
  The threshold: 99 percent below 21691755 transactions; from there on the product overflows, and is
  negative up to 43383508. It is at most the number of transactions in any case.
\<close>

definition threshold :: "int \<Rightarrow> int" where
  "threshold tot = c_int (tot * 99) sdiv 100"

lemma threshold_small: "0 \<le> tot \<Longrightarrow> tot < 21691755 \<Longrightarrow> threshold tot = tot * 99 div 100"
  by (simp add: threshold_def c_int_id sdiv_nonneg_eq)

lemma threshold_large: "21691755 \<le> tot \<Longrightarrow> tot \<le> 43383508 \<Longrightarrow> threshold tot \<le> 0"
  using c_int_add_period [of "tot * 99 - 4294967296"] c_int_id [of "tot * 99 - 4294967296"]
  by (simp add: threshold_def sdiv_nonpos)

lemma threshold_le:
  assumes "0 \<le> tot"
  shows "threshold tot \<le> tot"
proof (cases "tot < 21691755")
  case True
  with assms show ?thesis by (simp add: threshold_small)
next
  case False
  have "threshold tot \<le> 21474836"
  proof (cases "0 \<le> c_int (tot * 99)")
    case True
    then have "threshold tot = c_int (tot * 99) div 100" by (simp add: threshold_def sdiv_nonneg_eq)
    also have "\<dots> \<le> 2147483647 div 100" using c_int_less [of "tot * 99"] by (intro zdiv_mono1) simp_all
    finally show ?thesis by simp
  next
    case False
    then have "threshold tot \<le> 0" by (simp add: threshold_def sdiv_nonpos)
    then show ?thesis by simp
  qed
  with False show ?thesis by simp
qed

text \<open>The number of the bucket that the checkpoint reports.\<close>

definition ckp_line :: "int list \<Rightarrow> nat" where
  "ckp_line row = (LEAST k. threshold (sum_list row) \<le> sum_list (take (Suc k) row))"

lemma ckp_line:
  assumes "row \<noteq> []" and "\<forall>c \<in> set row. 0 \<le> c" and "sum_list row < 2147483648"
  shows "ckp_line row < length row"
    and "threshold (sum_list row) \<le> sum_list (take (Suc (ckp_line row)) row)"
    and "j < ckp_line row \<Longrightarrow> sum_list (take (Suc j) row) < threshold (sum_list row)"
    and "ckp_scan (sum_list row) row 0 0 line False = int (ckp_line row)"
proof -
  let ?P = "\<lambda>k. threshold (sum_list row) \<le> sum_list (take (Suc k) row)"
  have "0 \<le> sum_list row" using sum_list_nonneg_take [OF assms(2), of "length row"] by simp
  then have P: "?P (length row - 1)" using assms(1) threshold_le by simp
  from LeastI [of ?P, OF P] show 2: "?P (ckp_line row)" by (simp add: ckp_line_def)
  have "ckp_line row \<le> length row - 1" unfolding ckp_line_def by (rule Least_le [of ?P, OF P])
  with assms(1) show 1: "ckp_line row < length row" by (cases row) auto
  show 3: "sum_list (take (Suc j) row) < threshold (sum_list row)" if "j < ckp_line row" for j
    using not_less_Least [of j ?P] that by (simp add: ckp_line_def not_le)
  show "ckp_scan (sum_list row) row 0 0 line False = int (ckp_line row)"
    using ckp_scan_first [OF 1, where tmp = 0 and tot = "sum_list row" and i = 0 and line = line]
      2 3 assms(2,3) by (simp add: threshold_def)
qed

lemma hist_ckp_run:
  assumes "hist_ok s" and "0 \<le> tr" and "tr < 5"
  defines "row \<equiv> cur_hist s ! nat tr"
  shows "hist_ckp tr s = (Inr (f64 (of_int (ckp_scan (int_sum row) row 0 0 20000 False) / 1000)),
    s\<lparr>total_hist := (total_hist s)[nat tr := map2 (\<lambda>a b. c_int (a + b)) (total_hist s ! nat tr) row],
      cur_hist := (cur_hist s)[nat tr := map (\<lambda>_. 0) row]\<rparr>)"
proof -
  have len: "length (cur_hist s) = 5" "length (total_hist s) = 5"
    using assms by (auto simp: hist_ok_def)
  with assms(2,3) show ?thesis
    by (simp add: hist_ckp_def run_simps row_def Let_def REC_PER_SEC_def MAXREC_def)
qed

text \<open>From 2147484 seconds on the conversion to \<open>int\<close> fails.\<close>

lemma hist_bucket_range:
  assumes "0 \<le> rt" and "rt \<le> 2147483"
  shows "0 \<le> hist_bucket rt \<and> hist_bucket rt < int buckets"
proof -
  have "f64 (rt * 1000) < 2147483648" using assms f64_close [of "rt * 1000" 2147483001] by simp
  moreover have "0 \<le> f64 (rt * 1000)" using assms(1) by (intro f64_sign) simp
  ultimately have "0 \<le> dbl_to_int (f64 (rt * 1000))" by (simp add: dbl_to_int_range(2))
  then show ?thesis by (simp add: hist_bucket_def Let_def MAXREC_def REC_PER_SEC_def buckets_def)
qed

lemma hist_inc_run:
  assumes "hist_ok s" and "0 \<le> tr" and "tr < 5" and "0 \<le> rt" and "rt \<le> 2147483"
  shows "hist_inc tr rt s = (Inr (), s
    \<lparr>cur_max_rt := (cur_max_rt s)[nat tr := max (cur_max_rt s ! nat tr) rt],
     cur_hist := (cur_hist s)[nat tr := (cur_hist s ! nat tr)
       [nat (hist_bucket rt) := c_int (cur_hist s ! nat tr ! nat (hist_bucket rt) + 1)]]\<rparr>)"
proof -
  have len: "length (cur_hist s) = 5" "length (cur_max_rt s) = 5" and tr: "nat tr < 5"
    using assms by (auto simp: hist_ok_def)
  then have "cur_hist s ! nat tr \<in> set (cur_hist s)" by simp
  then have "length (cur_hist s ! nat tr) = buckets" using assms(1) by (auto simp: hist_ok_def)
  with hist_bucket_range [OF assms(4,5)] len assms(2,3) tr show ?thesis
    by (auto simp: hist_inc_def bump_cell_def run_simps in_range_def Let_def max_def)
qed

lemma hist_inc_keeps_ok:
  assumes "hist_ok s" and "0 \<le> tr" and "tr < 5" and "0 \<le> rt" and "rt \<le> 2147483"
  shows "hist_ok (snd (hist_inc tr rt s))"
proof -
  have "nat tr < length (cur_hist s)" using assms(1-3) by (auto simp: hist_ok_def)
  with assms(1) have "length ((cur_hist s ! nat tr)[i := v]) = buckets" for i v by (simp add: hist_ok_def)
  with assms(1) show ?thesis
    unfolding hist_inc_run [OF assms] by (auto simp: hist_ok_def dest!: set_update_subset_insert [THEN subsetD])
qed

text \<open>The scan of the report from the last bucket down keeps the last index that qualifies.\<close>

lemma report_scan_stop:
  assumes "\<forall>c \<in> set cs. 0 \<le> c" and "tot < 10 * tmp" and "0 \<le> tmp" and "10 * (tmp + sum_list cs) < 2147483648"
  shows "report_scan tot cs i tmp line = line"
  using assms
proof (induction cs arbitrary: i tmp)
  case (Cons c cs)
  have "0 \<le> sum_list cs" using Cons.prems(1) by (intro sum_list_nonneg) simp
  then have "c_int (tmp + c) = tmp + c" "c_int (10 * (tmp + c)) = 10 * (tmp + c)"
    using Cons.prems by (intro c_int_id; simp)+
  moreover have "tot < 10 * (tmp + c)" using Cons.prems by auto
  ultimately show ?case using Cons by (auto simp: Let_def mult.commute)
qed simp

definition tail_sum :: "int list \<Rightarrow> nat \<Rightarrow> int" where
  "tail_sum row i = sum_list (drop i row)"

lemma tail_sum_snoc: "k \<le> length cs \<Longrightarrow> tail_sum (cs @ [c]) k = tail_sum cs k + c"
  by (simp add: tail_sum_def)

lemma report_scan_rev:
  assumes "\<forall>c \<in> set cs. 0 \<le> c" and "k \<le> length cs"
    and "k < length cs \<Longrightarrow> 10 * (tmp + tail_sum cs k) \<le> tot"
    and "0 < k \<Longrightarrow> tot < 10 * (tmp + tail_sum cs (k - 1))"
    and "line = int (length cs)" and "0 \<le> tmp" and "10 * (tmp + sum_list cs) < 2147483648"
  shows "report_scan tot (rev cs) (int (length cs) - 1) tmp line = int k"
  using assms
proof (induction cs arbitrary: tmp line k rule: rev_induct)
  case Nil
  then show ?case by simp
next
  case (snoc c cs)
  have "0 \<le> sum_list cs" using snoc.prems(1) by (intro sum_list_nonneg) simp
  then have wrap: "c_int (tmp + c) = tmp + c" "c_int ((tmp + c) * 10) = (tmp + c) * 10"
    using snoc.prems(1,6,7) by (intro c_int_id; simp)+
  show ?case
  proof (cases "k = Suc (length cs)")
    case True
    with snoc.prems(4) have "tot < 10 * (tmp + c)" by (simp add: tail_sum_def)
    with snoc.prems(1,5-7) True wrap show ?thesis
      by (simp add: Let_def report_scan_stop sum_list_rev algebra_simps)
  next
    case False
    then have k: "k \<le> length cs" using snoc.prems(2) by simp
    have le: "10 * (tmp + tail_sum cs k + c) \<le> tot"
      using snoc.prems(3) k by (simp add: tail_sum_snoc)
    have "0 \<le> tail_sum cs k"
      using snoc.prems(1) by (auto simp: tail_sum_def intro!: sum_list_nonneg dest: in_set_dropD)
    with le have hit: "(tmp + c) * 10 \<le> tot" by (simp add: algebra_simps)
    have "report_scan tot (rev cs) (int (length cs) - 1) (tmp + c) (int (length cs)) = int k"
    proof (rule snoc.IH)
      show "tot < 10 * (tmp + c + tail_sum cs (k - 1))" if "0 < k"
        using snoc.prems(4) [OF that] k by (simp add: tail_sum_snoc algebra_simps)
    qed (use snoc.prems(1,6,7) k le in \<open>auto simp: algebra_simps\<close>)
    with hit wrap show ?thesis by (simp add: Let_def)
  qed
qed

section \<open>Properties\<close>

text \<open>
  Recording a response time never leaves the histogram: the cell of its bucket,
  and no other, goes up by one, a time beyond the range counts in the last bucket, and the
  interval's maximum is the maximum of what was recorded. Times of at least 2147483 seconds are excluded.
\<close>

theorem hist_inc_counts:
  assumes "hist_ok s" and "0 \<le> tr" and "tr < 5" and "0 \<le> rt" and "rt \<le> 2147483"
  shows "\<exists>t. hist_inc tr rt s = (Inr (), t) \<and> hist_ok t \<and> total_hist t = total_hist s \<and>
    (\<forall>k i. cur_hist t ! k ! i =
       (if k = nat tr \<and> i = nat (hist_bucket rt) then c_int (cur_hist s ! k ! i + 1) else cur_hist s ! k ! i)) \<and>
    cur_max_rt t ! nat tr = max (cur_max_rt s ! nat tr) rt"
proof -
  let ?j = "nat tr" and ?b = "nat (hist_bucket rt)"
  have j: "?j < length (cur_hist s)" "?j < length (cur_max_rt s)" "length (cur_hist s ! ?j) = buckets"
    using assms by (auto simp: hist_ok_def)
  have b: "?b < buckets" using hist_bucket_range [OF assms(4,5)] by linarith
  have upd: "xs[m := v] ! i = (if i = m \<and> m < length xs then v else xs ! i)"
    for xs :: "'x list" and m i v
    by (cases "m < length xs"; cases "i = m") (simp_all add: list_update_beyond)
  show ?thesis
    unfolding hist_inc_run [OF assms]
    using hist_inc_keeps_ok [OF assms, unfolded hist_inc_run [OF assms]] j b by (auto simp: upd)
qed

text \<open>A state with two response times of the first transaction and 200 of the last recorded.\<close>

definition example_hist :: hist where
  "example_hist = \<lparr>rng = sconst 0, garbage = sconst 0, stamps = sconst None, nurand_first = True,
     nums = [], perm_count = 0, seq_no = 10, seq_py = 10, seq_os = 1, seq_dl = 1, seq_sl = 1,
     seq_total = 0, seq_arr = [], seq_next = 0,
     total_hist = replicate 5 (replicate buckets 0),
     cur_hist = (replicate 5 (replicate buckets 0))[0 := (replicate buckets 0)[0 := 2],
       4 := (replicate buckets 0)[1999 := 200]],
     max_rt = replicate 5 0, cur_max_rt = replicate 5 0\<rparr>"

lemma example_hist_ok: "hist_ok example_hist"
  by (simp add: hist_ok_def example_hist_def numeral_eq_Suc)

theorem hist_inc_counts_witness:
  "\<exists>t. hist_inc 4 (5 / 2) example_hist = (Inr (), t) \<and> hist_ok t \<and>
    total_hist t = total_hist example_hist \<and>
    (\<forall>k i. cur_hist t ! k ! i = (if k = nat 4 \<and> i = nat (hist_bucket (5 / 2))
       then c_int (cur_hist example_hist ! k ! i + 1) else cur_hist example_hist ! k ! i)) \<and>
    cur_max_rt t ! nat 4 = max (cur_max_rt example_hist ! nat 4) (5 / 2)"
  by (rule hist_inc_counts [OF example_hist_ok]) simp_all

text \<open>
  Property C18. A checkpoint adds the interval's counts to the totals, cell by cell and in 32 bits, and the
  interval starts empty: no count is lost as long as the totals stay in the range of \<open>int\<close>. The
  response time that it returns is that of a bucket. With \<open>q\<close> transactions in the interval, fewer than
  21691755, it is the 99th percentile (the comment of \<open>hist_ckp\<close> says 90): \<open>q * 99 / 100\<close> of them,
  rounded down, lie in the buckets up to the one returned, and in the buckets before it fewer. From 21691755
  transactions on \<open>q * 99\<close> overflows, and up to 43383508 the first bucket is returned, whatever the times.
\<close>

theorem hist_ckp_conserves:
  assumes "hist_ok s" and "0 \<le> tr" and "tr < 5"
    and "\<forall>c \<in> set (cur_hist s ! nat tr). 0 \<le> c" and "q = sum_list (cur_hist s ! nat tr)" and "q < 2147483648"
  shows "\<exists>t k. hist_ckp tr s = (Inr (f64 (of_int (int k) / 1000)), t) \<and> k < buckets \<and> hist_ok t \<and>
    (\<forall>j < 5. \<forall>i < buckets. (j \<noteq> nat tr \<longrightarrow> total_hist t ! j ! i = total_hist s ! j ! i \<and>
         cur_hist t ! j ! i = cur_hist s ! j ! i)) \<and>
    (\<forall>i < buckets. total_hist t ! nat tr ! i = c_int (total_hist s ! nat tr ! i + cur_hist s ! nat tr ! i) \<and>
       cur_hist t ! nat tr ! i = 0) \<and>
    (q < 21691755 \<longrightarrow> q * 99 div 100 \<le> sum_list (take (Suc k) (cur_hist s ! nat tr)) \<and>
       (\<forall>j < k. sum_list (take (Suc j) (cur_hist s ! nat tr)) < q * 99 div 100)) \<and>
    (21691755 \<le> q \<and> q \<le> 43383508 \<longrightarrow> k = 0)"
proof -
  let ?j = "nat tr" and ?row = "cur_hist s ! nat tr" and ?trow = "total_hist s ! nat tr"
  let ?t = "s\<lparr>total_hist := (total_hist s)[?j := map2 (\<lambda>a b. c_int (a + b)) ?trow ?row],
    cur_hist := (cur_hist s)[?j := map (\<lambda>_. 0) ?row]\<rparr>"
  have j: "?j < length (cur_hist s)" "?j < length (total_hist s)"
    using assms by (auto simp: hist_ok_def)
  then have len: "length ?row = buckets" "length ?trow = buckets"
    using assms(1) by (auto simp: hist_ok_def)
  then have ne: "?row \<noteq> []" by (auto simp: buckets_def MAXREC_def REC_PER_SEC_def)
  have q: "0 \<le> q" using sum_list_nonneg_take [OF assms(4), of "length ?row"] assms(5) by simp
  note line = ckp_line [OF ne assms(4), folded assms(5), OF assms(6)]
  have tot: "int_sum ?row = q" using q assms(5,6) by (simp add: int_sum c_int_id)
  have run: "hist_ckp tr s = (Inr (f64 (of_int (int (ckp_line ?row)) / 1000)), ?t)"
    unfolding hist_ckp_run [OF assms(1-3)] tot line(4) ..
  have ok: "hist_ok ?t" using assms(1) len
    by (auto simp: hist_ok_def dest!: set_update_subset_insert [THEN subsetD])
  have small: "q * 99 div 100 \<le> sum_list (take (Suc (ckp_line ?row)) ?row) \<and>
      (\<forall>j < ckp_line ?row. sum_list (take (Suc j) ?row) < q * 99 div 100)" if "q < 21691755"
    using line(2,3) threshold_small [OF q that] by simp
  have large: "ckp_line ?row = 0" if "21691755 \<le> q" "q \<le> 43383508"
    using threshold_large [OF that] line(3) [of 0] sum_list_nonneg_take [OF assms(4), of 1] by fastforce
  show ?thesis
    by (rule exI [of _ ?t], rule exI [of _ "ckp_line ?row"])
      (use run ok small large line(1) len j in \<open>auto simp: nth_list_update\<close>)
qed

theorem hist_ckp_conserves_witness:
  "\<exists>t k. hist_ckp 4 example_hist = (Inr (f64 (of_int (int k) / 1000)), t) \<and> k = 1999 \<and>
    total_hist t ! 4 ! 1999 = 200 \<and> cur_hist t ! 4 ! 1999 = 0"
proof -
  let ?row = "cur_hist example_hist ! nat 4"
  have buckets: "1999 < buckets" by (simp add: buckets_def MAXREC_def REC_PER_SEC_def)
  have row: "?row = (replicate buckets 0)[1999 := 200]" by (simp add: example_hist_def)
  have cells: "\<forall>c \<in> set ?row. 0 \<le> c" "200 = sum_list ?row" "?row ! 1999 = 200"
    unfolding row using sum_one_bucket(2) [OF buckets] buckets
    by (auto dest!: set_update_subset_insert [THEN subsetD])
  obtain t k where t: "hist_ckp 4 example_hist = (Inr (f64 (of_int (int k) / 1000)), t)"
    "\<forall>i < buckets. total_hist t ! nat 4 ! i = c_int (total_hist example_hist ! nat 4 ! i + ?row ! i) \<and>
       cur_hist t ! nat 4 ! i = 0"
    "198 \<le> sum_list (take (Suc k) ?row)" "\<forall>j < k. sum_list (take (Suc j) ?row) < 198"
    using hist_ckp_conserves [OF example_hist_ok _ _ cells(1,2)] by auto
  have "k = 1999"
  proof (rule antisym)
    note sums = t(3,4) [unfolded row sum_one_bucket(1) [OF buckets]]
    show "1999 \<le> k" using sums(1) by (simp split: if_splits)
    show "k \<le> 1999" using spec [OF sums(2), of 1999] by simp
  qed
  moreover have "total_hist example_hist ! nat 4 ! 1999 = 0" using buckets by (simp add: example_hist_def)
  ultimately show ?thesis using t(1,2) buckets cells(3) by (auto simp: c_int_id)
qed

text \<open>
  The percentile of the final report is the 90th, and is computed from above:
  it is the least bucket such that the transactions in this bucket and above it are at most
  a tenth of all.
\<close>

theorem report_line_percentile:
  assumes "length row = buckets" and "\<forall>c \<in> set row. 0 \<le> c" and "10 * sum_list row < 2147483648"
  shows "\<exists>k \<le> buckets. report_line row = int k \<and>
    (k < buckets \<longrightarrow> 10 * sum_list (drop k row) \<le> sum_list row) \<and>
    (\<forall>j < k. sum_list row < 10 * sum_list (drop j row))"
proof -
  let ?P = "\<lambda>k. length row \<le> k \<or> 10 * tail_sum row k \<le> sum_list row"
  define k where "k = (LEAST k. ?P k)"
  have P: "?P k" unfolding k_def by (rule LeastI [of ?P "length row"]) simp
  have le: "k \<le> length row" unfolding k_def by (rule Least_le [of ?P "length row"]) simp
  have less: "sum_list row < 10 * tail_sum row j" if "j < k" for j
    using not_less_Least [of j ?P] that by (auto simp: k_def not_le)
  have "report_scan (sum_list row) (rev row) (int (length row) - 1) 0 (int (length row)) = int k"
    by (rule report_scan_rev) (use assms P le less in auto)
  moreover have "int_sum row = sum_list row"
    using assms(2,3) sum_list_nonneg_take [OF assms(2), of "length row"] by (simp add: int_sum c_int_id)
  ultimately have "report_line row = int k"
    using assms(1) by (simp add: report_line_def buckets_def MAXREC_def REC_PER_SEC_def)
  with P le less assms(1) show ?thesis by (auto simp: tail_sum_def)
qed

definition example_row :: "int list" where
  "example_row = (replicate buckets 0)[7 := 4]"

theorem report_line_percentile_witness:
  "\<exists>k \<le> buckets. report_line example_row = int k \<and>
    (k < buckets \<longrightarrow> 10 * sum_list (drop k example_row) \<le> sum_list example_row) \<and>
    (\<forall>j < k. sum_list example_row < 10 * sum_list (drop j example_row))"
  by (rule report_line_percentile)
    (auto simp: example_row_def sum_one_bucket(2) buckets_def MAXREC_def REC_PER_SEC_def dest!: set_update_subset_insert [THEN subsetD])

end
