(* ===== verification/Db.thy ===== *)
theory Db
  imports Hist
begin

text \<open>
  The database connection of the TPC-C driver, as the transaction functions of
  \<^verbatim>\<open>tpcc-mysql/src/*.c\<close> use it. The MySQL client library and the server are not part of
  the program: they are a parameter \<open>M\<close> of type \<open>'s server\<close>, which says for each thread
  and each call what the library returns, what the result buffers hold after the call, and
  how the server state \<open>'s\<close> changes. Nothing is assumed of it here.

  Every call is recorded in the \<open>log\<close> with the thread that made it, its return value and
  the buffers, so that the properties of a transaction are properties of the calls it made.
  What the functions print on \<open>stderr\<close> and on \<open>ftrx_file\<close> goes to the same log.

  The first definitions are the idioms that all transactions repeat: bind the parameters and
  execute (\<open>sql_exec\<close>), store and bind the result (\<open>open_result\<close>), fetch with the
  \<open>switch\<close> over its return value (\<open>fetch_row\<close>), and a SELECT of one row (\<open>query1\<close>).
\<close>

section \<open>State\<close>

text \<open>
  A bound parameter with the value of its variable. The variables do not change between
  \<open>mysql_stmt_bind_param\<close>, which takes their addresses, and the execution that follows it.
\<close>

datatype param = PLong int | PFloat rat | PString string

text \<open>A result buffer: its \<open>buffer_type\<close> and, for strings, its \<open>buffer_length\<close>.\<close>

datatype column = ColLong | ColFloat | ColString nat

text \<open>
  The calls of the client library, with the index of the prepared statement. For a call that
  returns a pointer (\<open>Init\<close>, \<open>Connect\<close>, \<open>StmtInit\<close>) the value 0 stands for a pointer that is not NULL.
\<close>

datatype call =
    BindParam nat "param list"
  | Execute nat
  | StoreResult nat
  | BindResult nat "column list"
  | Fetch nat
  | FreeResult nat
  | Commit
  | Rollback
  | Init
  | Connect string string string string int "string option"
    \<comment> \<open>host, user, password, database, port, socket\<close>
  | Autocommit
  | Query string
  | StmtInit nat
  | Prepare nat string nat
  | StmtClose nat
  | Close

text \<open>
  The contents of the bound result buffers, by column and type. A column that is NULL leaves
  its buffer as it was; what it then holds is again the server's answer.
\<close>

record row =
  col_long :: "nat \<Rightarrow> int"
  col_float :: "nat \<Rightarrow> rat"
  col_str :: "nat \<Rightarrow> string"

datatype event =
    Call int call int row
  | Diag string "int list"         \<comment> \<open>the line a transaction prints before rolling back\<close>
  | MysqlError int                 \<comment> \<open>the line of \<open>error\<close>\<close>
  | Trx int "int \<times> int" "int \<times> int" \<comment> \<open>a line of \<open>ftrx_file\<close>: finish and start time\<close>

record 's db = hist +
  srv :: 's
  log :: "event list"
  proceed :: int
  clocks :: "(int \<times> int) stream"  \<comment> \<open>the results of \<open>clock_gettime\<close>: seconds, nanoseconds\<close>
  ftrx_file :: bool                \<comment> \<open>the file is open\<close>

type_synonym 's server = "int \<Rightarrow> call \<Rightarrow> 's \<Rightarrow> int \<times> row \<times> 's"

definition MYSQL_NO_DATA :: int where
  "MYSQL_NO_DATA = 100"

definition MYSQL_DATA_TRUNCATED :: int where
  "MYSQL_DATA_TRUNCATED = 101"

section \<open>C strings\<close>

text \<open>The string that a memory area holds: the bytes before the first NUL.\<close>

definition cstr :: "string \<Rightarrow> string" where
  "cstr mem = takeWhile (\<lambda>c. c \<noteq> CHR 0x00) mem"

text \<open>\<open>strncpy\<close> writes exactly \<open>n\<close> bytes, NULs after the end of the string.\<close>

definition strncpy_bytes :: "nat \<Rightarrow> string \<Rightarrow> string" where
  "strncpy_bytes n str = take n str @ replicate (n - length str) (CHR 0x00)"

definition write_bytes :: "nat \<Rightarrow> string \<Rightarrow> string \<Rightarrow> string" where
  "write_bytes pos bs mem = take pos mem @ bs @ drop (pos + length bs) mem"

section \<open>Calls\<close>

definition emit :: "event \<Rightarrow> (('s, 'z) db_scheme, unit) cm" where
  "emit ev = modify (\<lambda>s. s\<lparr>log := log s @ [ev]\<rparr>)"

definition sql :: "'s server \<Rightarrow> int \<Rightarrow> call \<Rightarrow> (('s, 'z) db_scheme, int \<times> row) cm" where
  "sql M t_num c s = (case M t_num c (srv s) of (rc, r, w) \<Rightarrow>
     (Inr (rc, r), s\<lparr>srv := w, log := log s @ [Call t_num c rc r]\<rparr>))"

definition set_proceed :: "int \<Rightarrow> (('s, 'z) db_scheme, unit) cm" where
  "set_proceed n = modify (\<lambda>s. s\<lparr>proceed := n\<rparr>)"

definition clock_gettime :: "(('s, 'z) db_scheme, int \<times> int) cm" where
  "clock_gettime s = (Inr (shd (clocks s)), s\<lparr>clocks := stl (clocks s)\<rparr>)"

text \<open>A call whose result is compared with 0: anything else jumps to the error label.\<close>

definition checked :: "'s server \<Rightarrow> label \<Rightarrow> int \<Rightarrow> call \<Rightarrow> (('s, 'z) db_scheme, unit) cm" where
  "checked M err t_num c = bnd (sql M t_num c) (\<lambda>(rc, r).
     if rc \<noteq> 0 then halt (Goto err) else ret ())"

definition sql_exec ::
  "'s server \<Rightarrow> label \<Rightarrow> int \<Rightarrow> nat \<Rightarrow> param list \<Rightarrow> (('s, 'z) db_scheme, unit) cm" where
  "sql_exec M err t_num k ps =
     thn (checked M err t_num (BindParam k ps)) (checked M err t_num (Execute k))"

definition open_result ::
  "'s server \<Rightarrow> label \<Rightarrow> int \<Rightarrow> nat \<Rightarrow> column list \<Rightarrow> (('s, 'z) db_scheme, unit) cm" where
  "open_result M err t_num k cols =
     thn (checked M err t_num (StoreResult k)) (checked M err t_num (BindResult k cols))"

definition free_result :: "'s server \<Rightarrow> int \<Rightarrow> nat \<Rightarrow> (('s, 'z) db_scheme, unit) cm" where
  "free_result M t_num k = bnd (sql M t_num (FreeResult k)) (\<lambda>_. ret ())"

text \<open>
  The fetch with its \<open>switch\<close>: \<open>oks\<close> are the return values with a \<open>break\<close>, \<open>lbl\<close> says
  where the others jump to, after the result is freed.
\<close>

definition fetch_row :: "'s server \<Rightarrow> (int \<Rightarrow> label) \<Rightarrow> int \<Rightarrow> nat \<Rightarrow> int list \<Rightarrow>
    (('s, 'z) db_scheme, row) cm" where
  "fetch_row M lbl t_num k oks = bnd (sql M t_num (Fetch k)) (\<lambda>(rc, r).
     if rc \<in> set oks then ret r
     else thn (free_result M t_num k) (halt (Goto (lbl rc))))"

definition query1 :: "'s server \<Rightarrow> label \<Rightarrow> int \<Rightarrow> nat \<Rightarrow> param list \<Rightarrow> column list \<Rightarrow> int list \<Rightarrow>
    (('s, 'z) db_scheme, row) cm" where
  "query1 M err t_num k ps cols oks =
     thn (sql_exec M err t_num k ps)
    (thn (open_result M err t_num k cols)
    (bnd (fetch_row M (\<lambda>_. err) t_num k oks) (\<lambda>r.
     thn (free_result M t_num k) (ret r))))"

text \<open>\<open>error\<close> of \<^verbatim>\<open>spt_proc.c\<close>: the connection is never NULL here.\<close>

definition error :: "int \<Rightarrow> (('s, 'z) db_scheme, int) cm" where
  "error t_num = thn (emit (MysqlError t_num)) (ret 0)"

text \<open>The block at the label \<open>sqlerr\<close> of the transaction functions.\<close>

definition sqlerr :: "'s server \<Rightarrow> string \<Rightarrow> int \<Rightarrow> (('s, 'z) db_scheme, int) cm" where
  "sqlerr M fn t_num = bnd (gets proceed) (\<lambda>p.
     thn (emit (Diag fn [t_num, p]))
    (thn (error t_num)
    (thn (sql M t_num Rollback) (ret 0))))"

section \<open>Traces\<close>

text \<open>
  \<open>traced N E m\<close>: \<open>m\<close> only appends to the log, the events of a normal return satisfy
  \<open>N\<close>, those of a stop \<open>E\<close>.
\<close>

definition traced :: "('a \<Rightarrow> event list \<Rightarrow> bool) \<Rightarrow> (stop \<Rightarrow> event list \<Rightarrow> bool) \<Rightarrow>
    (('s, 'z) db_scheme, 'a) cm \<Rightarrow> bool" where
  "traced N E m \<longleftrightarrow> (\<forall>s. \<exists>es. log (snd (m s)) = log s @ es \<and>
     (case fst (m s) of Inl e \<Rightarrow> E e es | Inr a \<Rightarrow> N a es))"

lemma tracedI:
  "(\<And>s. \<exists>es. log (snd (m s)) = log s @ es \<and>
     (case fst (m s) of Inl e \<Rightarrow> E e es | Inr a \<Rightarrow> N a es)) \<Longrightarrow> traced N E m"
  by (simp add: traced_def)

lemma traced_ok: "traced N E m \<Longrightarrow> m s = (Inr a, t) \<Longrightarrow> \<exists>es. log t = log s @ es \<and> N a es"
  by (auto simp: traced_def dest!: spec [of _ s])

lemma traced_stop: "traced N E m \<Longrightarrow> m s = (Inl e, t) \<Longrightarrow> \<exists>es. log t = log s @ es \<and> E e es"
  by (auto simp: traced_def dest!: spec [of _ s])

lemma traced_conseq:
  "traced N E m \<Longrightarrow> (\<And>a es. N a es \<Longrightarrow> N' a es) \<Longrightarrow> (\<And>e es. E e es \<Longrightarrow> E' e es) \<Longrightarrow> traced N' E' m"
  unfolding traced_def by (erule all_forward, erule ex_forward) (auto split: sum.splits)

lemma traced_bnd:
  assumes "traced N E m" and "\<And>a. traced (N' a) (E' a) (f a)"
    and "\<And>a b es es'. N a es \<Longrightarrow> N' a b es' \<Longrightarrow> N'' b (es @ es')"
    and "\<And>e es. E e es \<Longrightarrow> E'' e es"
    and "\<And>a e es es'. N a es \<Longrightarrow> E' a e es' \<Longrightarrow> E'' e (es @ es')"
  shows "traced N'' E'' (bnd m f)"
proof (rule tracedI)
  fix s
  show "\<exists>es. log (snd (bnd m f s)) = log s @ es \<and>
    (case fst (bnd m f s) of Inl e \<Rightarrow> E'' e es | Inr a \<Rightarrow> N'' a es)"
  proof (cases "m s")
    case (Pair r t)
    show ?thesis
    proof (cases r)
      case (Inl e)
      with traced_stop [OF assms(1), of s e t] Pair assms(4) show ?thesis
        by (auto simp: bnd_def)
    next
      case (Inr a)
      with traced_ok [OF assms(1), of s a t] Pair obtain es
        where es: "log t = log s @ es" "N a es" by auto
      obtain es' where "log (snd (f a t)) = log t @ es'"
        "case fst (f a t) of Inl e \<Rightarrow> E' a e es' | Inr b \<Rightarrow> N' a b es'"
        using assms(2) [of a] by (auto simp: traced_def)
      with es Pair Inr assms(3,5) show ?thesis
        by (intro exI [of _ "es @ es'"]) (auto simp: bnd_def split: sum.splits)
    qed
  qed
qed

lemma traced_sql:
  "(\<And>rc r. N (rc, r) [Call t_num c rc r]) \<Longrightarrow> traced N E (sql M t_num c)"
  by (rule tracedI) (auto simp: sql_def split: prod.splits)

text \<open>
  A class of traces that is closed under sequencing: \<open>good\<close> for what has returned, \<open>bad\<close>
  for what has stopped. That a function's trace is in the class follows from its calls.
\<close>

named_theorems traced_intros "closure of trace classes under the operations of the model"

locale trace_class =
  fixes good :: "event list \<Rightarrow> bool" and bad :: "stop \<Rightarrow> event list \<Rightarrow> bool"
  assumes good_Nil: "good []"
    and good_append: "good es \<Longrightarrow> good es' \<Longrightarrow> good (es @ es')"
    and bad_append: "good es \<Longrightarrow> bad e es' \<Longrightarrow> bad e (es @ es')"
begin

lemma ret_traced [traced_intros]: "traced (\<lambda>_. good) bad (ret a)"
  by (rule tracedI) (simp add: ret_eq good_Nil)

lemma gets_traced [traced_intros]: "traced (\<lambda>_. good) bad (gets f)"
  by (rule tracedI) (simp add: good_Nil)

lemma modify_traced [traced_intros]:
  "(\<And>s. log (f s) = log s) \<Longrightarrow> traced (\<lambda>_. good) bad (modify f)"
  by (rule tracedI) (simp add: good_Nil)

lemma halt_traced [traced_intros]: "bad e [] \<Longrightarrow> traced (\<lambda>_. good) bad (halt e)"
  by (rule tracedI) (simp add: halt_eq)

lemma rd_traced [traced_intros]: "bad OutOfBounds [] \<Longrightarrow> traced (\<lambda>_. good) bad (rd xs i)"
  by (simp add: rd_def halt_traced ret_traced)

lemma bnd_traced [traced_intros]:
  "traced (\<lambda>_. good) bad m \<Longrightarrow> (\<And>a. traced (\<lambda>_. good) bad (f a)) \<Longrightarrow>
   traced (\<lambda>_. good) bad (bnd m f)"
  by (rule traced_bnd [where N = "\<lambda>_. good" and E = bad and N' = "\<lambda>_ _. good" and E' = "\<lambda>_. bad"])
    (auto intro: good_append bad_append)

lemma thn_traced [traced_intros]:
  "traced (\<lambda>_. good) bad m \<Longrightarrow> traced (\<lambda>_. good) bad k \<Longrightarrow> traced (\<lambda>_. good) bad (thn m k)"
  by (simp add: thn_def bnd_traced)

lemma if_traced [traced_intros]:
  "(b \<Longrightarrow> traced (\<lambda>_. good) bad m) \<Longrightarrow> (\<not> b \<Longrightarrow> traced (\<lambda>_. good) bad k) \<Longrightarrow>
   traced (\<lambda>_. good) bad (if b then m else k)"
  by simp

lemma on_cond_traced [traced_intros]:
  "traced (\<lambda>_. good) bad m \<Longrightarrow> traced (\<lambda>_. good) bad (on_cond b m)"
  by (simp add: on_cond_def ret_traced)

lemma cfor_traced [traced_intros]:
  "(\<And>i. i \<in> set js \<Longrightarrow> traced (\<lambda>_. good) bad (body i)) \<Longrightarrow>
   traced (\<lambda>_. good) bad (cfor js body)"
  by (induction js) (simp_all add: ret_traced thn_traced)

lemma cfold_traced [traced_intros]:
  "(\<And>i a. i \<in> set js \<Longrightarrow> traced (\<lambda>_. good) bad (body i a)) \<Longrightarrow>
   traced (\<lambda>_. good) bad (cfold js body acc)"
  by (induction js arbitrary: acc) (simp_all add: ret_traced bnd_traced)

lemma set_proceed_traced [traced_intros]: "traced (\<lambda>_. good) bad (set_proceed n)"
  unfolding set_proceed_def by (rule modify_traced) simp

lemma clock_traced [traced_intros]: "traced (\<lambda>_. good) bad clock_gettime"
  by (rule tracedI) (simp add: clock_gettime_def good_Nil)

lemma gettimestamp_traced [traced_intros]:
  "bad Abort [] \<Longrightarrow> traced (\<lambda>_. good) bad gettimestamp"
  by (rule tracedI) (auto simp: gettimestamp_def good_Nil split: option.splits)

end

subsection \<open>Calls until the first one that fails\<close>

text \<open>
  What the statements of the program accept: a fetch may report truncation where the code
  has a case for it, and the end of the data where it reads to the end.
\<close>

definition truncation_allowed :: "nat list" where
  "truncation_allowed = [0, 1, 5, 15, 21, 22, 24, 30]"

definition read_to_end :: "nat list" where
  "read_to_end = [24, 33]"

fun accepts :: "call \<Rightarrow> int \<Rightarrow> bool" where
  "accepts (Fetch k) rc \<longleftrightarrow> rc = 0 \<or> rc = MYSQL_DATA_TRUNCATED \<and> k \<in> set truncation_allowed \<or>
     rc = MYSQL_NO_DATA \<and> k \<in> set read_to_end"
| "accepts (FreeResult k) rc \<longleftrightarrow> True"
| "accepts Rollback rc \<longleftrightarrow> False"
| "accepts (BindParam k ps) rc \<longleftrightarrow> rc = 0"
| "accepts (Execute k) rc \<longleftrightarrow> rc = 0"
| "accepts (StoreResult k) rc \<longleftrightarrow> rc = 0"
| "accepts (BindResult k cols) rc \<longleftrightarrow> rc = 0"
| "accepts Commit rc \<longleftrightarrow> rc = 0"
| "accepts Init rc \<longleftrightarrow> rc = 0"
| "accepts (Connect host usr pass db port socket) rc \<longleftrightarrow> rc = 0"
| "accepts Autocommit rc \<longleftrightarrow> rc = 0"
| "accepts (Query q) rc \<longleftrightarrow> rc = 0"
| "accepts (StmtInit k) rc \<longleftrightarrow> rc = 0"
| "accepts (Prepare k str n) rc \<longleftrightarrow> rc = 0"
| "accepts (StmtClose k) rc \<longleftrightarrow> rc = 0"
| "accepts Close rc \<longleftrightarrow> rc = 0"

fun clean :: "int \<Rightarrow> event \<Rightarrow> bool" where
  "clean t_num (Call t c rc r) \<longleftrightarrow> t = t_num \<and> accepts c rc"
| "clean t_num (Trx t a b) \<longleftrightarrow> True"
| "clean t_num ev \<longleftrightarrow> False"

definition clean_run :: "int \<Rightarrow> event list \<Rightarrow> bool" where
  "clean_run t_num es \<longleftrightarrow> (\<forall>ev \<in> set es. clean t_num ev)"

definition is_free :: "int \<Rightarrow> event \<Rightarrow> bool" where
  "is_free t_num ev \<longleftrightarrow> (\<exists>k rc r. ev = Call t_num (FreeResult k) rc r)"

text \<open>The trace ends with the first call that is not accepted, and results freed after it.\<close>

definition stops_at :: "int \<Rightarrow> call \<Rightarrow> int \<Rightarrow> event list \<Rightarrow> bool" where
  "stops_at t_num c rc es \<longleftrightarrow> \<not> accepts c rc \<and> (\<exists>pre r post. clean_run t_num pre \<and>
     es = pre @ Call t_num c rc r # post \<and> (\<forall>ev \<in> set post. is_free t_num ev))"

definition first_failure :: "label set \<Rightarrow> int \<Rightarrow> stop \<Rightarrow> event list \<Rightarrow> bool" where
  "first_failure L t_num e es \<longleftrightarrow> (case e of
       Goto l \<Rightarrow> l \<in> L \<and> (\<exists>c rc. stops_at t_num c rc es \<and>
         (l = Invaliditem \<longleftrightarrow> c = Fetch 5 \<and> rc = MYSQL_NO_DATA))
     | _ \<Rightarrow> clean_run t_num es)"

lemma clean_run_simps [simp]:
  "clean_run t_num []"
  "clean_run t_num (ev # es) \<longleftrightarrow> clean t_num ev \<and> clean_run t_num es"
  "clean_run t_num (es @ es') \<longleftrightarrow> clean_run t_num es \<and> clean_run t_num es'"
  by (auto simp: clean_run_def)

lemma stops_at_append: "clean_run t_num es \<Longrightarrow> stops_at t_num c rc es' \<Longrightarrow> stops_at t_num c rc (es @ es')"
  unfolding stops_at_def by (metis append.assoc clean_run_simps(3))

lemma stops_at_freed:
  assumes "\<not> accepts c rc" and "\<forall>ev \<in> set post. is_free t_num ev"
  shows "stops_at t_num c rc (Call t_num c rc r # post)"
  unfolding stops_at_def using assms by (metis append_Nil clean_run_simps(1))

lemma is_free_simps [simp]: "is_free t_num (Call t_num (FreeResult k) rc r)"
  by (simp add: is_free_def)

interpretation disc: trace_class "clean_run t_num" "first_failure L t_num" for L t_num
proof
  fix es es' and e
  assume "clean_run t_num es" "first_failure L t_num e es'"
  then show "first_failure L t_num e (es @ es')"
    by (auto simp: first_failure_def split: stop.splits intro: stops_at_append)
qed simp_all

lemma first_failureI:
  "\<not> accepts c rc \<Longrightarrow> (l = Invaliditem \<longleftrightarrow> c = Fetch 5 \<and> rc = MYSQL_NO_DATA) \<Longrightarrow>
   l \<in> L \<Longrightarrow> \<forall>ev \<in> set post. is_free t_num ev \<Longrightarrow>
   first_failure L t_num (Goto l) (Call t_num c rc r # post)"
  unfolding first_failure_def using stops_at_freed by fastforce

lemma checked_run:
  assumes "M t_num c (srv s) = (rc, r, w)"
  shows "checked M err t_num c s = (if rc \<noteq> 0 then Inl (Goto err) else Inr (),
    s\<lparr>srv := w, log := log s @ [Call t_num c rc r]\<rparr>)"
  using assms by (simp add: checked_def sql_def bnd_def ret_eq halt_eq)

lemma fetch_row_run:
  assumes "M t_num (Fetch k) (srv s) = (rc, r, w)" and "M t_num (FreeResult k) w = (rc', r', w')"
  shows "fetch_row M lbl t_num k oks s =
    (if rc \<in> set oks then (Inr r, s\<lparr>srv := w, log := log s @ [Call t_num (Fetch k) rc r]\<rparr>)
     else (Inl (Goto (lbl rc)), s\<lparr>srv := w', log := log s @
       [Call t_num (Fetch k) rc r, Call t_num (FreeResult k) rc' r']\<rparr>))"
  using assms by (simp add: fetch_row_def free_result_def sql_def bnd_def thn_def ret_eq halt_eq)

lemma checked_disc [traced_intros]:
  assumes "\<And>rc. accepts c rc \<longleftrightarrow> rc = 0" and "err \<noteq> Invaliditem" and "err \<in> L"
  shows "traced (\<lambda>_. clean_run t_num) (first_failure L t_num) (checked M err t_num c)"
proof (rule tracedI)
  fix s
  obtain rc r w where run: "M t_num c (srv s) = (rc, r, w)" by (metis prod.collapse)
  have "c \<noteq> Fetch 5"
    using assms(1) [of MYSQL_DATA_TRUNCATED]
    by (auto simp: truncation_allowed_def MYSQL_DATA_TRUNCATED_def)
  moreover have "clean_run t_num [Call t_num c 0 r]" using assms(1) [of 0] by simp
  ultimately show "\<exists>es. log (snd (checked M err t_num c s)) = log s @ es \<and>
      (case fst (checked M err t_num c s) of
        Inl e \<Rightarrow> first_failure L t_num e es | Inr a \<Rightarrow> clean_run t_num es)"
    unfolding checked_run [of M, OF run] using assms(2,3) assms(1) [of rc]
    by (intro exI [of _ "[Call t_num c rc r]"]) (simp add: first_failureI)
qed

lemma free_result_disc [traced_intros]:
  "traced (\<lambda>_. clean_run t_num) (first_failure L t_num) (free_result M t_num k)"
  by (rule tracedI) (auto simp: free_result_def sql_def bnd_def ret_eq split: prod.splits)

lemma sql_exec_disc [traced_intros]:
  "err \<noteq> Invaliditem \<Longrightarrow> err \<in> L \<Longrightarrow>
   traced (\<lambda>_. clean_run t_num) (first_failure L t_num) (sql_exec M err t_num k ps)"
  unfolding sql_exec_def by (intro traced_intros) auto

lemma open_result_disc [traced_intros]:
  "err \<noteq> Invaliditem \<Longrightarrow> err \<in> L \<Longrightarrow>
   traced (\<lambda>_. clean_run t_num) (first_failure L t_num) (open_result M err t_num k cols)"
  unfolding open_result_def by (intro traced_intros) auto

lemma fetch_row_disc [traced_intros]:
  assumes "\<And>rc. rc \<in> set oks \<longleftrightarrow> accepts (Fetch k) rc"
    and "\<And>rc. rc \<notin> set oks \<Longrightarrow> lbl rc = Invaliditem \<longleftrightarrow> k = 5 \<and> rc = MYSQL_NO_DATA"
    and "\<And>rc. rc \<notin> set oks \<Longrightarrow> lbl rc \<in> L"
  shows "traced (\<lambda>_. clean_run t_num) (first_failure L t_num) (fetch_row M lbl t_num k oks)"
proof (rule tracedI)
  fix s
  obtain rc r w where run: "M t_num (Fetch k) (srv s) = (rc, r, w)" by (metis prod.collapse)
  obtain rc' r' w' where run': "M t_num (FreeResult k) w = (rc', r', w')" by (metis prod.collapse)
  show "\<exists>es. log (snd (fetch_row M lbl t_num k oks s)) = log s @ es \<and>
      (case fst (fetch_row M lbl t_num k oks s) of
        Inl e \<Rightarrow> first_failure L t_num e es | Inr a \<Rightarrow> clean_run t_num es)"
  proof (cases "rc \<in> set oks")
    case True
    then show ?thesis
      unfolding fetch_row_run [of M, OF run run'] using assms(1) [of rc]
      by (intro exI [of _ "[Call t_num (Fetch k) rc r]"]) (simp del: accepts.simps)
  next
    case False
    then have "first_failure L t_num (Goto (lbl rc))
        [Call t_num (Fetch k) rc r, Call t_num (FreeResult k) rc' r']"
      using assms(1) [of rc] assms(2,3) [of rc] by (intro first_failureI) simp_all
    with False show ?thesis unfolding fetch_row_run [of M, OF run run'] by simp
  qed
qed

definition fetch_oks :: "nat \<Rightarrow> int list" where
  "fetch_oks k = (if k \<in> set truncation_allowed then [0, MYSQL_DATA_TRUNCATED] else [0])"

lemma fetch_oks: "k \<notin> set read_to_end \<Longrightarrow> rc \<in> set (fetch_oks k) \<longleftrightarrow> accepts (Fetch k) rc"
  by (auto simp: fetch_oks_def)

lemma query1_disc [traced_intros]:
  "oks = fetch_oks k \<Longrightarrow> k \<notin> set read_to_end \<Longrightarrow> k \<noteq> 5 \<Longrightarrow> err \<noteq> Invaliditem \<Longrightarrow> err \<in> L \<Longrightarrow>
   traced (\<lambda>_. clean_run t_num) (first_failure L t_num) (query1 M err t_num k ps cols oks)"
  unfolding query1_def by (intro traced_intros) (simp_all add: fetch_oks del: accepts.simps)

subsection \<open>The transaction stays open\<close>

definition in_txn :: "event list \<Rightarrow> bool" where
  "in_txn es \<longleftrightarrow> (\<forall>t rc r. Call t Commit rc r \<notin> set es \<and> Call t Rollback rc r \<notin> set es)"

interpretation itx: trace_class in_txn "\<lambda>_. in_txn"
  by unfold_locales (auto simp: in_txn_def)

lemma sql_in_txn: "c \<noteq> Commit \<Longrightarrow> c \<noteq> Rollback \<Longrightarrow> traced (\<lambda>_. in_txn) (\<lambda>_. in_txn) (sql M t_num c)"
  by (rule traced_sql) (simp add: in_txn_def)

lemma checked_in_txn [traced_intros]:
  "c \<noteq> Commit \<Longrightarrow> c \<noteq> Rollback \<Longrightarrow> traced (\<lambda>_. in_txn) (\<lambda>_. in_txn) (checked M err t_num c)"
  unfolding checked_def
  by (intro itx.bnd_traced sql_in_txn) (auto intro!: traced_intros itx.good_Nil split: prod.splits)

lemma free_result_in_txn [traced_intros]:
  "traced (\<lambda>_. in_txn) (\<lambda>_. in_txn) (free_result M t_num k)"
  unfolding free_result_def by (intro itx.bnd_traced sql_in_txn traced_intros) auto

lemma sql_exec_in_txn [traced_intros]:
  "traced (\<lambda>_. in_txn) (\<lambda>_. in_txn) (sql_exec M err t_num k ps)"
  unfolding sql_exec_def by (intro traced_intros) auto

lemma open_result_in_txn [traced_intros]:
  "traced (\<lambda>_. in_txn) (\<lambda>_. in_txn) (open_result M err t_num k cols)"
  unfolding open_result_def by (intro traced_intros) auto

lemma fetch_row_in_txn [traced_intros]:
  "traced (\<lambda>_. in_txn) (\<lambda>_. in_txn) (fetch_row M lbl t_num k oks)"
  unfolding fetch_row_def
  by (intro itx.bnd_traced sql_in_txn)
    (auto intro!: traced_intros itx.good_Nil split: prod.splits)

lemma query1_in_txn [traced_intros]:
  "traced (\<lambda>_. in_txn) (\<lambda>_. in_txn) (query1 M err t_num k ps cols oks)"
  unfolding query1_def by (intro traced_intros)

subsection \<open>Results are freed\<close>

text \<open>
  The statements whose result is stored and not yet freed, after the events of a trace.
  \<open>leak\<close>: a \<open>mysql_stmt_bind_result\<close> has failed, after which no transaction frees the
  result it had stored.
\<close>

fun open_step :: "nat set \<Rightarrow> event \<Rightarrow> nat set" where
  "open_step S (Call t (StoreResult k) rc r) = (if rc = 0 then insert k S else S)"
| "open_step S (Call t (FreeResult k) rc r) = S - {k}"
| "open_step S ev = S"

definition opens :: "nat set \<Rightarrow> event list \<Rightarrow> nat set" where
  "opens S es = foldl open_step S es"

fun bind_failed :: "event \<Rightarrow> bool" where
  "bind_failed (Call t (BindResult k cols) rc r) \<longleftrightarrow> rc \<noteq> 0"
| "bind_failed ev \<longleftrightarrow> False"

definition leak :: "event list \<Rightarrow> bool" where
  "leak es \<longleftrightarrow> (\<exists>ev \<in> set es. bind_failed ev)"

definition quiet :: "event list \<Rightarrow> bool" where
  "quiet es \<longleftrightarrow> (\<forall>S. opens S es \<subseteq> S)"

definition shut :: "nat \<Rightarrow> event list \<Rightarrow> bool" where
  "shut k es \<longleftrightarrow> (\<forall>S. opens S es \<subseteq> S - {k})"

definition freed :: "stop \<Rightarrow> event list \<Rightarrow> bool" where
  "freed e es \<longleftrightarrow> e = OutOfFuel \<or> leak es \<or>
     (\<forall>S. opens S es \<subseteq> (if e = Goto Sqlerr2 then insert 33 S else S))"

lemma opens_simps [simp]:
  "opens S [] = S"
  "opens S (ev # es) = opens (open_step S ev) es"
  "opens S (es @ es') = opens (opens S es) es'"
  by (simp_all add: opens_def)

lemma leak_simps [simp]:
  "\<not> leak []"
  "leak (ev # es) \<longleftrightarrow> bind_failed ev \<or> leak es"
  "leak (es @ es') \<longleftrightarrow> leak es \<or> leak es'"
  by (auto simp: leak_def)

lemma open_step_mono: "S \<subseteq> T \<Longrightarrow> open_step S ev \<subseteq> open_step T ev"
  by (cases "(S, ev)" rule: open_step.cases) auto

lemma opens_mono: "S \<subseteq> T \<Longrightarrow> opens S es \<subseteq> opens T es"
  by (induction es arbitrary: S T) (simp_all add: open_step_mono)

lemma quiet_simps [simp]: "quiet []"
  by (simp add: quiet_def)

lemma quiet_append: "quiet es \<Longrightarrow> quiet es' \<Longrightarrow> quiet (es @ es')"
  by (auto simp: quiet_def)

lemma quiet_shut: "quiet es \<Longrightarrow> shut k es' \<Longrightarrow> shut k (es @ es')"
  unfolding quiet_def shut_def by (metis opens_mono opens_simps(3) order_trans)

lemma shut_quiet: "shut k es \<Longrightarrow> quiet es"
  by (auto simp: shut_def quiet_def)

lemma quiet_freed: "quiet es \<Longrightarrow> freed e es"
  by (auto simp: quiet_def freed_def)

interpretation frd: trace_class quiet freed
proof
  fix es es' and e
  assume q: "quiet es" and f: "freed e es'"
  have "opens S (es @ es') \<subseteq> opens S es'" for S
    using q opens_mono by (simp add: quiet_def)
  with f show "freed e (es @ es')" unfolding freed_def by fastforce
qed (simp_all add: quiet_append)

text \<open>While the result of statement \<open>k\<close> is open: a failure closes it.\<close>

definition cursor_freed :: "nat \<Rightarrow> stop \<Rightarrow> event list \<Rightarrow> bool" where
  "cursor_freed k e es \<longleftrightarrow> e = OutOfFuel \<or> leak es \<or> (if e = Goto Sqlerr2 then k = 33 \<and> quiet es else shut k es)"

interpretation cur: trace_class quiet "cursor_freed k" for k
  by unfold_locales (auto simp: cursor_freed_def quiet_append intro: quiet_shut)

definition just_freed :: "stop \<Rightarrow> event list \<Rightarrow> bool" where
  "just_freed e es \<longleftrightarrow> leak es \<or> quiet es"

interpretation jfr: trace_class quiet just_freed
  by unfold_locales (auto simp: just_freed_def quiet_append)

lemma just_freed_freed: "traced N just_freed m \<Longrightarrow> traced N freed m"
  by (erule traced_conseq) (auto simp: just_freed_def freed_def quiet_def)

lemma checked_quiet:
  "\<forall>k. c \<noteq> StoreResult k \<and> c \<noteq> FreeResult k \<Longrightarrow>
   traced (\<lambda>_. quiet) (\<lambda>e es. e = Goto err \<and> quiet es) (checked M err t_num c)"
  by (rule tracedI, cases c)
    (auto simp: checked_def sql_def bnd_def ret_eq halt_eq quiet_def split: prod.splits)

lemma free_result_shut: "traced (\<lambda>_. shut k) (\<lambda>_ _. False) (free_result M t_num k)"
  by (rule tracedI)
    (auto simp: free_result_def sql_def bnd_def ret_eq shut_def split: prod.splits)

lemma sql_exec_quiet:
  "traced (\<lambda>_. quiet) (\<lambda>e es. e = Goto err \<and> quiet es) (sql_exec M err t_num k ps)"
  unfolding sql_exec_def thn_def
  by (rule traced_bnd [OF checked_quiet checked_quiet]) (auto intro: quiet_append)

lemma open_result_opens:
  "traced (\<lambda>_ es. \<forall>S. opens S es \<subseteq> insert k S) (\<lambda>e es. e = Goto err \<and> (leak es \<or> quiet es))
     (open_result M err t_num k cols)"
  by (rule tracedI)
    (auto simp: open_result_def checked_def thn_def sql_def bnd_def ret_eq halt_eq quiet_def
      split: prod.splits)

lemma fetch_row_quiet:
  "traced (\<lambda>_. quiet) (\<lambda>e es. (\<exists>rc. e = Goto (lbl rc)) \<and> shut k es)
     (fetch_row M lbl t_num k oks)"
proof (rule tracedI)
  fix s
  obtain rc r w where run: "M t_num (Fetch k) (srv s) = (rc, r, w)" by (metis prod.collapse)
  obtain rc' r' w' where run': "M t_num (FreeResult k) w = (rc', r', w')" by (metis prod.collapse)
  show "\<exists>es. log (snd (fetch_row M lbl t_num k oks s)) = log s @ es \<and>
      (case fst (fetch_row M lbl t_num k oks s) of
        Inl e \<Rightarrow> (\<exists>rc. e = Goto (lbl rc)) \<and> shut k es | Inr a \<Rightarrow> quiet es)"
    unfolding fetch_row_run [of M, OF run run'] by (auto simp: quiet_def shut_def)
qed

text \<open>A result that is stored, read and freed.\<close>

lemma opened_then:
  assumes "traced (\<lambda>_. shut k) E m" and "\<And>e es. E e es \<Longrightarrow> cursor_freed k e es"
  shows "traced (\<lambda>_. quiet) freed (thn (open_result M Sqlerr t_num k cols) m)"
  unfolding thn_def
proof (rule traced_bnd [OF open_result_opens assms(1)])
  have *: "opens (opens S es) es' \<subseteq> S"
    if "\<forall>S. opens S es \<subseteq> insert k S" "shut k es'" for S es es'
    using that opens_mono [of "opens S es" "insert k S" es'] by (auto simp: shut_def)
  show "quiet (es @ es')" if "\<forall>S. opens S es \<subseteq> insert k S" "shut k es'" for es es'
    using * that by (simp add: quiet_def)
  show "freed e es" if "e = Goto Sqlerr \<and> (leak es \<or> quiet es)" for e es
    using that by (auto simp: freed_def quiet_def)
  show "freed e (es @ es')" if "\<forall>S. opens S es \<subseteq> insert k S" "E e es'" for e es es'
  proof (cases "e = Goto Sqlerr2")
    case True
    then show ?thesis
      using that(1) assms(2) [OF that(2)] that(2)
      by (auto simp: freed_def cursor_freed_def quiet_def)
  next
    case False
    then have "leak es' \<or> shut k es' \<or> e = OutOfFuel"
      using assms(2) [OF that(2)] by (auto simp: cursor_freed_def)
    with * that(1) False show ?thesis by (auto simp: freed_def)
  qed
qed

lemma free_result_then_ret:
  "traced (\<lambda>_. shut k) (\<lambda>_ _. False) (thn (free_result M t_num k) (ret r))"
  unfolding thn_def
  by (rule traced_bnd [OF free_result_shut, where N' = "\<lambda>_ _ es. es = []" and E' = "\<lambda>_ _ _. False"])
    (auto simp: traced_def ret_eq)

lemma query1_just_freed:
  "traced (\<lambda>_. quiet) (\<lambda>e es. e = Goto err \<and> just_freed e es) (query1 M err t_num k ps cols oks)"
proof -
  have read: "traced (\<lambda>_. shut k) (\<lambda>e es. e = Goto err \<and> shut k es)
      (bnd (fetch_row M (\<lambda>_. err) t_num k oks) (\<lambda>r. thn (free_result M t_num k) (ret r)))"
    by (rule traced_bnd [OF fetch_row_quiet free_result_then_ret]) (auto intro: quiet_shut)
  have *: "opens (opens S es) es' \<subseteq> S"
    if "\<forall>S. opens S es \<subseteq> insert k S" "shut k es'" for S es es'
    using that opens_mono [of "opens S es" "insert k S" es'] by (auto simp: shut_def)
  have "traced (\<lambda>_. quiet) (\<lambda>e es. e = Goto err \<and> just_freed e es)
      (thn (open_result M err t_num k cols)
        (bnd (fetch_row M (\<lambda>_. err) t_num k oks) (\<lambda>r. thn (free_result M t_num k) (ret r))))"
    unfolding thn_def [of "open_result M err t_num k cols"]
    by (rule traced_bnd [OF open_result_opens read]) (use * in \<open>auto simp: just_freed_def quiet_def\<close>)
  then show ?thesis
    unfolding query1_def thn_def [of "sql_exec M err t_num k ps"]
    by (rule traced_bnd [OF sql_exec_quiet]) (auto simp: just_freed_def intro: quiet_append)
qed

lemma query1_freed [traced_intros]:
  "traced (\<lambda>_. quiet) freed (query1 M err t_num k ps cols oks)"
  by (rule traced_conseq [OF query1_just_freed]) (auto simp: just_freed_def freed_def quiet_def)

lemma sql_exec_freed [traced_intros]: "traced (\<lambda>_. quiet) freed (sql_exec M err t_num k ps)"
  by (rule traced_conseq [OF sql_exec_quiet]) (auto simp: quiet_freed)

lemma commit_freed [traced_intros]: "traced (\<lambda>_. quiet) freed (checked M err t_num Commit)"
  by (rule traced_conseq [OF checked_quiet]) (auto simp: quiet_freed)

lemma fetch_row_cursor [traced_intros]:
  "(\<And>rc. lbl rc \<noteq> Sqlerr2) \<Longrightarrow>
   traced (\<lambda>_. quiet) (cursor_freed k) (fetch_row M lbl t_num k oks)"
  by (rule traced_conseq [OF fetch_row_quiet]) (auto simp: cursor_freed_def)

subsection \<open>The statements of a trace\<close>

text \<open>
  What a trace makes the server do: the statements with their parameters in the order of
  their execution, and the rows fetched. \<open>did s t sts rows\<close>: between \<open>s\<close> and \<open>t\<close> the
  statements \<open>sts\<close> were bound and executed, each right after its parameters were bound,
  and \<open>rows\<close> were fetched.
\<close>

fun cmd_of :: "event \<Rightarrow> call list" where
  "cmd_of (Call t (BindParam k ps) rc r) = [BindParam k ps]"
| "cmd_of (Call t (Execute k) rc r) = [Execute k]"
| "cmd_of ev = []"

definition cmds :: "event list \<Rightarrow> call list" where
  "cmds es = concat (map cmd_of es)"

definition run_of :: "(nat \<times> param list) list \<Rightarrow> call list" where
  "run_of sts = concat (map (\<lambda>(k, ps). [BindParam k ps, Execute k]) sts)"

fun row_of :: "event \<Rightarrow> row list" where
  "row_of (Call t (Fetch k) rc r) = (if rc = 0 \<or> rc = MYSQL_DATA_TRUNCATED then [r] else [])"
| "row_of ev = []"

definition rows_of :: "event list \<Rightarrow> row list" where
  "rows_of es = concat (map row_of es)"

definition did :: "('s, 'z) db_scheme \<Rightarrow> ('s, 'z) db_scheme \<Rightarrow> (nat \<times> param list) list \<Rightarrow>
    row list \<Rightarrow> bool" where
  "did s t sts rows \<longleftrightarrow> (\<exists>es. log t = log s @ es \<and> cmds es = run_of sts \<and> rows_of es = rows)"

lemma cmds_simps [simp]:
  "cmds [] = []" "cmds (ev # es) = cmd_of ev @ cmds es" "cmds (es @ es') = cmds es @ cmds es'"
  "rows_of [] = []" "rows_of (ev # es) = row_of ev @ rows_of es"
  "rows_of (es @ es') = rows_of es @ rows_of es'"
  "run_of [] = []" "run_of (st # sts) = BindParam (fst st) (snd st) # Execute (fst st) # run_of sts"
  "run_of (sts @ sts') = run_of sts @ run_of sts'"
  by (simp_all add: cmds_def rows_of_def run_of_def case_prod_beta)

lemma did_same: "log t = log s \<Longrightarrow> did s t [] []"
  by (simp add: did_def)

lemma did_trans:
  "did s t sts rows \<Longrightarrow> did t u sts' rows' \<Longrightarrow> did s u (sts @ sts') (rows @ rows')"
  unfolding did_def by (metis append.assoc cmds_simps(3,6,9))

lemma checked_ok:
  "checked M err t_num c s = (Inr u, t) \<Longrightarrow> \<exists>r. log t = log s @ [Call t_num c 0 r]"
  by (auto simp: checked_def sql_def bnd_def ret_eq halt_eq split: prod.splits if_splits)

lemma sql_exec_did: "sql_exec M err t_num k ps s = (Inr u, t) \<Longrightarrow> did s t [(k, ps)] []"
  by (auto simp: sql_exec_def thn_ok did_def dest!: checked_ok)

lemma open_result_did: "open_result M err t_num k cols s = (Inr u, t) \<Longrightarrow> did s t [] []"
  by (auto simp: open_result_def thn_ok did_def dest!: checked_ok)

lemma free_result_did: "free_result M t_num k s = (Inr u, t) \<Longrightarrow> did s t [] []"
  by (auto simp: free_result_def sql_def bnd_def ret_eq did_def split: prod.splits)

lemma commit_did: "checked M err t_num Commit s = (Inr u, t) \<Longrightarrow> did s t [] []"
  by (auto simp: did_def dest!: checked_ok)

lemma fetch_row_did:
  assumes "fetch_row M lbl t_num k oks s = (Inr r, t)" and "set oks \<subseteq> {0, MYSQL_DATA_TRUNCATED}"
  shows "did s t [] [r]"
proof -
  obtain rc r0 w where run: "M t_num (Fetch k) (srv s) = (rc, r0, w)" by (metis prod.collapse)
  obtain rc' r' w' where run': "M t_num (FreeResult k) w = (rc', r', w')" by (metis prod.collapse)
  from assms show ?thesis
    unfolding fetch_row_run [of M, OF run run'] by (auto simp: did_def split: if_splits)
qed

lemma query1_did:
  assumes "query1 M err t_num k ps cols oks s = (Inr r, t)" and "set oks \<subseteq> {0, MYSQL_DATA_TRUNCATED}"
  shows "did s t [(k, ps)] [r]"
proof -
  from assms(1) obtain u1 s1 u2 s2 s3 u3 where
    1: "sql_exec M err t_num k ps s = (Inr u1, s1)" and
    2: "open_result M err t_num k cols s1 = (Inr u2, s2)" and
    3: "fetch_row M (\<lambda>_. err) t_num k oks s2 = (Inr r, s3)" and
    4: "free_result M t_num k s3 = (Inr u3, t)"
    by (auto simp: query1_def thn_ok bnd_ok)
  from did_trans [OF did_trans [OF did_trans [OF sql_exec_did [OF 1] open_result_did [OF 2]]
      fetch_row_did [OF 3 assms(2)]] free_result_did [OF 4]]
  show ?thesis by simp
qed

lemma set_proceed_did: "set_proceed n s = (Inr u, t) \<Longrightarrow> did s t [] []"
  by (auto simp: set_proceed_def did_def)

lemma clock_did: "clock_gettime s = (Inr u, t) \<Longrightarrow> did s t [] []"
  by (auto simp: clock_gettime_def did_def)

lemma gettimestamp_did: "gettimestamp s = (Inr d, t) \<Longrightarrow> did s t [] []"
  by (auto simp: gettimestamp_def did_def split: option.splits)

lemmas did_rules = sql_exec_did open_result_did free_result_did commit_did set_proceed_did
  clock_did gettimestamp_did

section \<open>The contract of a transaction function\<close>

definition uncommitted :: "event list \<Rightarrow> bool" where
  "uncommitted es \<longleftrightarrow> (\<forall>t r. Call t Commit 0 r \<notin> set es)"

text \<open>Every call was accepted, and one commit at the end ends the transaction.\<close>

definition committed :: "int \<Rightarrow> event list \<Rightarrow> bool" where
  "committed t_num es \<longleftrightarrow> (\<exists>pre r post. es = pre @ Call t_num Commit 0 r # post \<and>
     clean_run t_num pre \<and> in_txn pre \<and> (\<forall>ev \<in> set post. \<exists>a b. ev = Trx t_num a b))"

text \<open>A call was not accepted; nothing follows it but the report and the rollback.\<close>

definition rolled_back :: "string \<Rightarrow> int \<Rightarrow> event list \<Rightarrow> bool" where
  "rolled_back fn t_num es \<longleftrightarrow> (\<exists>c rc body p rc' r. stops_at t_num c rc body \<and>
     es = body @ [Diag fn [t_num, p], MysqlError t_num, Call t_num Rollback rc' r])"

definition no_escape :: "stop \<Rightarrow> event list \<Rightarrow> bool" where
  "no_escape e es \<longleftrightarrow> (\<forall>l. e \<noteq> Goto l)"

text \<open>
  What the driver relies on: a transaction function returns 1 after \<open>finished\<close>, which is
  its own notion of a completed transaction, or 0 after \<open>given_up\<close>; no jump leaves it.
\<close>

locale transaction =
  fixes txn :: "(('s, 'z) db_scheme, int) cm"
    and finished :: "event list \<Rightarrow> bool"
    and given_up :: "event list \<Rightarrow> bool"
  assumes outcome: "traced (\<lambda>v es. v = 1 \<and> finished es \<or> v = 0 \<and> given_up es) no_escape txn"
begin

lemma returns_flag: "txn s = (Inr v, t) \<Longrightarrow> v = 0 \<or> v = 1"
  using traced_ok [OF outcome] by blast

lemma not_goto: "txn s \<noteq> (Inl (Goto l), t)"
  using traced_stop [OF outcome, of s "Goto l" t] by (auto simp: no_escape_def)

lemma returns_1: "txn s = (Inr 1, t) \<Longrightarrow> \<exists>es. log t = log s @ es \<and> finished es"
  using traced_ok [OF outcome] by fastforce

lemma returns_0: "txn s = (Inr 0, t) \<Longrightarrow> \<exists>es. log t = log s @ es \<and> given_up es"
  using traced_ok [OF outcome] by fastforce

end

lemma traced_conj:
  assumes "traced N E m" and "traced N' E' m"
  shows "traced (\<lambda>a es. N a es \<and> N' a es) (\<lambda>e es. E e es \<and> E' e es) m"
proof (rule tracedI)
  fix s
  from assms obtain es es' where
    "log (snd (m s)) = log s @ es" "case fst (m s) of Inl e \<Rightarrow> E e es | Inr a \<Rightarrow> N a es"
    "log (snd (m s)) = log s @ es'" "case fst (m s) of Inl e \<Rightarrow> E' e es' | Inr a \<Rightarrow> N' a es'"
    unfolding traced_def by meson
  then show "\<exists>es. log (snd (m s)) = log s @ es \<and> (case fst (m s) of
      Inl e \<Rightarrow> E e es \<and> E' e es | Inr a \<Rightarrow> N a es \<and> N' a es)"
    by (intro exI [of _ es]) (auto split: sum.splits)
qed

lemma traced_handle:
  assumes "traced N E m" and "\<And>e. traced (N' e) (E' e) (h e)"
    and "\<And>a es. N a es \<Longrightarrow> N'' a es"
    and "\<And>e a es es'. E e es \<Longrightarrow> N' e a es' \<Longrightarrow> N'' a (es @ es')"
    and "\<And>e e' es es'. E e es \<Longrightarrow> E' e e' es' \<Longrightarrow> E'' e' (es @ es')"
  shows "traced N'' E'' (handle m h)"
proof (rule tracedI)
  fix s
  obtain r t where r: "m s = (r, t)" by (cases "m s")
  show "\<exists>es. log (snd (handle m h s)) = log s @ es \<and>
    (case fst (handle m h s) of Inl e \<Rightarrow> E'' e es | Inr a \<Rightarrow> N'' a es)"
  proof (cases r)
    case (Inr a)
    with traced_ok [OF assms(1), of s a t] r assms(3) show ?thesis by (auto simp: handle_def)
  next
    case (Inl e)
    with traced_stop [OF assms(1), of s e t] r obtain es
      where es: "log t = log s @ es" "E e es" by auto
    obtain es' where "log (snd (h e t)) = log t @ es'"
      "case fst (h e t) of Inl e' \<Rightarrow> E' e e' es' | Inr b \<Rightarrow> N' e b es'"
      using assms(2) [of e] by (auto simp: traced_def)
    with es r Inl assms(4,5) show ?thesis
      by (intro exI [of _ "es @ es'"]) (auto simp: handle_def split: sum.splits)
  qed
qed

lemma sqlerr_traced:
  "traced (\<lambda>v es. v = 0 \<and> (\<exists>p rc r. es =
      [Diag fn [t_num, p], MysqlError t_num, Call t_num Rollback rc r])) (\<lambda>_ _. False)
    (sqlerr M fn t_num)"
  by (rule tracedI)
    (auto simp: sqlerr_def error_def emit_def sql_def bnd_def thn_def ret_eq split: prod.splits)

lemma halt_escape: "traced (\<lambda>_ _. False) (\<lambda>e' es. e' = e \<and> es = []) (halt e)"
  by (rule tracedI) (simp add: halt_eq)

lemma in_txn_uncommitted: "in_txn es \<Longrightarrow> uncommitted es"
  by (auto simp: in_txn_def uncommitted_def)

lemma uncommitted_simps [simp]:
  "uncommitted []"
  "uncommitted (es @ es') \<longleftrightarrow> uncommitted es \<and> uncommitted es'"
  "uncommitted (ev # es) \<longleftrightarrow> (\<forall>t r. ev \<noteq> Call t Commit 0 r) \<and> uncommitted es"
  by (auto simp: uncommitted_def)

definition given_up :: "string \<Rightarrow> int \<Rightarrow> event list \<Rightarrow> bool" where
  "given_up fn t_num es \<longleftrightarrow> rolled_back fn t_num es \<and> uncommitted es"

text \<open>
  The frame of the transaction functions: the body with the block at \<open>sqlerr\<close>. \<open>R\<close> is what
  the body had completed before the part that failed.
\<close>

lemma sqlerr_frame_after:
  assumes "traced (\<lambda>v es. v = 1 \<and> fin es) (\<lambda>e es. \<exists>pre fs. es = pre @ fs \<and> R pre \<and>
      first_failure {Sqlerr} t_num e fs \<and> uncommitted fs) body"
  shows "traced (\<lambda>v es. v = 1 \<and> fin es \<or> v = 0 \<and> (\<exists>pre fs. es = pre @ fs \<and> R pre \<and>
      given_up fn t_num fs)) no_escape
    (handle body (\<lambda>e. if e = Goto Sqlerr then sqlerr M fn t_num else halt e))"
proof (rule traced_handle [OF assms])
  show "traced (\<lambda>v es. e = Goto Sqlerr \<and> v = 0 \<and> (\<exists>p rc r. es =
      [Diag fn [t_num, p], MysqlError t_num, Call t_num Rollback rc r]))
      (\<lambda>e' es. e \<noteq> Goto Sqlerr \<and> e' = e)
      (if e = Goto Sqlerr then sqlerr M fn t_num else halt e)" for e
    by (auto intro: traced_conseq [OF sqlerr_traced] traced_conseq [OF halt_escape])
  fix e es and es' and v :: int
  assume f: "\<exists>pre fs. es = pre @ fs \<and> R pre \<and> first_failure {Sqlerr} t_num e fs \<and> uncommitted fs"
    and "e = Goto Sqlerr \<and> v = 0 \<and> (\<exists>p rc r. es' =
      [Diag fn [t_num, p], MysqlError t_num, Call t_num Rollback rc r])"
  then obtain p rc r where e: "e = Goto Sqlerr" "v = 0" and
    es': "es' = [Diag fn [t_num, p], MysqlError t_num, Call t_num Rollback rc r]" by blast
  from f obtain pre fs where fs: "es = pre @ fs" "R pre" "first_failure {Sqlerr} t_num e fs"
    "uncommitted fs" by blast
  from fs(3) e have "rolled_back fn t_num (fs @ es')"
    unfolding rolled_back_def first_failure_def es' by auto
  with fs(4) es' have "given_up fn t_num (fs @ es')" by (simp add: given_up_def)
  with fs(1,2) e
  show "v = 1 \<and> fin (es @ es') \<or> v = 0 \<and> (\<exists>pre fs. es @ es' = pre @ fs \<and> R pre \<and>
      given_up fn t_num fs)" by (metis append.assoc)
next
  show "no_escape e' (es @ es')" if "\<exists>pre fs. es = pre @ fs \<and> R pre \<and>
      first_failure {Sqlerr} t_num e fs \<and> uncommitted fs"
    "e \<noteq> Goto Sqlerr \<and> e' = e" for e e' es es'
    using that by (auto simp: no_escape_def first_failure_def)
qed simp

lemma sqlerr_frame:
  assumes "traced (\<lambda>v es. v = 1 \<and> fin es) (\<lambda>e es. first_failure {Sqlerr} t_num e es \<and> uncommitted es) body"
  shows "traced (\<lambda>v es. v = 1 \<and> fin es \<or> v = 0 \<and> given_up fn t_num es) no_escape
    (handle body (\<lambda>e. if e = Goto Sqlerr then sqlerr M fn t_num else halt e))"
proof -
  have "traced (\<lambda>v es. v = 1 \<and> fin es) (\<lambda>e es. \<exists>pre fs. es = pre @ fs \<and> pre = [] \<and>
      first_failure {Sqlerr} t_num e fs \<and> uncommitted fs) body"
    by (rule traced_conseq [OF assms]) simp_all
  from sqlerr_frame_after [OF this] show ?thesis by (rule traced_conseq) auto
qed

text \<open>A transaction that commits once, at its end.\<close>

lemma commit_traced:
  "traced (\<lambda>_ es. \<exists>r. es = [Call t_num Commit 0 r])
     (\<lambda>e es. \<exists>rc r. rc \<noteq> 0 \<and> e = Goto err \<and> es = [Call t_num Commit rc r])
     (checked M err t_num Commit)"
  by (rule tracedI)
    (auto simp: checked_def sql_def bnd_def ret_eq halt_eq split: prod.splits)

lemma work_then_commit:
  assumes "traced (\<lambda>_. clean_run t_num) (first_failure L t_num) work"
    and "traced (\<lambda>_. in_txn) (\<lambda>_. in_txn) work" and "Sqlerr \<in> L"
    and fin: "\<And>a. traced (\<lambda>v es. V v \<and> (\<forall>ev \<in> set es. \<exists>a b. ev = Trx t_num a b))
      (\<lambda>_ _. False) (fin a)"
  shows "traced (\<lambda>v es. V v \<and> committed t_num es)
    (\<lambda>e es. first_failure L t_num e es \<and> uncommitted es)
    (bnd work (\<lambda>a. thn (checked M Sqlerr t_num Commit) (fin a)))"
proof (rule traced_bnd [OF traced_conj [OF assms(1,2)]])
  show "traced (\<lambda>v es. V v \<and> (\<exists>r post. es = Call t_num Commit 0 r # post \<and>
      (\<forall>ev \<in> set post. \<exists>a b. ev = Trx t_num a b)))
    (\<lambda>e es. \<exists>rc r. rc \<noteq> 0 \<and> e = Goto Sqlerr \<and> es = [Call t_num Commit rc r])
    (thn (checked M Sqlerr t_num Commit) (fin a))" for a
    unfolding thn_def by (rule traced_bnd [OF commit_traced fin]) auto
  show "first_failure L t_num e (es @ es') \<and> uncommitted (es @ es')"
    if "clean_run t_num es \<and> in_txn es"
      "\<exists>rc r. rc \<noteq> 0 \<and> e = Goto Sqlerr \<and> es' = [Call t_num Commit rc r]" for e es es'
    using that assms(3) disc.bad_append [of t_num es L e es'] first_failureI [of Commit _ Sqlerr L "[]" t_num]
    by (auto simp: in_txn_uncommitted)
  show "V v \<and> committed t_num (es @ es')"
    if "clean_run t_num es \<and> in_txn es" "V v \<and> (\<exists>r post. es' = Call t_num Commit 0 r # post \<and>
      (\<forall>ev \<in> set post. \<exists>a b. ev = Trx t_num a b))" for v es es'
    using that unfolding committed_def by blast
qed (auto simp: in_txn_uncommitted)

lemma ret_1_traced:
  "traced (\<lambda>v es. v = (1 :: int) \<and> (\<forall>ev \<in> set es. \<exists>a b. ev = Trx t_num a b)) (\<lambda>_ _. False) (ret 1)"
  by (rule tracedI) (simp add: ret_eq)

lemma set_proceed_then:
  fixes m :: "(('s, 'z) db_scheme, 'r) cm"
  assumes "traced N E m"
  shows "traced N E (thn (set_proceed n) m)"
proof (rule tracedI)
  fix s :: "('s, 'z) db_scheme"
  show "\<exists>es. log (snd (thn (set_proceed n) m s)) = log s @ es \<and>
    (case fst (thn (set_proceed n) m s) of Inl e \<Rightarrow> E e es | Inr a \<Rightarrow> N a es)"
    using assms [unfolded traced_def, THEN spec, of "s\<lparr>proceed := n\<rparr>"]
    by (simp add: set_proceed_def)
qed

lemma first_failure_goto:
  "first_failure L t_num (Goto l) es \<Longrightarrow> l \<noteq> Invaliditem \<Longrightarrow> \<exists>c rc. stops_at t_num c rc es"
  "first_failure L t_num (Goto Invaliditem) es \<Longrightarrow> stops_at t_num (Fetch 5) MYSQL_NO_DATA es"
  by (auto simp: first_failure_def)

lemma sqlerr_freed: "traced (\<lambda>_. quiet) (\<lambda>_ _. False) (sqlerr M fn t_num)"
  by (rule traced_conseq [OF sqlerr_traced]) (auto simp: quiet_def)

lemma rollback_freed: "traced (\<lambda>_. quiet) (\<lambda>_ _. False) (thn (sql M t_num Rollback) (ret a))"
  by (rule tracedI) (auto simp: sql_def run_simps quiet_def split: prod.splits)

text \<open>After the handlers of a transaction function: the result is freed, or had leaked.\<close>

lemma handler_freed:
  assumes "traced (\<lambda>_. quiet) freed body"
    and "\<And>e. traced (\<lambda>_ es. e \<noteq> Goto Sqlerr2 \<and> e \<noteq> OutOfFuel \<and> quiet es) (\<lambda>_ _. True) (h e)"
  shows "traced (\<lambda>_ es. leak es \<or> quiet es) (\<lambda>_ _. True) (handle body h)"
proof (rule traced_handle [OF assms])
  show "leak (es @ es') \<or> quiet (es @ es')"
    if "freed e es" "e \<noteq> Goto Sqlerr2 \<and> e \<noteq> OutOfFuel \<and> quiet es'" for e es es'
    using that quiet_append [of es es'] by (auto simp: freed_def quiet_def)
qed simp_all

lemma halt_freed:
  "traced (\<lambda>_ es. e \<noteq> Goto Sqlerr2 \<and> e \<noteq> OutOfFuel \<and> quiet es) (\<lambda>_ _. True) (halt e')"
  by (rule tracedI) (simp add: halt_eq)

lemma fetch_oks_simps:
  "[0, MYSQL_DATA_TRUNCATED] = fetch_oks k \<longleftrightarrow> k \<in> set truncation_allowed"
  "[0] = fetch_oks k \<longleftrightarrow> k \<notin> set truncation_allowed"
  by (auto simp: fetch_oks_def)

lemma proceed_query_did:
  "thn (set_proceed n) (query1 M err t_num k ps cols oks) s = (Inr r, t) \<Longrightarrow>
   set oks \<subseteq> {0, MYSQL_DATA_TRUNCATED} \<Longrightarrow> did s t [(k, ps)] [r]"
  using did_trans [OF set_proceed_did query1_did] by (fastforce simp: thn_ok)

lemma proceed_exec_did:
  "thn (set_proceed n) (sql_exec M err t_num k ps) s = (Inr u, t) \<Longrightarrow> did s t [(k, ps)] []"
  using did_trans [OF set_proceed_did sql_exec_did] by (fastforce simp: thn_ok)

lemma committed_not_uncommitted: "committed t_num es \<Longrightarrow> \<not> uncommitted es"
  by (auto simp: committed_def)

subsection \<open>Reading a result row by row\<close>

lemma loop_then_free:
  assumes "traced (\<lambda>_. quiet) (cursor_freed k) m"
  shows "traced (\<lambda>_. shut k) (cursor_freed k) (bnd m (\<lambda>a. thn (free_result M t_num k) (ret (f a))))"
proof (rule traced_bnd [OF assms])
  show "traced (\<lambda>_. shut k) (\<lambda>_ _. False) (thn (free_result M t_num k) (ret (f a)))" for a
    unfolding thn_def
    by (rule traced_bnd [OF free_result_shut, where N' = "\<lambda>_ _ es. es = []" and E' = "\<lambda>_ _ _. False"])
      (auto simp: traced_def ret_eq)
qed (auto intro: quiet_shut)

lemma fetch_loop_did:
  assumes "cfold js (\<lambda>_ acc. thn g (bnd (fetch_row M lbl t_num k oks) (\<lambda>r. ret (f r)))) acc s =
      (Inr a, t)" and "set oks \<subseteq> {0, MYSQL_DATA_TRUNCATED}"
    and "\<And>s u t. g s = (Inr u, t) \<Longrightarrow> did s t [] []"
  shows "\<exists>rows. length rows = length js \<and> did s t [] rows \<and>
    a = (if rows = [] then acc else f (last rows))"
  using assms(1)
proof (induction js arbitrary: acc s)
  case Nil
  then show ?case by (auto simp: did_same ret_eq)
next
  case (Cons j js)
  from Cons.prems obtain u1 s1 r s2 where
    1: "g s = (Inr u1, s1)" and
    2: "fetch_row M lbl t_num k oks s1 = (Inr r, s2)" and
    3: "cfold js (\<lambda>_ acc. thn g (bnd (fetch_row M lbl t_num k oks) (\<lambda>r. ret (f r)))) (f r) s2 =
      (Inr a, t)"
    by (auto simp: bnd_ok thn_ok)
  from Cons.IH [OF 3] obtain rows where rows: "length rows = length js" "did s2 t [] rows"
    "a = (if rows = [] then f r else f (last rows))" by blast
  from did_trans [OF assms(3) [OF 1] did_trans [OF fetch_row_did [OF 2 assms(2)] rows(2)]]
    rows(1,3)
  show ?case by (intro exI [of _ "r # rows"]) auto
qed

text \<open>A transaction function that returns 1 has reached the end of its body.\<close>

lemma sqlerr_frame_1:
  assumes "handle (thn (set_proceed 0) body)
      (\<lambda>e. if e = Goto Sqlerr then sqlerr M fn t_num else halt e) s = (Inr 1, t)"
  shows "body (s\<lparr>proceed := 0\<rparr>) = (Inr 1, t)"
  using assms
  by (auto simp: handle_ok set_proceed_def sqlerr_def thn_ok bnd_ok split: if_splits)

lemma body_then_commit:
  assumes "bnd work (\<lambda>a. thn (checked M err t_num Commit) (ret b)) s = (Inr v, t)"
  obtains a u where "work s = (Inr a, u)" and "did u t [] []"
proof -
  from assms obtain a u w where "work s = (Inr a, u)" "checked M err t_num Commit u = (Inr w, t)"
    by (auto simp: bnd_ok thn_ok)
  with commit_did show thesis by (blast intro: that)
qed

lemma succeeds_frame:
  assumes "body (s\<lparr>proceed := 0\<rparr>) = (Inr v, t)"
  shows "handle (thn (set_proceed 0) body) h s = (Inr v, t)"
  using assms by (simp add: handle_def set_proceed_def)

text \<open>What the trace of an operation executes, from its normal returns.\<close>

lemma traced_did:
  assumes "traced N E m"
    and "\<And>s a t. m s = (Inr a, t) \<Longrightarrow> \<exists>sts rows. did s t sts rows \<and> W a sts rows"
  shows "traced (\<lambda>a es. N a es \<and> (\<exists>sts. cmds es = run_of sts \<and> W a sts (rows_of es))) E m"
proof (rule tracedI)
  fix s
  obtain r t where r: "m s = (r, t)" by (cases "m s")
  show "\<exists>es. log (snd (m s)) = log s @ es \<and> (case fst (m s) of Inl e \<Rightarrow> E e es
    | Inr a \<Rightarrow> N a es \<and> (\<exists>sts. cmds es = run_of sts \<and> W a sts (rows_of es)))"
  proof (cases r)
    case (Inl e)
    with traced_stop [OF assms(1), of s e t] r show ?thesis by auto
  next
    case (Inr a)
    obtain sts rows where "did s t sts rows" "W a sts rows"
      using assms(2) [of s a t] r Inr by blast
    with traced_ok [OF assms(1), of s a t] r Inr show ?thesis
      by (auto simp: did_def)
  qed
qed

text \<open>A loop, round by round: the rounds that were completed and the one that stopped.\<close>

lemma cfor_rounds:
  assumes "\<And>i. i \<in> set js \<Longrightarrow> traced (\<lambda>_. D i) E (body i)"
  shows "traced (\<lambda>_ es. \<exists>ess. es = concat ess \<and> list_all2 D js ess)
    (\<lambda>e es. \<exists>ess fs n. n < length js \<and> es = concat ess @ fs \<and> list_all2 D (take n js) ess \<and> E e fs)
    (cfor js body)"
  using assms
proof (induction js)
  case Nil
  show ?case by (rule tracedI) (simp add: ret_eq)
next
  case (Cons j js)
  have j: "traced (\<lambda>_. D j) E (body j)" by (rule Cons.prems) simp
  have js: "traced (\<lambda>_ es. \<exists>ess. es = concat ess \<and> list_all2 D js ess)
    (\<lambda>e es. \<exists>ess fs n. n < length js \<and> es = concat ess @ fs \<and> list_all2 D (take n js) ess \<and> E e fs)
    (cfor js body)"
    by (rule Cons.IH) (simp add: Cons.prems)
  show ?case
    unfolding cfor.simps thn_def
  proof (rule traced_bnd [OF j js])
    show "\<exists>ess. es @ es' = concat ess \<and> list_all2 D (j # js) ess"
      if "D j es" "\<exists>ess. es' = concat ess \<and> list_all2 D js ess" for es es'
      using that by (metis concat.simps(2) list_all2_Cons)
    show "\<exists>ess fs n. n < length (j # js) \<and> es = concat ess @ fs \<and>
        list_all2 D (take n (j # js)) ess \<and> E e fs" if "E e es" for e es
      using that by (intro exI [of _ "[]"] exI [of _ es] exI [of _ 0]) simp
    show "\<exists>ess fs n. n < length (j # js) \<and> es @ es' = concat ess @ fs \<and>
        list_all2 D (take n (j # js)) ess \<and> E e fs"
      if "D j es" "\<exists>ess fs n. n < length js \<and> es' = concat ess @ fs \<and>
        list_all2 D (take n js) ess \<and> E e fs" for e es es'
    proof -
      from that(2) obtain ess fs n where "n < length js" "es' = concat ess @ fs"
        "list_all2 D (take n js) ess" "E e fs" by blast
      with that(1) show ?thesis
        by (intro exI [of _ "es # ess"] exI [of _ fs] exI [of _ "Suc n"]) simp
    qed
  qed
qed

lemma committed_prepend:
  "clean_run t_num es \<Longrightarrow> in_txn es \<Longrightarrow> committed t_num es' \<Longrightarrow> committed t_num (es @ es')"
  unfolding committed_def by (metis append.assoc clean_run_simps(3) itx.good_append)

lemma ret_unit_traced:
  "traced (\<lambda>_ es. True \<and> (\<forall>ev \<in> set es. \<exists>a b. ev = Trx t_num a b)) (\<lambda>_ _. False) (ret ())"
  by (rule tracedI) (simp add: ret_eq)

section \<open>Runs against a server that accepts everything\<close>

text \<open>
  The server accepts every call: it returns 0, except at the end of the two results that
  the program reads to the end.
\<close>

definition at_cursor :: "call \<Rightarrow> bool" where
  "at_cursor c \<longleftrightarrow> (\<exists>k \<in> set read_to_end. c = Fetch k)"

definition obliging :: "'s server \<Rightarrow> bool" where
  "obliging M \<longleftrightarrow> (\<forall>t_num c w. accepts c (fst (M t_num c w)) \<or> c = Rollback) \<and>
     (\<forall>t_num c w. \<not> at_cursor c \<longrightarrow> fst (M t_num c w) = 0)"

text \<open>The result of statement \<open>k\<close> ends, or fails, within \<open>n\<close> fetches.\<close>

primrec ends_within :: "'s server \<Rightarrow> int \<Rightarrow> nat \<Rightarrow> nat \<Rightarrow> 's \<Rightarrow> bool" where
  "ends_within M t_num k 0 w \<longleftrightarrow> False"
| "ends_within M t_num k (Suc n) w \<longleftrightarrow> (case M t_num (Fetch k) w of (rc, r, w') \<Rightarrow>
     rc \<noteq> 0 \<and> rc \<noteq> MYSQL_DATA_TRUNCATED \<or> ends_within M t_num k n w')"

named_theorems succeeds_intros "operations that return in every state"

definition succeeds :: "('st, 'a) cm \<Rightarrow> bool" where
  "succeeds m \<longleftrightarrow> (\<forall>s. \<exists>a t. m s = (Inr a, t))"

lemma succeeds_ret [succeeds_intros]: "succeeds (ret a)"
  by (simp add: succeeds_def)

lemma succeeds_bnd [succeeds_intros]:
  "succeeds m \<Longrightarrow> (\<And>a. succeeds (f a)) \<Longrightarrow> succeeds (bnd m f)"
  unfolding succeeds_def by (metis bnd_Inr)

lemma succeeds_thn [succeeds_intros]: "succeeds m \<Longrightarrow> succeeds k \<Longrightarrow> succeeds (thn m k)"
  by (simp add: thn_def succeeds_bnd)

lemma succeeds_if [succeeds_intros]:
  "(b \<Longrightarrow> succeeds m) \<Longrightarrow> (\<not> b \<Longrightarrow> succeeds k) \<Longrightarrow> succeeds (if b then m else k)"
  by simp

lemma succeeds_on_cond [succeeds_intros]: "succeeds m \<Longrightarrow> succeeds (on_cond b m)"
  by (simp add: on_cond_def succeeds_ret)

lemma succeeds_cfold [succeeds_intros]:
  "(\<And>i a. i \<in> set js \<Longrightarrow> succeeds (body i a)) \<Longrightarrow> succeeds (cfold js body acc)"
  by (induction js arbitrary: acc) (simp_all add: succeeds_ret succeeds_bnd)

lemma succeeds_cfor [succeeds_intros]:
  "(\<And>i. i \<in> set js \<Longrightarrow> succeeds (body i)) \<Longrightarrow> succeeds (cfor js body)"
  by (induction js) (simp_all add: succeeds_ret succeeds_thn)

lemma succeeds_state [succeeds_intros]:
  "succeeds (gets g)" "succeeds (modify f)" "succeeds clock_gettime" "succeeds (set_proceed n)"
  "succeeds (emit ev)" "succeeds (sql M t_num c)"
  by (simp_all add: succeeds_def clock_gettime_def set_proceed_def emit_def sql_def split: prod.splits)

lemma obligingD: "obliging M \<Longrightarrow> \<not> at_cursor c \<Longrightarrow> \<exists>r w'. M t_num c w = (0, r, w')"
  unfolding obliging_def by (metis fst_conv prod.exhaust)

lemma obliging_accepts:
  "obliging M \<Longrightarrow> M t_num c w = (rc, r, w') \<Longrightarrow> c \<noteq> Rollback \<Longrightarrow> accepts c rc"
  unfolding obliging_def by (drule conjunct1) (metis fst_conv)

lemma at_cursor_simps [simp]:
  "\<not> at_cursor Commit" "\<not> at_cursor (BindParam k ps)" "\<not> at_cursor (Execute k)"
  "\<not> at_cursor (StoreResult k)" "\<not> at_cursor (BindResult k cols)" "\<not> at_cursor (FreeResult k)"
  "at_cursor (Fetch k) \<longleftrightarrow> k \<in> set read_to_end"
  by (auto simp: at_cursor_def)

lemma succeeds_checked [succeeds_intros]:
  "obliging M \<Longrightarrow> \<not> at_cursor c \<Longrightarrow> succeeds (checked M err t_num c)"
  unfolding succeeds_def
proof
  fix s
  assume M: "obliging M" and c: "\<not> at_cursor c"
  obtain r w where run: "M t_num c (srv s) = (0, r, w)" using obligingD [OF M c] by blast
  show "\<exists>a t. checked M err t_num c s = (Inr a, t)"
    unfolding checked_run [of M, OF run] by simp
qed

lemma succeeds_fetch_row [succeeds_intros]:
  "obliging M \<Longrightarrow> 0 \<in> set oks \<Longrightarrow> k \<notin> set read_to_end \<Longrightarrow> succeeds (fetch_row M lbl t_num k oks)"
  unfolding succeeds_def
proof
  fix s
  assume M: "obliging M" and ok: "0 \<in> set oks" and k: "k \<notin> set read_to_end"
  obtain r w where run: "M t_num (Fetch k) (srv s) = (0, r, w)"
    using obligingD [OF M, of "Fetch k" t_num "srv s"] k by auto
  obtain r' w' where run': "M t_num (FreeResult k) w = (0, r', w')"
    using obligingD [OF M, of "FreeResult k" t_num w] by auto
  show "\<exists>a t. fetch_row M lbl t_num k oks s = (Inr a, t)"
    unfolding fetch_row_run [of M, OF run run'] using ok by simp
qed

lemma succeeds_calls [succeeds_intros]:
  "obliging M \<Longrightarrow> succeeds (sql_exec M err t_num k ps)"
  "obliging M \<Longrightarrow> succeeds (open_result M err t_num k cols)"
  "succeeds (free_result M t_num k)"
  by (auto simp: sql_exec_def open_result_def free_result_def intro!: succeeds_intros)

lemma succeeds_query1 [succeeds_intros]:
  "obliging M \<Longrightarrow> 0 \<in> set oks \<Longrightarrow> k \<notin> set read_to_end \<Longrightarrow> succeeds (query1 M err t_num k ps cols oks)"
  unfolding query1_def by (intro succeeds_intros)

lemma gettimestamp_some:
  "shd (stamps s) = Some str \<Longrightarrow> gettimestamp s = (Inr str, s\<lparr>stamps := stl (stamps s)\<rparr>)"
  by (simp add: gettimestamp_def)

lemma stamp_then:
  assumes "shd (stamps s) = Some str" and "succeeds (f str)"
  shows "\<exists>a t. bnd gettimestamp f s = (Inr a, t)"
  using assms by (simp add: bnd_def gettimestamp_def succeeds_def)

text \<open>
  A server for examples: every call succeeds, every buffer holds the same values, and a
  result that is read to the end has at most two rows, counted by the state.
\<close>

definition blank_row :: row where
  "blank_row = \<lparr>col_long = (\<lambda>_. 1), col_float = (\<lambda>_. 1 / 2), col_str = (\<lambda>_. ''x'')\<rparr>"

definition calm_server :: "nat server" where
  "calm_server t_num c w = (if c = Fetch 24 \<or> c = Fetch 33
     then if w mod 3 = 0 then (MYSQL_NO_DATA, blank_row, 2) else (0, blank_row, w - 1)
     else (0, blank_row, w))"

lemma calm_obliging: "obliging calm_server"
proof -
  have "accepts c (fst (calm_server t_num c w)) \<or> c = Rollback" for t_num c w
    by (cases c) (auto simp: calm_server_def read_to_end_def)
  moreover have "\<not> at_cursor c \<longrightarrow> fst (calm_server t_num c w) = 0" for t_num c w
    by (auto simp: calm_server_def read_to_end_def at_cursor_def)
  ultimately show ?thesis by (simp add: obliging_def)
qed

lemma calm_ends:
  assumes "k = 24 \<or> k = 33"
  shows "ends_within calm_server t_num k 3 w"
proof -
  have step: "ends_within calm_server t_num k (Suc n) w \<longleftrightarrow>
      w mod 3 = 0 \<or> ends_within calm_server t_num k n (w - 1)" for n w
    using assms by (auto simp: calm_server_def MYSQL_NO_DATA_def MYSQL_DATA_TRUNCATED_def)
  have "w mod 3 = 0 \<or> (w - 1) mod 3 = 0 \<or> (w - 1 - 1) mod 3 = 0" by presburger
  then show ?thesis
    unfolding numeral_3_eq_3 step by blast
qed

definition example_db :: "nat db" where
  "example_db = hist.extend example_hist
     \<lparr>srv = 0, log = [], proceed = 0, clocks = sconst (0, 0), ftrx_file = False\<rparr>
     \<lparr>stamps := sconst (Some ''2014-11-01 00:00:00'')\<rparr>"

end
