(* ===== verification/Neword.thy ===== *)
theory Neword
  imports Db
begin

text \<open>
  The New-Order transaction, \<^verbatim>\<open>tpcc-mysql/src/neword.c\<close>. The function is cut into one
  definition per statement, numbered by \<open>proceed\<close> as in the source; \<open>neword_line\<close> is the
  body of the loop over the order lines, \<open>neword_body\<close> the function up to its first
  \<open>return\<close>, and \<open>neword\<close> adds the blocks at the labels \<open>invaliditem\<close> and \<open>sqlerr\<close>.

  The arrays that the caller passes have \<open>MAX_NUM_ITEMS\<close> elements; the sort key is computed
  without the overflow of \<open>int\<close>, which it has for warehouses above 21473.
\<close>

section \<open>Local variables\<close>

definition MAX_NUM_ITEMS :: nat where
  "MAX_NUM_ITEMS = 15"

definition MAX_ITEM_LEN :: nat where
  "MAX_ITEM_LEN = 24"

text \<open>
  The local arrays that the loop over the order lines fills. \<open>iname\<close> is the memory of the
  array of names, row after row, with the byte that follows it: the copy of 25 bytes into
  a row of 24 reaches the next row and, for the last row, that byte.
\<close>

record ol_locals =
  iname :: string
  bg :: string
  amt :: "rat list"
  price :: "rat list"
  stock :: "int list"
  order_total :: rat
  ol_dist_info :: string

definition ol_locals_start :: ol_locals where
  "ol_locals_start = \<lparr>iname = replicate (MAX_NUM_ITEMS * MAX_ITEM_LEN + 1) (CHR 0x00),
     bg = replicate MAX_NUM_ITEMS (CHR 0x00), amt = replicate MAX_NUM_ITEMS 0,
     price = replicate MAX_NUM_ITEMS 0, stock = replicate MAX_NUM_ITEMS 0,
     order_total = 0, ol_dist_info = []\<rparr>"

section \<open>Order of the lines\<close>

definition ol_key :: "int list \<Rightarrow> int list \<Rightarrow> nat \<Rightarrow> int" where
  "ol_key supware itemid q = c_int ((MAXITEMS + 1) * supware ! q + itemid ! q)"

text \<open>The inner loop: the smallest key (\<open>tmp\<close>) and its position (\<open>min_num\<close>) so far.\<close>

definition min_step :: "(nat \<Rightarrow> int) \<Rightarrow> nat list \<Rightarrow> int \<times> nat \<Rightarrow> nat \<Rightarrow> int \<times> nat" where
  "min_step key ol_num_seq = (\<lambda>(tmp, min_num) j.
     if key (ol_num_seq ! j) < tmp then (key (ol_num_seq ! j), j) else (tmp, min_num))"

definition min_position :: "(nat \<Rightarrow> int) \<Rightarrow> nat list \<Rightarrow> nat \<Rightarrow> nat \<Rightarrow> nat" where
  "min_position key ol_num_seq cnt i =
     snd (foldl (min_step key ol_num_seq) (key (ol_num_seq ! i), i) [Suc i..<cnt])"

definition sort_step :: "(nat \<Rightarrow> int) \<Rightarrow> nat \<Rightarrow> nat list \<Rightarrow> nat \<Rightarrow> nat list" where
  "sort_step key cnt ol_num_seq i =
     (let min_num = min_position key ol_num_seq cnt i in
      if min_num \<noteq> i then
        ol_num_seq[min_num := ol_num_seq ! i, i := ol_num_seq ! min_num]
      else ol_num_seq)"

definition ol_sort :: "(nat \<Rightarrow> int) \<Rightarrow> nat \<Rightarrow> nat list" where
  "ol_sort key cnt = foldl (sort_step key cnt) [0..<cnt] [0..<cnt - 1]"

section \<open>Statements\<close>

definition neword_customer :: "'s server \<Rightarrow> int \<Rightarrow> int \<Rightarrow> int \<Rightarrow> int \<Rightarrow> (('s, 'z) db_scheme, row) cm" where
  "neword_customer M t_num w_id d_id c_id = thn (set_proceed 1)
     (query1 M Sqlerr t_num 0 [PLong w_id, PLong d_id, PLong c_id]
        [ColFloat, ColString 17, ColString 3, ColFloat] [0, MYSQL_DATA_TRUNCATED])"

definition neword_district :: "'s server \<Rightarrow> int \<Rightarrow> int \<Rightarrow> int \<Rightarrow> (('s, 'z) db_scheme, row) cm" where
  "neword_district M t_num w_id d_id = thn (set_proceed 2)
     (query1 M Sqlerr t_num 1 [PLong d_id, PLong w_id] [ColLong, ColFloat]
        [0, MYSQL_DATA_TRUNCATED])"

definition neword_next_o_id ::
  "'s server \<Rightarrow> int \<Rightarrow> int \<Rightarrow> int \<Rightarrow> int \<Rightarrow> (('s, 'z) db_scheme, unit) cm" where
  "neword_next_o_id M t_num w_id d_id d_next_o_id = thn (set_proceed 3)
     (sql_exec M Sqlerr t_num 2 [PLong d_next_o_id, PLong d_id, PLong w_id])"

definition neword_order :: "'s server \<Rightarrow> int \<Rightarrow> int \<Rightarrow> int \<Rightarrow> int \<Rightarrow> int \<Rightarrow> int \<Rightarrow> int \<Rightarrow> string \<Rightarrow>
    (('s, 'z) db_scheme, unit) cm" where
  "neword_order M t_num w_id d_id c_id o_ol_cnt o_all_local o_id datetime = thn (set_proceed 4)
     (sql_exec M Sqlerr t_num 3 [PLong o_id, PLong d_id, PLong w_id, PLong c_id,
        PString datetime, PLong o_ol_cnt, PLong o_all_local])"

definition neword_new_order ::
  "'s server \<Rightarrow> int \<Rightarrow> int \<Rightarrow> int \<Rightarrow> int \<Rightarrow> (('s, 'z) db_scheme, unit) cm" where
  "neword_new_order M t_num w_id d_id o_id = thn (set_proceed 5)
     (sql_exec M Sqlerr t_num 4 [PLong o_id, PLong d_id, PLong w_id])"

text \<open>The item: no row means an item number that is not valid.\<close>

definition neword_item :: "'s server \<Rightarrow> int \<Rightarrow> int \<Rightarrow> (('s, 'z) db_scheme, row) cm" where
  "neword_item M t_num ol_i_id = thn (set_proceed 6)
    (thn (sql_exec M Sqlerr t_num 5 [PLong ol_i_id])
    (thn (open_result M Sqlerr t_num 5 [ColFloat, ColString 25, ColString 51])
    (bnd (fetch_row M (\<lambda>rc. if rc = MYSQL_NO_DATA then Invaliditem else Sqlerr) t_num 5
           [0, MYSQL_DATA_TRUNCATED]) (\<lambda>r.
     thn (free_result M t_num 5) (ret r)))))"

definition neword_stock :: "'s server \<Rightarrow> int \<Rightarrow> int \<Rightarrow> int \<Rightarrow> (('s, 'z) db_scheme, row) cm" where
  "neword_stock M t_num ol_i_id ol_supply_w_id = thn (set_proceed 7)
     (query1 M Sqlerr t_num 6 [PLong ol_i_id, PLong ol_supply_w_id]
        ([ColLong, ColString 51] @ replicate 10 (ColString 25)) [0])"

text \<open>The macro \<open>pick_dist_info\<close>: column \<open>n + 1\<close> holds \<open>s_dist_n\<close>; no case, no copy.\<close>

definition pick_dist_info :: "string \<Rightarrow> row \<Rightarrow> int \<Rightarrow> string" where
  "pick_dist_info old r n = (if 1 \<le> n \<and> n \<le> 10 then take 25 (col_str r (nat n + 1)) else old)"

definition brand :: "row \<Rightarrow> row \<Rightarrow> char" where
  "brand i_row s_row = (if sublist ''original'' (col_str i_row 2) \<and> sublist ''original'' (col_str s_row 1)
     then CHR ''B'' else CHR ''G'')"

definition new_quantity :: "int \<Rightarrow> int \<Rightarrow> int" where
  "new_quantity s_quantity ol_quantity =
     (if s_quantity > ol_quantity then s_quantity - ol_quantity
      else s_quantity - ol_quantity + 91)"

definition neword_upd_stock ::
  "'s server \<Rightarrow> int \<Rightarrow> int \<Rightarrow> int \<Rightarrow> int \<Rightarrow> (('s, 'z) db_scheme, unit) cm" where
  "neword_upd_stock M t_num s_quantity ol_i_id ol_supply_w_id = thn (set_proceed 8)
     (sql_exec M Sqlerr t_num 7 [PLong s_quantity, PLong ol_i_id, PLong ol_supply_w_id])"

text \<open>\<open>ol_quantity * i_price * (1 + w_tax + d_tax) * (1 - c_discount)\<close>, in \<open>float\<close>.\<close>

definition line_amount :: "int \<Rightarrow> rat \<Rightarrow> rat \<Rightarrow> rat \<Rightarrow> rat \<Rightarrow> rat" where
  "line_amount ol_quantity i_price w_tax d_tax c_discount =
     f32 (f32 (f32 (f32 (of_int ol_quantity) * i_price) * f32 (f32 (1 + w_tax) + d_tax))
       * f32 (1 - c_discount))"

definition neword_insert_line :: "'s server \<Rightarrow> int \<Rightarrow> int \<Rightarrow> int \<Rightarrow> int \<Rightarrow> int \<Rightarrow> int \<Rightarrow> int \<Rightarrow> int \<Rightarrow>
    rat \<Rightarrow> string \<Rightarrow> (('s, 'z) db_scheme, unit) cm" where
  "neword_insert_line M t_num w_id d_id o_id ol_number ol_i_id ol_supply_w_id ol_quantity
       ol_amount dist_info = thn (set_proceed 9)
     (sql_exec M Sqlerr t_num 8 [PLong o_id, PLong d_id, PLong w_id, PLong ol_number,
        PLong ol_i_id, PLong ol_supply_w_id, PLong ol_quantity, PFloat ol_amount,
        PString dist_info])"

section \<open>The transaction\<close>

text \<open>One order line: \<open>q\<close> is \<open>ol_num_seq[ol_number - 1]\<close>.\<close>

definition neword_line :: "'s server \<Rightarrow> int \<Rightarrow> int \<Rightarrow> int \<Rightarrow> int \<Rightarrow> rat \<Rightarrow> rat \<Rightarrow> rat \<Rightarrow>
    int list \<Rightarrow> int list \<Rightarrow> int list \<Rightarrow> int \<times> nat \<Rightarrow> ol_locals \<Rightarrow> (('s, 'z) db_scheme, ol_locals) cm" where
  "neword_line M t_num w_id d_id o_id w_tax d_tax c_discount itemid supware qty = (\<lambda>(ol_number, q) l.
     let ol_supply_w_id = supware ! q; ol_i_id = itemid ! q; ol_quantity = qty ! q in
     bnd (neword_item M t_num ol_i_id) (\<lambda>i_row.
     let i_price = col_float i_row 0;
         l1 = l\<lparr>price := (price l)[q := i_price],
                iname := write_bytes (q * MAX_ITEM_LEN) (strncpy_bytes 25 (col_str i_row 1)) (iname l)\<rparr> in
     bnd (neword_stock M t_num ol_i_id ol_supply_w_id) (\<lambda>s_row.
     let s_quantity = col_long s_row 0;
         l2 = l1\<lparr>ol_dist_info := pick_dist_info (ol_dist_info l1) s_row d_id,
                 stock := (stock l1)[q := s_quantity],
                 bg := (bg l1)[q := brand i_row s_row]\<rparr> in
     thn (neword_upd_stock M t_num (new_quantity s_quantity ol_quantity) ol_i_id ol_supply_w_id)
    (let ol_amount = line_amount ol_quantity i_price w_tax d_tax c_discount;
         l3 = l2\<lparr>amt := (amt l2)[q := ol_amount], order_total := f32 (order_total l2 + ol_amount)\<rparr> in
     thn (neword_insert_line M t_num w_id d_id o_id ol_number ol_i_id ol_supply_w_id ol_quantity
            ol_amount (ol_dist_info l3))
      (ret l3)))))"

definition trx_line :: "int \<Rightarrow> int \<times> int \<Rightarrow> int \<times> int \<Rightarrow> (('s, 'z) db_scheme, unit) cm" where
  "trx_line t_num tbuf1 tbuf_start = bnd (gets ftrx_file) (\<lambda>f.
     on_cond f (emit (Trx t_num tbuf1 tbuf_start)))"

text \<open>
  The function up to the commit (line 497), with the start time that is printed at the end,
  and from there to the first \<open>return\<close>.
\<close>

definition neword_lines :: "'s server \<Rightarrow> int \<Rightarrow> int \<Rightarrow> int \<Rightarrow> int \<Rightarrow> row \<Rightarrow> row \<Rightarrow> int \<Rightarrow>
    int list \<Rightarrow> int list \<Rightarrow> int list \<Rightarrow> (('s, 'z) db_scheme, ol_locals) cm" where
  "neword_lines M t_num w_id d_id o_id c_row d_row o_ol_cnt itemid supware qty =
     (let c_discount = col_float c_row 0; w_tax = col_float c_row 3; d_tax = col_float d_row 1 in
      if o_ol_cnt > int MAX_NUM_ITEMS then halt OutOfBounds
      else let ol_num_seq = ol_sort (ol_key supware itemid) (nat o_ol_cnt) in
        cfold (zip [1..o_ol_cnt] ol_num_seq)
          (neword_line M t_num w_id d_id o_id w_tax d_tax c_discount itemid supware qty)
          ol_locals_start)"

definition neword_work :: "'s server \<Rightarrow> int \<Rightarrow> int \<Rightarrow> int \<Rightarrow> int \<Rightarrow> int \<Rightarrow> int \<Rightarrow>
    int list \<Rightarrow> int list \<Rightarrow> int list \<Rightarrow> (('s, 'z) db_scheme, int \<times> int) cm" where
  "neword_work M t_num w_id d_id c_id o_ol_cnt o_all_local itemid supware qty =
     bnd gettimestamp (\<lambda>datetime.
     bnd clock_gettime (\<lambda>tbuf_start.
     bnd (neword_customer M t_num w_id d_id c_id) (\<lambda>c_row.
     bnd (neword_district M t_num w_id d_id) (\<lambda>d_row.
     let d_next_o_id = col_long d_row 0; o_id = d_next_o_id in
     thn (neword_next_o_id M t_num w_id d_id d_next_o_id)
    (thn (neword_order M t_num w_id d_id c_id o_ol_cnt o_all_local o_id datetime)
    (thn (neword_new_order M t_num w_id d_id o_id)
    (thn (neword_lines M t_num w_id d_id o_id c_row d_row o_ol_cnt itemid supware qty)
      (ret tbuf_start))))))))"

definition neword_body :: "'s server \<Rightarrow> int \<Rightarrow> int \<Rightarrow> int \<Rightarrow> int \<Rightarrow> int \<Rightarrow> int \<Rightarrow>
    int list \<Rightarrow> int list \<Rightarrow> int list \<Rightarrow> (('s, 'z) db_scheme, int) cm" where
  "neword_body M t_num w_id d_id c_id o_ol_cnt o_all_local itemid supware qty =
     bnd (neword_work M t_num w_id d_id c_id o_ol_cnt o_all_local itemid supware qty) (\<lambda>tbuf_start.
     thn (checked M Sqlerr t_num Commit)
    (bnd clock_gettime (\<lambda>tbuf1.
     thn (trx_line t_num tbuf1 tbuf_start)
      (ret 1))))"

definition neword :: "'s server \<Rightarrow> int \<Rightarrow> int \<Rightarrow> int \<Rightarrow> int \<Rightarrow> int \<Rightarrow> int \<Rightarrow>
    int list \<Rightarrow> int list \<Rightarrow> int list \<Rightarrow> (('s, 'z) db_scheme, int) cm" where
  "neword M t_num w_id d_id c_id o_ol_cnt o_all_local itemid supware qty =
     handle (thn (set_proceed 0)
         (neword_body M t_num w_id d_id c_id o_ol_cnt o_all_local itemid supware qty))
       (\<lambda>e. if e = Goto Invaliditem then thn (sql M t_num Rollback) (ret 1)
            else if e = Goto Sqlerr then sqlerr M ''neword'' t_num
            else halt e)"

section \<open>Lemmas: the order of the lines\<close>

lemma min_foldl:
  "\<exists>p. foldl (min_step key ns) (key (ns ! m), m) js = (key (ns ! p), p) \<and> p \<in> set (m # js) \<and>
     (\<forall>j \<in> set (m # js). key (ns ! p) \<le> key (ns ! j))"
proof (induction js arbitrary: m)
  case Nil
  then show ?case by simp
next
  case (Cons j js)
  show ?case
  proof (cases "key (ns ! j) < key (ns ! m)")
    case True
    from Cons.IH [of j] obtain p where "foldl (min_step key ns) (key (ns ! j), j) js = (key (ns ! p), p)"
      "p \<in> set (j # js)" "\<forall>i \<in> set (j # js). key (ns ! p) \<le> key (ns ! i)" by blast
    with True show ?thesis by (intro exI [of _ p]) (auto simp: min_step_def)
  next
    case False
    from Cons.IH [of m] obtain p where "foldl (min_step key ns) (key (ns ! m), m) js = (key (ns ! p), p)"
      "p \<in> set (m # js)" "\<forall>i \<in> set (m # js). key (ns ! p) \<le> key (ns ! i)" by blast
    with False show ?thesis by (intro exI [of _ p]) (auto simp: min_step_def)
  qed
qed

lemma min_position:
  assumes "i < cnt"
  shows "i \<le> min_position key ns cnt i" "min_position key ns cnt i < cnt"
    and "i \<le> j \<Longrightarrow> j < cnt \<Longrightarrow> key (ns ! min_position key ns cnt i) \<le> key (ns ! j)"
proof -
  obtain p where "foldl (min_step key ns) (key (ns ! i), i) [Suc i..<cnt] = (key (ns ! p), p)"
    and p: "p \<in> set (i # [Suc i..<cnt])" "\<forall>j \<in> set (i # [Suc i..<cnt]). key (ns ! p) \<le> key (ns ! j)"
    using min_foldl [where key = key and ns = ns and m = i and js = "[Suc i..<cnt]"] by blast
  then have "min_position key ns cnt i = p" by (simp add: min_position_def)
  with p assms show "i \<le> min_position key ns cnt i" "min_position key ns cnt i < cnt"
    and "i \<le> j \<Longrightarrow> j < cnt \<Longrightarrow> key (ns ! min_position key ns cnt i) \<le> key (ns ! j)"
    by (auto simp: le_eq_less_or_eq)
qed

definition sorted_upto :: "(nat \<Rightarrow> int) \<Rightarrow> nat \<Rightarrow> nat list \<Rightarrow> bool" where
  "sorted_upto key k ns \<longleftrightarrow> (\<forall>a < k. \<forall>b < length ns. a < b \<longrightarrow> key (ns ! a) \<le> key (ns ! b))"

lemma sort_step_mset:
  assumes "i < cnt" and "length ns = cnt"
  shows "mset (sort_step key cnt ns i) = mset ns" and "length (sort_step key cnt ns i) = cnt"
  using assms min_position(2) [OF assms(1), where key = key and ns = ns]
  by (auto simp: sort_step_def Let_def mset_swap)

lemma sort_step_sorted:
  assumes "i < cnt" and "length ns = cnt" and "sorted_upto key i ns"
  shows "sorted_upto key (Suc i) (sort_step key cnt ns i)"
proof -
  let ?m = "min_position key ns cnt i"
  note m = min_position [OF assms(1), where key = key and ns = ns]
  have nth: "sort_step key cnt ns i ! a = ns ! (if a = i then ?m else if a = ?m then i else a)"
    if "a < cnt" for a
    using that m(2) assms by (auto simp: sort_step_def Let_def nth_list_update)
  have "key (sort_step key cnt ns i ! a) \<le> key (sort_step key cnt ns i ! b)"
    if ab: "a < Suc i" "a < b" "b < cnt" for a b
  proof (cases "a = i")
    case True
    with ab m show ?thesis by (simp add: nth)
  next
    case False
    define b' where "b' = (if b = i then ?m else if b = ?m then i else b)"
    have "a < b'" "b' < cnt" using ab m assms(1) False by (auto simp: b'_def)
    with assms(2,3) False ab m(1) show ?thesis
      by (simp add: nth sorted_upto_def b'_def [symmetric])
  qed
  with sort_step_mset(2) [OF assms(1,2)] show ?thesis by (simp add: sorted_upto_def)
qed

lemma ol_sort_invariant:
  assumes "k \<le> cnt"
  shows "mset (foldl (sort_step key cnt) [0..<cnt] [0..<k]) = mset [0..<cnt] \<and>
    length (foldl (sort_step key cnt) [0..<cnt] [0..<k]) = cnt \<and>
    sorted_upto key k (foldl (sort_step key cnt) [0..<cnt] [0..<k])"
  using assms
proof (induction k)
  case 0
  then show ?case by (simp add: sorted_upto_def)
next
  case (Suc k)
  then show ?case by (simp add: sort_step_mset sort_step_sorted)
qed

lemma length_ol_sort: "length (ol_sort key cnt) = cnt"
  using ol_sort_invariant [where k = "cnt - 1" and cnt = cnt and key = key] by (simp add: ol_sort_def)

lemma mset_ol_sort: "mset (ol_sort key cnt) = mset [0..<cnt]"
  using ol_sort_invariant [where k = "cnt - 1" and cnt = cnt and key = key] by (simp add: ol_sort_def)

lemma set_ol_sort: "set (ol_sort key cnt) = {0..<cnt}"
  using mset_ol_sort [of key cnt] by (metis set_mset_mset set_upt)

lemma sorted_ol_sort: "sorted (map key (ol_sort key cnt))"
proof -
  have "sorted_upto key (cnt - 1) (ol_sort key cnt)"
    using ol_sort_invariant [where k = "cnt - 1" and cnt = cnt and key = key] by (simp add: ol_sort_def)
  then show ?thesis
    by (auto simp: sorted_iff_nth_mono_less sorted_upto_def length_ol_sort)
qed

section \<open>Lemmas: outcome\<close>

lemmas neword_statements = neword_customer_def neword_district_def neword_next_o_id_def
  neword_order_def neword_new_order_def neword_item_def neword_stock_def neword_upd_stock_def
  neword_insert_line_def

lemmas neword_parts = neword_work_def neword_lines_def neword_line_def neword_statements Let_def

lemma neword_work_disc:
  "traced (\<lambda>_. clean_run t_num) (first_failure {Sqlerr, Invaliditem} t_num)
     (neword_work M t_num w_id d_id c_id o_ol_cnt o_all_local itemid supware qty)"
  unfolding neword_parts case_prod_beta
  by (intro traced_intros)
    (auto simp: fetch_oks_simps truncation_allowed_def read_to_end_def first_failure_def)

lemma neword_work_in_txn:
  "traced (\<lambda>_. in_txn) (\<lambda>_. in_txn)
     (neword_work M t_num w_id d_id c_id o_ol_cnt o_all_local itemid supware qty)"
  unfolding neword_parts case_prod_beta
  by (intro traced_intros) (simp_all add: itx.good_Nil)

lemma trx_line_traced:
  "traced (\<lambda>v es. v = (1 :: int) \<and> (\<forall>ev \<in> set es. \<exists>a b. ev = Trx t_num a b)) (\<lambda>_ _. False)
     (bnd clock_gettime (\<lambda>tbuf1. thn (trx_line t_num tbuf1 tbuf_start) (ret 1)))"
  by (rule tracedI)
    (auto simp: clock_gettime_def trx_line_def emit_def run_simps)

lemma neword_body_traced:
  "traced (\<lambda>v es. v = 1 \<and> committed t_num es)
    (\<lambda>e es. first_failure {Sqlerr, Invaliditem} t_num e es \<and> uncommitted es)
    (neword_body M t_num w_id d_id c_id o_ol_cnt o_all_local itemid supware qty)"
  unfolding neword_body_def
  by (rule work_then_commit [OF neword_work_disc neword_work_in_txn _ trx_line_traced]) simp

text \<open>The order named an item that does not exist: the rollback is the last call.\<close>

definition invalid_item :: "int \<Rightarrow> event list \<Rightarrow> bool" where
  "invalid_item t_num es \<longleftrightarrow> (\<exists>body rc r. stops_at t_num (Fetch 5) MYSQL_NO_DATA body \<and>
     es = body @ [Call t_num Rollback rc r])"

definition neword_finished :: "int \<Rightarrow> event list \<Rightarrow> bool" where
  "neword_finished t_num es \<longleftrightarrow> committed t_num es \<or> invalid_item t_num es \<and> uncommitted es"

lemma neword_traced:
  "traced (\<lambda>v es. v = 1 \<and> neword_finished t_num es \<or> v = 0 \<and> given_up ''neword'' t_num es)
    no_escape (neword M t_num w_id d_id c_id o_ol_cnt o_all_local itemid supware qty)"
  unfolding neword_def
proof (rule traced_handle [OF set_proceed_then [OF neword_body_traced]])
  let ?N = "\<lambda>e v es. e = Goto Invaliditem \<and> v = (1 :: int) \<and> (\<exists>rc r. es = [Call t_num Rollback rc r]) \<or>
    e = Goto Sqlerr \<and> v = 0 \<and> (\<exists>p rc r. es =
      [Diag ''neword'' [t_num, p], MysqlError t_num, Call t_num Rollback rc r])"
  have inv: "traced (?N (Goto Invaliditem)) (\<lambda>_ _. False) (thn (sql M t_num Rollback) (ret 1))"
    by (rule tracedI) (auto simp: sql_def run_simps split: prod.splits)
  show "traced (?N e) (\<lambda>e' es. e \<noteq> Goto Sqlerr \<and> e \<noteq> Goto Invaliditem \<and> e' = e)
      (if e = Goto Invaliditem then thn (sql M t_num Rollback) (ret 1)
       else if e = Goto Sqlerr then sqlerr M ''neword'' t_num else halt e)" for e
    using traced_conseq [OF inv, of "?N (Goto Invaliditem)"]
    by (auto intro: traced_conseq [OF sqlerr_traced] traced_conseq [OF halt_escape])
  fix e es and es' and v :: int
  assume f: "first_failure {Sqlerr, Invaliditem} t_num e es \<and> uncommitted es" and "?N e v es'"
  then consider rc r where "e = Goto Invaliditem" "v = 1" "es' = [Call t_num Rollback rc r]"
    | p rc r where "e = Goto Sqlerr" "v = 0"
      "es' = [Diag ''neword'' [t_num, p], MysqlError t_num, Call t_num Rollback rc r]" by blast
  then show "v = 1 \<and> neword_finished t_num (es @ es') \<or> v = 0 \<and> given_up ''neword'' t_num (es @ es')"
  proof cases
    case 1
    with f first_failure_goto(2) have "invalid_item t_num (es @ es')"
      unfolding invalid_item_def by blast
    with 1 f show ?thesis by (simp add: neword_finished_def)
  next
    case 2
    with f first_failure_goto(1) have "rolled_back ''neword'' t_num (es @ es')"
      unfolding rolled_back_def by blast
    with 2 f show ?thesis by (simp add: given_up_def)
  qed
next
  show "no_escape e' (es @ es')" if "first_failure {Sqlerr, Invaliditem} t_num e es \<and> uncommitted es"
    "e \<noteq> Goto Sqlerr \<and> e \<noteq> Goto Invaliditem \<and> e' = e" for e e' es es'
    using that by (auto simp: no_escape_def first_failure_def)
qed (auto simp: neword_finished_def)

interpretation neword_txn: transaction
  "neword M t_num w_id d_id c_id o_ol_cnt o_all_local itemid supware qty"
  "neword_finished t_num" "given_up ''neword'' t_num"
  for M t_num w_id d_id c_id o_ol_cnt o_all_local itemid supware qty
  by unfold_locales (rule neword_traced)

section \<open>Lemmas: the statements of a committed order\<close>

text \<open>
  What the transaction is meant to do, as a function of its arguments, the time stamp and
  the rows it reads: the statements with their parameters.
\<close>

definition line_script :: "int \<Rightarrow> int \<Rightarrow> int \<Rightarrow> row \<Rightarrow> row \<Rightarrow> int list \<Rightarrow> int list \<Rightarrow> int list \<Rightarrow>
    int \<times> nat \<Rightarrow> row \<times> row \<Rightarrow> (nat \<times> param list) list" where
  "line_script w_id d_id o_id c_row d_row itemid supware qty = (\<lambda>(ol_number, q) (i_row, s_row).
     [(5, [PLong (itemid ! q)]),
      (6, [PLong (itemid ! q), PLong (supware ! q)]),
      (7, [PLong (new_quantity (col_long s_row 0) (qty ! q)), PLong (itemid ! q), PLong (supware ! q)]),
      (8, [PLong o_id, PLong d_id, PLong w_id, PLong ol_number, PLong (itemid ! q),
           PLong (supware ! q), PLong (qty ! q),
           PFloat (line_amount (qty ! q) (col_float i_row 0) (col_float c_row 3)
             (col_float d_row 1) (col_float c_row 0)),
           PString (take 25 (col_str s_row (nat d_id + 1)))])])"

definition neword_script :: "int \<Rightarrow> int \<Rightarrow> int \<Rightarrow> int \<Rightarrow> int \<Rightarrow> int list \<Rightarrow> int list \<Rightarrow> int list \<Rightarrow>
    string \<Rightarrow> row \<Rightarrow> row \<Rightarrow> (row \<times> row) list \<Rightarrow> (nat \<times> param list) list" where
  "neword_script w_id d_id c_id o_ol_cnt o_all_local itemid supware qty datetime c_row d_row rows =
     (let o_id = col_long d_row 0 in
      [(0, [PLong w_id, PLong d_id, PLong c_id]),
       (1, [PLong d_id, PLong w_id]),
       (2, [PLong o_id, PLong d_id, PLong w_id]),
       (3, [PLong o_id, PLong d_id, PLong w_id, PLong c_id, PString datetime, PLong o_ol_cnt,
            PLong o_all_local]),
       (4, [PLong o_id, PLong d_id, PLong w_id])] @
      concat (map2 (line_script w_id d_id o_id c_row d_row itemid supware qty)
        (zip [1..o_ol_cnt] (ol_sort (ol_key supware itemid) (nat o_ol_cnt))) rows))"

lemma neword_item_did:
  assumes "neword_item M t_num ol_i_id s = (Inr r, t)"
  shows "did s t [(5, [PLong ol_i_id])] [r]"
proof -
  from assms obtain u0 s0 u1 s1 u2 s2 s3 u3 where
    0: "set_proceed 6 s = (Inr u0, s0)" and
    1: "sql_exec M Sqlerr t_num 5 [PLong ol_i_id] s0 = (Inr u1, s1)" and
    2: "open_result M Sqlerr t_num 5 [ColFloat, ColString 25, ColString 51] s1 = (Inr u2, s2)" and
    3: "fetch_row M (\<lambda>rc. if rc = MYSQL_NO_DATA then Invaliditem else Sqlerr) t_num 5
      [0, MYSQL_DATA_TRUNCATED] s2 = (Inr r, s3)" and
    4: "free_result M t_num 5 s3 = (Inr u3, t)"
    by (auto simp: neword_item_def thn_ok bnd_ok)
  have "did s t ([] @ ([(5, [PLong ol_i_id])] @ [] @ [] @ [])) ([] @ [] @ [] @ [r] @ [])"
    by (intro did_trans [OF set_proceed_did [OF 0]] did_trans [OF sql_exec_did [OF 1]]
        did_trans [OF open_result_did [OF 2]] did_trans [OF fetch_row_did [OF 3]]
        free_result_did [OF 4]) simp
  then show ?thesis by simp
qed

lemma neword_line_did:
  assumes "neword_line M t_num w_id d_id o_id (col_float c_row 3) (col_float d_row 1)
      (col_float c_row 0) itemid supware qty ol l s = (Inr l', t)"
    and "1 \<le> d_id" and "d_id \<le> 10"
  shows "\<exists>rows. did s t (line_script w_id d_id o_id c_row d_row itemid supware qty ol rows)
    [fst rows, snd rows]"
proof -
  obtain ol_number q where ol: "ol = (ol_number, q)" by (cases ol)
  from assms(1) obtain i_row s1 s_row s2 u3 s3 u4 where
    1: "neword_item M t_num (itemid ! q) s = (Inr i_row, s1)" and
    2: "neword_stock M t_num (itemid ! q) (supware ! q) s1 = (Inr s_row, s2)" and
    3: "neword_upd_stock M t_num (new_quantity (col_long s_row 0) (qty ! q)) (itemid ! q)
      (supware ! q) s2 = (Inr u3, s3)" and
    4: "neword_insert_line M t_num w_id d_id o_id ol_number (itemid ! q) (supware ! q) (qty ! q)
      (line_amount (qty ! q) (col_float i_row 0) (col_float c_row 3) (col_float d_row 1)
        (col_float c_row 0)) (pick_dist_info (ol_dist_info l) s_row d_id) s3 = (Inr u4, t)"
    by (auto simp: neword_line_def ol Let_def thn_ok bnd_ok)
  have pick: "pick_dist_info old s_row d_id = take 25 (col_str s_row (nat d_id + 1))" for old
    using assms(2,3) by (simp add: pick_dist_info_def)
  note step1 = neword_item_did [OF 1]
  note step2 = proceed_query_did [OF 2 [unfolded neword_stock_def], simplified]
  note step3 = proceed_exec_did [OF 3 [unfolded neword_upd_stock_def]]
  note step4 = proceed_exec_did [OF 4 [unfolded neword_insert_line_def pick]]
  from did_trans [OF step1 did_trans [OF step2 did_trans [OF step3 step4]]]
  show ?thesis
    by (intro exI [of _ "(i_row, s_row)"]) (simp add: line_script_def ol)
qed

lemma neword_cfold_did:
  assumes "cfold ols (neword_line M t_num w_id d_id o_id (col_float c_row 3) (col_float d_row 1)
      (col_float c_row 0) itemid supware qty) l s = (Inr l', t)"
    and "1 \<le> d_id" and "d_id \<le> 10"
  shows "\<exists>rows. length rows = length ols \<and>
    did s t (concat (map2 (line_script w_id d_id o_id c_row d_row itemid supware qty) ols rows))
      (concat (map (\<lambda>(i, r). [i, r]) rows))"
  using assms(1)
proof (induction ols arbitrary: l s)
  case Nil
  then show ?case by (auto simp: did_same ret_eq)
next
  case (Cons ol ols)
  from Cons.prems obtain l1 s1 where
    1: "neword_line M t_num w_id d_id o_id (col_float c_row 3) (col_float d_row 1)
      (col_float c_row 0) itemid supware qty ol l s = (Inr l1, s1)" and
    2: "cfold ols (neword_line M t_num w_id d_id o_id (col_float c_row 3) (col_float d_row 1)
      (col_float c_row 0) itemid supware qty) l1 s1 = (Inr l', t)"
    by (auto simp: bnd_ok)
  obtain r where r: "did s s1 (line_script w_id d_id o_id c_row d_row itemid supware qty ol r)
      [fst r, snd r]" using neword_line_did [OF 1 assms(2,3)] by blast
  obtain rows where rows: "length rows = length ols" "did s1 t (concat (map2
      (line_script w_id d_id o_id c_row d_row itemid supware qty) ols rows))
      (concat (map (\<lambda>(i, r). [i, r]) rows))" using Cons.IH [OF 2] by blast
  from did_trans [OF r rows(2)] rows(1) show ?case
    by (intro exI [of _ "r # rows"]) (cases r, simp)
qed

lemma neword_work_did:
  assumes "neword_work M t_num w_id d_id c_id o_ol_cnt o_all_local itemid supware qty s = (Inr b, t)"
    and "1 \<le> d_id" and "d_id \<le> 10"
  shows "\<exists>datetime c_row d_row rows. shd (stamps s) = Some datetime \<and>
    o_ol_cnt \<le> int MAX_NUM_ITEMS \<and> length rows = nat o_ol_cnt \<and>
    did s t (neword_script w_id d_id c_id o_ol_cnt o_all_local itemid supware qty datetime
        c_row d_row rows) (c_row # d_row # concat (map (\<lambda>(i, r). [i, r]) rows))"
proof -
  from assms(1) obtain datetime s1 tb s2 c_row s3 d_row s4 u5 s5 u6 s6 u7 s7 l where
    1: "gettimestamp s = (Inr datetime, s1)" and
    2: "clock_gettime s1 = (Inr tb, s2)" and
    3: "neword_customer M t_num w_id d_id c_id s2 = (Inr c_row, s3)" and
    4: "neword_district M t_num w_id d_id s3 = (Inr d_row, s4)" and
    5: "neword_next_o_id M t_num w_id d_id (col_long d_row 0) s4 = (Inr u5, s5)" and
    6: "neword_order M t_num w_id d_id c_id o_ol_cnt o_all_local (col_long d_row 0) datetime s5 =
      (Inr u6, s6)" and
    7: "neword_new_order M t_num w_id d_id (col_long d_row 0) s6 = (Inr u7, s7)" and
    8: "neword_lines M t_num w_id d_id (col_long d_row 0) c_row d_row o_ol_cnt itemid supware qty s7 =
      (Inr l, t)"
    by (auto simp: neword_work_def Let_def thn_ok bnd_ok)
  from 8 have cnt: "o_ol_cnt \<le> int MAX_NUM_ITEMS"
    by (auto simp: neword_lines_def split: if_splits)
  define ols where "ols = zip [1..o_ol_cnt] (ol_sort (ol_key supware itemid) (nat o_ol_cnt))"
  have len: "length ols = min (nat o_ol_cnt) (length (ol_sort (ol_key supware itemid) (nat o_ol_cnt)))"
    by (simp add: ols_def)
  from 8 cnt obtain rows where rows: "length rows = length ols" "did s7 t (concat (map2
      (line_script w_id d_id (col_long d_row 0) c_row d_row itemid supware qty) ols rows))
      (concat (map (\<lambda>(i, r). [i, r]) rows))"
    using neword_cfold_did [OF _ assms(2,3)] by (fastforce simp: neword_lines_def Let_def ols_def)
  have stamp: "shd (stamps s) = Some datetime"
    using 1 by (auto simp: gettimestamp_def split: option.splits)
  note step3 = proceed_query_did [OF 3 [unfolded neword_customer_def], simplified]
  note step4 = proceed_query_did [OF 4 [unfolded neword_district_def], simplified]
  note step5 = proceed_exec_did [OF 5 [unfolded neword_next_o_id_def]]
  note step6 = proceed_exec_did [OF 6 [unfolded neword_order_def]]
  note step7 = proceed_exec_did [OF 7 [unfolded neword_new_order_def]]
  note run = did_trans [OF gettimestamp_did [OF 1] did_trans [OF clock_did [OF 2]
    did_trans [OF step3 did_trans [OF step4 did_trans [OF step5 did_trans [OF step6
    did_trans [OF step7 rows(2)]]]]]]]
  have "length (ol_sort (ol_key supware itemid) (nat o_ol_cnt)) = nat o_ol_cnt"
    by (rule length_ol_sort)
  with stamp cnt rows(1) len run show ?thesis
    by (intro exI conjI) (auto simp: neword_script_def Let_def ols_def)
qed

lemma neword_item_freed [traced_intros]: "traced (\<lambda>_. quiet) freed (neword_item M t_num ol_i_id)"
proof -
  have "traced (\<lambda>_. shut 5) (\<lambda>e es. shut 5 es \<and> e \<noteq> Goto Sqlerr2)
      (bnd (fetch_row M (\<lambda>rc. if rc = MYSQL_NO_DATA then Invaliditem else Sqlerr) t_num 5
         [0, MYSQL_DATA_TRUNCATED]) (\<lambda>r. thn (free_result M t_num 5) (ret r)))"
    by (rule traced_bnd [OF fetch_row_quiet free_result_then_ret]) (auto intro: quiet_shut split: if_splits)
  then have "traced (\<lambda>_. quiet) freed (thn (open_result M Sqlerr t_num 5 [ColFloat, ColString 25, ColString 51])
      (bnd (fetch_row M (\<lambda>rc. if rc = MYSQL_NO_DATA then Invaliditem else Sqlerr) t_num 5
         [0, MYSQL_DATA_TRUNCATED]) (\<lambda>r. thn (free_result M t_num 5) (ret r))))"
    by (rule opened_then) (auto simp: cursor_freed_def)
  then show ?thesis unfolding neword_item_def
    by (intro set_proceed_then frd.thn_traced [OF sql_exec_freed])
qed

lemma neword_work_freed:
  "traced (\<lambda>_. quiet) freed
     (neword_work M t_num w_id d_id c_id o_ol_cnt o_all_local itemid supware qty)"
  unfolding neword_work_def neword_lines_def neword_line_def neword_customer_def neword_district_def
    neword_next_o_id_def neword_order_def neword_new_order_def neword_stock_def neword_upd_stock_def
    neword_insert_line_def Let_def case_prod_beta
  by (intro traced_intros) (auto simp: freed_def)

text \<open>A transaction that has run against an obliging server.\<close>

lemma neword_obliging_committed:
  assumes "obliging M" and "shd (stamps s) = Some str" and "o_ol_cnt \<le> 15"
  shows "\<exists>t es. neword M t_num w_id d_id c_id o_ol_cnt o_all_local itemid supware qty s = (Inr 1, t) \<and>
    log t = log s @ es \<and> committed t_num es"
proof -
  let ?s = "s\<lparr>proceed := 0\<rparr>"
  have "shd (stamps ?s) = Some str" using assms(2) by simp
  note stamp = gettimestamp_some [OF this]
  have "\<not> o_ol_cnt > int MAX_NUM_ITEMS" using assms(3) by (simp add: MAX_NUM_ITEMS_def)
  then have lines: "succeeds (neword_lines M t_num w_id d_id o_id c_row d_row o_ol_cnt itemid supware qty)"
    for o_id c_row d_row
    unfolding neword_lines_def neword_line_def neword_item_def neword_stock_def
      neword_upd_stock_def neword_insert_line_def Let_def case_prod_beta
    using assms(1) by (auto intro!: succeeds_intros simp: read_to_end_def)
  have rest: "succeeds (bnd clock_gettime (\<lambda>tbuf_start.
     bnd (neword_customer M t_num w_id d_id c_id) (\<lambda>c_row.
     bnd (neword_district M t_num w_id d_id) (\<lambda>d_row.
     thn (neword_next_o_id M t_num w_id d_id (col_long d_row 0))
    (thn (neword_order M t_num w_id d_id c_id o_ol_cnt o_all_local (col_long d_row 0) str)
    (thn (neword_new_order M t_num w_id d_id (col_long d_row 0))
    (thn (neword_lines M t_num w_id d_id (col_long d_row 0) c_row d_row o_ol_cnt itemid supware qty)
      (ret tbuf_start))))))))"
    unfolding neword_customer_def neword_district_def neword_next_o_id_def neword_order_def
      neword_new_order_def
    using assms(1) by (intro succeeds_intros lines) (auto simp: read_to_end_def)
  have work: "\<exists>b t. neword_work M t_num w_id d_id c_id o_ol_cnt o_all_local itemid supware qty ?s = (Inr b, t)"
    using rest unfolding neword_work_def Let_def bnd_Inr [of gettimestamp, OF stamp] succeeds_def
    by blast
  then obtain b t where b: "neword_work M t_num w_id d_id c_id o_ol_cnt o_all_local itemid supware qty ?s =
    (Inr b, t)" by blast
  have "succeeds (thn (checked M Sqlerr t_num Commit)
    (bnd clock_gettime (\<lambda>tbuf1. thn (trx_line t_num tbuf1 b) (ret (1 :: int)))))"
    unfolding trx_line_def using assms(1) by (intro succeeds_intros) simp_all
  then obtain v u where v: "thn (checked M Sqlerr t_num Commit)
    (bnd clock_gettime (\<lambda>tbuf1. thn (trx_line t_num tbuf1 b) (ret (1 :: int)))) t = (Inr v, u)"
    unfolding succeeds_def by blast
  have "neword_body M t_num w_id d_id c_id o_ol_cnt o_all_local itemid supware qty ?s = (Inr v, u)"
    by (simp only: neword_body_def bnd_Inr [of "neword_work M t_num w_id d_id c_id o_ol_cnt
      o_all_local itemid supware qty", OF b] v)
  moreover from this traced_ok [OF neword_body_traced this] obtain es
    where "v = 1" "log u = log s @ es" "committed t_num es" by auto
  ultimately show ?thesis
    by (intro exI [of _ u] exI [of _ es]) (simp add: neword_def handle_def set_proceed_def)
qed

lemma neword_freed:
  "traced (\<lambda>_ es. leak es \<or> quiet es) (\<lambda>_ _. True)
     (neword M t_num w_id d_id c_id o_ol_cnt o_all_local itemid supware qty)"
proof -
  have trx: "traced (\<lambda>_. quiet) freed (trx_line t_num a b)" for a b
    by (rule tracedI) (auto simp: trx_line_def emit_def run_simps quiet_def)
  have body: "traced (\<lambda>_. quiet) freed
      (neword_body M t_num w_id d_id c_id o_ol_cnt o_all_local itemid supware qty)"
    unfolding neword_body_def by (intro traced_intros neword_work_freed trx)
  show ?thesis
    unfolding neword_def
    by (rule handler_freed [OF set_proceed_then [OF body]])
      (auto intro: halt_freed traced_conseq [OF sqlerr_freed] traced_conseq [OF rollback_freed])
qed

lemma neword_body_of:
  assumes "neword M t_num w_id d_id c_id o_ol_cnt o_all_local itemid supware qty s = (Inr v, t)"
    and "log t = log s @ es" and "committed t_num es"
  obtains u b where "neword_work M t_num w_id d_id c_id o_ol_cnt o_all_local itemid supware qty
      (s\<lparr>proceed := 0\<rparr>) = (Inr b, u)" and "did u t [] []"
proof -
  let ?body = "neword_body M t_num w_id d_id c_id o_ol_cnt o_all_local itemid supware qty"
  let ?s = "s\<lparr>proceed := 0\<rparr>"
  have "\<exists>v. ?body ?s = (Inr v, t)"
  proof (rule ccontr)
    assume no: "\<not> ?thesis"
    obtain r u where r: "?body ?s = (r, u)" by (cases "?body ?s")
    have run: "neword M t_num w_id d_id c_id o_ol_cnt o_all_local itemid supware qty s =
      handle ?body (\<lambda>e. if e = Goto Invaliditem then thn (sql M t_num Rollback) (ret 1)
            else if e = Goto Sqlerr then sqlerr M ''neword'' t_num else halt e) ?s"
      by (simp add: neword_def handle_def set_proceed_def)
    from r run no assms(1) obtain e where e: "r = Inl e" by (cases r) (auto simp: handle_def)
    with r traced_stop [OF neword_body_traced, of M t_num w_id d_id c_id o_ol_cnt o_all_local
        itemid supware qty ?s e u]
    obtain es1 where es1: "log u = log s @ es1" "uncommitted es1" by auto
    have "uncommitted es"
      using assms(1,2) run r e es1
      by (auto simp: handle_def sqlerr_def error_def emit_def sql_def thn_def bnd_def ret_eq halt_eq
          split: if_splits prod.splits)
    with assms(3) show False using committed_not_uncommitted by blast
  qed
  then obtain v' where "?body ?s = (Inr v', t)" by blast
  then obtain b u u2 s2 tb s3 u4 s4 where
    w: "neword_work M t_num w_id d_id c_id o_ol_cnt o_all_local itemid supware qty ?s = (Inr b, u)"
    and c: "checked M Sqlerr t_num Commit u = (Inr u2, s2)"
    and g: "clock_gettime s2 = (Inr tb, s3)" and l: "trx_line t_num tb b s3 = (Inr u4, t)"
    by (auto simp: neword_body_def bnd_ok thn_ok)
  have "did s3 t [] []"
    using l by (auto simp: trx_line_def emit_def did_def on_cond_ok split: if_splits)
  from did_trans [OF commit_did [OF c] did_trans [OF clock_did [OF g] this]]
  have "did u t [] []" by simp
  with w show thesis by (rule that)
qed

lemma neword_committed_did:
  assumes "neword M t_num w_id d_id c_id o_ol_cnt o_all_local itemid supware qty s = (Inr v, t)"
    and "log t = log s @ es" and "committed t_num es" and "1 \<le> d_id" and "d_id \<le> 10"
  shows "\<exists>datetime c_row d_row rows. shd (stamps s) = Some datetime \<and>
    length rows = nat o_ol_cnt \<and>
    cmds es = run_of (neword_script w_id d_id c_id o_ol_cnt o_all_local itemid supware qty
      datetime c_row d_row rows) \<and>
    rows_of es = c_row # d_row # concat (map (\<lambda>(i, r). [i, r]) rows)"
proof -
  obtain u b where w: "neword_work M t_num w_id d_id c_id o_ol_cnt o_all_local itemid supware qty
      (s\<lparr>proceed := 0\<rparr>) = (Inr b, u)" and d: "did u t [] []"
    by (rule neword_body_of [OF assms(1-3)])
  obtain datetime c_row d_row rows where
    r: "shd (stamps s) = Some datetime" "length rows = nat o_ol_cnt"
    and sc: "did (s\<lparr>proceed := 0\<rparr>) u (neword_script w_id d_id c_id o_ol_cnt o_all_local itemid
      supware qty datetime c_row d_row rows) (c_row # d_row # concat (map (\<lambda>(i, r). [i, r]) rows))"
    using neword_work_did [OF w assms(4,5)] by auto
  from did_trans [OF sc d] assms(2)
  have "cmds es = run_of (neword_script w_id d_id c_id o_ol_cnt o_all_local itemid supware qty
      datetime c_row d_row rows)" "rows_of es = c_row # d_row # concat (map (\<lambda>(i, r). [i, r]) rows)"
    by (auto simp: did_def)
  with r show ?thesis by blast
qed

text \<open>Two lines: item 7 of warehouse 2 and item 3 of warehouse 1, for warehouse 1.\<close>

definition example_items :: "int list" where
  "example_items = [7, 3]"

definition example_ware :: "int list" where
  "example_ware = [2, 1]"

definition example_qty :: "int list" where
  "example_qty = [5, 1]"

lemma example_stamp: "shd (stamps example_db) = Some ''2014-11-01 00:00:00''"
  by (simp add: example_db_def hist.defs example_hist_def)

lemma example_order:
  obtains t es where
    "neword calm_server 0 1 4 9 2 0 example_items example_ware example_qty example_db = (Inr 1, t)"
    "log t = log example_db @ es" "committed 0 es"
  using neword_obliging_committed [OF calm_obliging example_stamp, where o_ol_cnt = 2 and t_num = 0
      and w_id = 1 and d_id = 4 and c_id = 9 and o_all_local = 0 and itemid = example_items
      and supware = example_ware and qty = example_qty] by auto

section \<open>Properties\<close>

text \<open>
  Property C1. The outcome of New-Order, for every behaviour of the server. The function
  returns 1 after a run in which every call was accepted and that ends with the one commit,
  or after the fetch of an item that does not exist, followed by the rollback alone. It
  returns 0 after the first call that fails, followed only by the freeing of the result, the
  report and the rollback. Without a return (an abort of the process) no jump is left
  unhandled. In no case is anything committed before a failure.
\<close>

theorem neword_outcome:
  "\<exists>es. log (snd (neword M t_num w_id d_id c_id o_ol_cnt o_all_local itemid supware qty s)) =
      log s @ es \<and>
    (case fst (neword M t_num w_id d_id c_id o_ol_cnt o_all_local itemid supware qty s) of
       Inr v \<Rightarrow> v = 1 \<and> (committed t_num es \<or> invalid_item t_num es \<and> uncommitted es) \<or>
                v = 0 \<and> given_up ''neword'' t_num es
     | Inl e \<Rightarrow> \<forall>l. e \<noteq> Goto l)"
  using neword_traced [unfolded traced_def neword_finished_def no_escape_def] by blast

text \<open>
  Property C2. A committed New-Order has executed the statements of its specification
  \<open>neword_script\<close>, each with the right parameters and in this order: the header of the order
  with the number read from the district, which is then advanced, and for every line, in the
  order of the sort, the item, the stock, the new quantity and the order line with its
  amount. The values come from the rows it has fetched, and it has fetched nothing else.
\<close>

theorem neword_refines_script:
  assumes "neword M t_num w_id d_id c_id o_ol_cnt o_all_local itemid supware qty s = (Inr v, t)"
    and "log t = log s @ es" and "committed t_num es" and "1 \<le> d_id" and "d_id \<le> 10"
  shows "\<exists>datetime c_row d_row rows. shd (stamps s) = Some datetime \<and>
    length rows = nat o_ol_cnt \<and>
    cmds es = run_of (neword_script w_id d_id c_id o_ol_cnt o_all_local itemid supware qty
      datetime c_row d_row rows) \<and>
    rows_of es = c_row # d_row # concat (map (\<lambda>(i, r). [i, r]) rows)"
  by (rule neword_committed_did [OF assms])

theorem neword_refines_script_witness:
  "\<exists>t es datetime c_row d_row rows.
    neword calm_server 0 1 4 9 2 0 example_items example_ware example_qty example_db = (Inr 1, t) \<and>
    log t = log example_db @ es \<and> shd (stamps example_db) = Some datetime \<and>
    length rows = nat 2 \<and>
    cmds es = run_of (neword_script 1 4 9 2 0 example_items example_ware example_qty
      datetime c_row d_row rows) \<and>
    rows_of es = c_row # d_row # concat (map (\<lambda>(i, r). [i, r]) rows)"
proof -
  obtain t es where run:
    "neword calm_server 0 1 4 9 2 0 example_items example_ware example_qty example_db = (Inr 1, t)"
    "log t = log example_db @ es" "committed 0 es"
    by (rule example_order)
  from neword_refines_script [OF this] have "\<exists>datetime c_row d_row rows.
    shd (stamps example_db) = Some datetime \<and> length rows = nat 2 \<and>
    cmds es = run_of (neword_script 1 4 9 2 0 example_items example_ware example_qty
      datetime c_row d_row rows) \<and>
    rows_of es = c_row # d_row # concat (map (\<lambda>(i, r). [i, r]) rows)"
    by simp
  with run show ?thesis by blast
qed

text \<open>
  The stock stays between 1 and 100 under any sequence of orders of 1 to 10
  pieces, and is replenished in steps of 91 pieces only.
\<close>

theorem new_quantity_range:
  assumes "1 \<le> s" and "s \<le> 100" and "\<forall>q \<in> set qs. 1 \<le> q \<and> q \<le> 10"
  shows "1 \<le> foldl new_quantity s qs \<and> foldl new_quantity s qs \<le> 100 \<and>
    (\<exists>n \<ge> 0. foldl new_quantity s qs = s - sum_list qs + 91 * n)"
  using assms
proof (induction qs arbitrary: s)
  case Nil
  then show ?case by (auto intro: exI [of _ 0])
next
  case (Cons q qs)
  then have "1 \<le> new_quantity s q" "new_quantity s q \<le> 100" by (auto simp: new_quantity_def)
  from Cons.IH [OF this] Cons.prems(3) obtain n where
    n: "1 \<le> foldl new_quantity (new_quantity s q) qs" "foldl new_quantity (new_quantity s q) qs \<le> 100"
    "0 \<le> n" "foldl new_quantity (new_quantity s q) qs = new_quantity s q - sum_list qs + 91 * n"
    by auto
  have step: "new_quantity s q = s - q + 91 * (if s > q then 0 else 1)"
    by (simp add: new_quantity_def)
  have "foldl new_quantity s (q # qs) = s - sum_list (q # qs) + 91 * (if s > q then n else n + 1)"
    using n(4) by (simp add: step)
  moreover have "foldl new_quantity s (q # qs) = foldl new_quantity (new_quantity s q) qs" by simp
  moreover have "0 \<le> (if s > q then n else n + 1)" using n(3) by simp
  ultimately show ?case using n(1,2) by metis
qed

theorem new_quantity_range_witness:
  "1 \<le> foldl new_quantity 12 [10, 2, 7 :: int] \<and> foldl new_quantity 12 [10, 2, 7 :: int] \<le> 100 \<and>
    (\<exists>n \<ge> 0. foldl new_quantity 12 [10, 2, 7 :: int] = 12 - sum_list [10, 2, 7] + 91 * n)"
  by (rule new_quantity_range) simp_all

text \<open>
  The copy of an item name writes 25 bytes into a row of 24: with 15 order
  lines, and only then, it writes the byte after the array \<open>iname\<close>.
\<close>

theorem iname_overflow:
  assumes "0 \<le> o_ol_cnt" and "o_ol_cnt \<le> int MAX_NUM_ITEMS"
  shows "(\<exists>q \<in> set (ol_sort (ol_key supware itemid) (nat o_ol_cnt)).
      MAX_NUM_ITEMS * MAX_ITEM_LEN < q * MAX_ITEM_LEN + length (strncpy_bytes 25 name)) \<longleftrightarrow>
    o_ol_cnt = int MAX_NUM_ITEMS"
proof -
  have "length (strncpy_bytes 25 name) = 25" by (simp add: strncpy_bytes_def)
  moreover have "360 < q * 24 + 25 \<longleftrightarrow> 14 \<le> q" for q :: nat by auto
  ultimately have "(\<exists>q \<in> set (ol_sort (ol_key supware itemid) (nat o_ol_cnt)).
      MAX_NUM_ITEMS * MAX_ITEM_LEN < q * MAX_ITEM_LEN + length (strncpy_bytes 25 name)) \<longleftrightarrow>
    (\<exists>q \<in> {0..<nat o_ol_cnt}. 14 \<le> q)"
    by (simp only: set_ol_sort MAX_NUM_ITEMS_def MAX_ITEM_LEN_def) simp
  also have "\<dots> \<longleftrightarrow> o_ol_cnt = int MAX_NUM_ITEMS"
    using assms by (auto simp: MAX_NUM_ITEMS_def intro!: exI [of _ 14])
  finally show ?thesis .
qed

theorem iname_overflow_witness:
  "(\<exists>q \<in> set (ol_sort (ol_key [1, 1] [2, 1]) (nat 2)).
      MAX_NUM_ITEMS * MAX_ITEM_LEN < q * MAX_ITEM_LEN + length (strncpy_bytes 25 ''bolt'')) \<longleftrightarrow>
    (2 :: int) = int MAX_NUM_ITEMS"
  by (rule iname_overflow) (simp_all add: MAX_NUM_ITEMS_def)

end
