(* ===== verification/Payment.thy ===== *)
theory Payment
  imports Neword
begin

text \<open>
  The Payment transaction, \<^verbatim>\<open>tpcc-mysql/src/payment.c\<close>, one definition per statement.
  The local \<open>c_new_data\<close>, which lines 425 to 434 build for a customer with bad credit, is
  not modelled: no statement and no result depends on it, which is itself a property below.
\<close>

section \<open>Statements\<close>

definition pay_upd_warehouse :: "'s server \<Rightarrow> int \<Rightarrow> int \<Rightarrow> rat \<Rightarrow> (('s, 'z) db_scheme, unit) cm" where
  "pay_upd_warehouse M t_num w_id h_amount = thn (set_proceed 1)
     (sql_exec M Sqlerr t_num 9 [PFloat h_amount, PLong w_id])"

definition pay_warehouse :: "'s server \<Rightarrow> int \<Rightarrow> int \<Rightarrow> (('s, 'z) db_scheme, row) cm" where
  "pay_warehouse M t_num w_id = thn (set_proceed 2)
     (query1 M Sqlerr t_num 10 [PLong w_id] [ColString 21, ColString 21, ColString 21,
        ColString 3, ColString 10, ColString 11] [0])"

definition pay_upd_district ::
  "'s server \<Rightarrow> int \<Rightarrow> int \<Rightarrow> int \<Rightarrow> rat \<Rightarrow> (('s, 'z) db_scheme, unit) cm" where
  "pay_upd_district M t_num w_id d_id h_amount = thn (set_proceed 3)
     (sql_exec M Sqlerr t_num 11 [PFloat h_amount, PLong w_id, PLong d_id])"

definition pay_district :: "'s server \<Rightarrow> int \<Rightarrow> int \<Rightarrow> int \<Rightarrow> (('s, 'z) db_scheme, row) cm" where
  "pay_district M t_num w_id d_id = thn (set_proceed 4)
     (query1 M Sqlerr t_num 12 [PLong w_id, PLong d_id] [ColString 21, ColString 21, ColString 21,
        ColString 3, ColString 10, ColString 11] [0])"

definition pay_namecnt :: "'s server \<Rightarrow> int \<Rightarrow> int \<Rightarrow> int \<Rightarrow> string \<Rightarrow> (('s, 'z) db_scheme, row) cm" where
  "pay_namecnt M t_num c_w_id c_d_id c_last = thn (set_proceed 5)
     (query1 M Sqlerr t_num 13 [PLong c_w_id, PLong c_d_id, PString c_last] [ColLong] [0])"

text \<open>The number of fetches up to the customer in the middle.\<close>

definition midpoint :: "int \<Rightarrow> int" where
  "midpoint namecnt = (if namecnt smod 2 \<noteq> 0 then namecnt + 1 else namecnt) sdiv 2"

definition pay_byname :: "'s server \<Rightarrow> int \<Rightarrow> int \<Rightarrow> int \<Rightarrow> string \<Rightarrow> int \<Rightarrow> int \<Rightarrow>
    (('s, 'z) db_scheme, int) cm" where
  "pay_byname M t_num c_w_id c_d_id c_last namecnt c_id =
     thn (sql_exec M Sqlerr t_num 14 [PLong c_w_id, PLong c_d_id, PString c_last])
    (thn (open_result M Sqlerr t_num 14 [ColLong])
    (bnd (cfold [0..midpoint namecnt - 1] (\<lambda>_ c_id.
            bnd (fetch_row M (\<lambda>_. Sqlerr) t_num 14 [0]) (\<lambda>r. ret (col_long r 0))) c_id) (\<lambda>c_id.
     thn (free_result M t_num 14) (ret c_id))))"

definition pay_customer :: "'s server \<Rightarrow> int \<Rightarrow> int \<Rightarrow> int \<Rightarrow> int \<Rightarrow> (('s, 'z) db_scheme, row) cm" where
  "pay_customer M t_num c_w_id c_d_id c_id = thn (set_proceed 6)
     (query1 M Sqlerr t_num 15 [PLong c_w_id, PLong c_d_id, PLong c_id]
        [ColString 17, ColString 3, ColString 17, ColString 21, ColString 21, ColString 21,
         ColString 3, ColString 10, ColString 17, ColString 4, ColLong, ColFloat, ColFloat,
         ColString 20] [0, MYSQL_DATA_TRUNCATED])"

text \<open>\<open>c_credit[2] = 0\<close> and the search for \<open>BC\<close>; column 9 is \<open>c_credit\<close>.\<close>

definition bad_credit :: "row \<Rightarrow> bool" where
  "bad_credit c_row \<longleftrightarrow> sublist ''BC'' (take 2 (col_str c_row 9))"

definition pay_data :: "'s server \<Rightarrow> int \<Rightarrow> int \<Rightarrow> int \<Rightarrow> int \<Rightarrow> (('s, 'z) db_scheme, row) cm" where
  "pay_data M t_num c_w_id c_d_id c_id = thn (set_proceed 7)
     (query1 M Sqlerr t_num 16 [PLong c_w_id, PLong c_d_id, PLong c_id] [ColString 502] [0])"

definition pay_upd_bad :: "'s server \<Rightarrow> int \<Rightarrow> int \<Rightarrow> int \<Rightarrow> int \<Rightarrow> rat \<Rightarrow> string \<Rightarrow>
    (('s, 'z) db_scheme, unit) cm" where
  "pay_upd_bad M t_num c_w_id c_d_id c_id c_balance c_data = thn (set_proceed 8)
     (sql_exec M Sqlerr t_num 17 [PFloat c_balance, PString c_data, PLong c_w_id, PLong c_d_id,
        PLong c_id])"

definition pay_upd_good ::
  "'s server \<Rightarrow> int \<Rightarrow> int \<Rightarrow> int \<Rightarrow> int \<Rightarrow> rat \<Rightarrow> (('s, 'z) db_scheme, unit) cm" where
  "pay_upd_good M t_num c_w_id c_d_id c_id c_balance = thn (set_proceed 9)
     (sql_exec M Sqlerr t_num 18 [PFloat c_balance, PLong c_w_id, PLong c_d_id, PLong c_id])"

text \<open>
  The 26 bytes of \<open>h_data\<close>, whose first contents are unknown (here a question mark), through
  \<open>strncpy\<close>, the NUL at 10, \<open>strncat\<close> and the four blanks; the result is the C string.
\<close>

definition h_data_of :: "string \<Rightarrow> string \<Rightarrow> string" where
  "h_data_of w_name d_name =
     (let h0 = replicate 26 (CHR ''?'');
          h1 = (write_bytes 0 (strncpy_bytes 10 w_name) h0)[10 := CHR 0x00];
          h2 = write_bytes (length (cstr h1)) (take 10 d_name @ [CHR 0x00]) h1
      in cstr (h2[20 := CHR '' '', 21 := CHR '' '', 22 := CHR '' '', 23 := CHR '' '', 24 := CHR 0x00]))"

definition pay_history :: "'s server \<Rightarrow> int \<Rightarrow> int \<Rightarrow> int \<Rightarrow> int \<Rightarrow> int \<Rightarrow> int \<Rightarrow> string \<Rightarrow> rat \<Rightarrow> string \<Rightarrow>
    (('s, 'z) db_scheme, unit) cm" where
  "pay_history M t_num c_d_id c_w_id c_id d_id w_id datetime h_amount h_data = thn (set_proceed 10)
     (sql_exec M Sqlerr t_num 19 [PLong c_d_id, PLong c_w_id, PLong c_id, PLong d_id, PLong w_id,
        PString datetime, PFloat h_amount, PString h_data])"

section \<open>The transaction\<close>

text \<open>The choice of the customer; the result is \<open>c_id\<close>.\<close>

definition pay_select :: "'s server \<Rightarrow> int \<Rightarrow> bool \<Rightarrow> int \<Rightarrow> int \<Rightarrow> int \<Rightarrow> string \<Rightarrow>
    (('s, 'z) db_scheme, int) cm" where
  "pay_select M t_num byname c_w_id c_d_id c_id c_last_arg =
     (if byname then
        bnd (pay_namecnt M t_num c_w_id c_d_id c_last_arg) (\<lambda>r.
          pay_byname M t_num c_w_id c_d_id c_last_arg (col_long r 0) c_id)
      else ret c_id)"

text \<open>The update of the customer; column 12 is \<open>c_balance\<close>.\<close>

definition pay_update :: "'s server \<Rightarrow> int \<Rightarrow> int \<Rightarrow> int \<Rightarrow> int \<Rightarrow> row \<Rightarrow> rat \<Rightarrow>
    (('s, 'z) db_scheme, unit) cm" where
  "pay_update M t_num c_w_id c_d_id c_id c_row h_amount =
     (let c_balance = f32 (col_float c_row 12 + h_amount) in
      if bad_credit c_row then
        bnd (pay_data M t_num c_w_id c_d_id c_id) (\<lambda>r.
          pay_upd_bad M t_num c_w_id c_d_id c_id c_balance (col_str r 0))
      else pay_upd_good M t_num c_w_id c_d_id c_id c_balance)"

definition payment_work :: "'s server \<Rightarrow> int \<Rightarrow> int \<Rightarrow> int \<Rightarrow> bool \<Rightarrow> int \<Rightarrow> int \<Rightarrow> int \<Rightarrow> string \<Rightarrow> rat \<Rightarrow>
    (('s, 'z) db_scheme, unit) cm" where
  "payment_work M t_num w_id d_id byname c_w_id c_d_id c_id c_last_arg h_amount =
     bnd gettimestamp (\<lambda>datetime.
     thn (pay_upd_warehouse M t_num w_id h_amount)
    (bnd (pay_warehouse M t_num w_id) (\<lambda>w_row.
     thn (pay_upd_district M t_num w_id d_id h_amount)
    (bnd (pay_district M t_num w_id d_id) (\<lambda>d_row.
     bnd (pay_select M t_num byname c_w_id c_d_id c_id c_last_arg) (\<lambda>c_id.
     bnd (pay_customer M t_num c_w_id c_d_id c_id) (\<lambda>c_row.
     thn (pay_update M t_num c_w_id c_d_id c_id c_row h_amount)
      (pay_history M t_num c_d_id c_w_id c_id d_id w_id datetime h_amount
         (h_data_of (col_str w_row 5) (col_str d_row 5))))))))))"

definition payment_body :: "'s server \<Rightarrow> int \<Rightarrow> int \<Rightarrow> int \<Rightarrow> bool \<Rightarrow> int \<Rightarrow> int \<Rightarrow> int \<Rightarrow> string \<Rightarrow> rat \<Rightarrow>
    (('s, 'z) db_scheme, int) cm" where
  "payment_body M t_num w_id d_id byname c_w_id c_d_id c_id c_last_arg h_amount =
     bnd (payment_work M t_num w_id d_id byname c_w_id c_d_id c_id c_last_arg h_amount) (\<lambda>_.
     thn (checked M Sqlerr t_num Commit) (ret 1))"

definition payment :: "'s server \<Rightarrow> int \<Rightarrow> int \<Rightarrow> int \<Rightarrow> bool \<Rightarrow> int \<Rightarrow> int \<Rightarrow> int \<Rightarrow> string \<Rightarrow> rat \<Rightarrow>
    (('s, 'z) db_scheme, int) cm" where
  "payment M t_num w_id d_id byname c_w_id c_d_id c_id c_last_arg h_amount =
     handle (thn (set_proceed 0)
         (payment_body M t_num w_id d_id byname c_w_id c_d_id c_id c_last_arg h_amount))
       (\<lambda>e. if e = Goto Sqlerr then sqlerr M ''payment'' t_num else halt e)"

section \<open>Lemmas\<close>

lemmas pay_statements = pay_upd_warehouse_def pay_warehouse_def pay_upd_district_def
  pay_district_def pay_namecnt_def pay_customer_def pay_data_def pay_upd_bad_def
  pay_upd_good_def pay_history_def

lemmas payment_parts = payment_work_def pay_select_def pay_byname_def pay_update_def
  pay_statements Let_def

lemma payment_work_disc:
  "traced (\<lambda>_. clean_run t_num) (first_failure {Sqlerr} t_num)
     (payment_work M t_num w_id d_id byname c_w_id c_d_id c_id c_last_arg h_amount)"
  unfolding payment_parts
  by (intro traced_intros)
    (auto simp: fetch_oks_simps truncation_allowed_def read_to_end_def first_failure_def)

lemma payment_work_in_txn:
  "traced (\<lambda>_. in_txn) (\<lambda>_. in_txn)
     (payment_work M t_num w_id d_id byname c_w_id c_d_id c_id c_last_arg h_amount)"
  unfolding payment_parts
  by (intro traced_intros) (simp_all add: itx.good_Nil)

lemma payment_body_traced:
  "traced (\<lambda>v es. v = 1 \<and> committed t_num es) (\<lambda>e es. first_failure {Sqlerr} t_num e es \<and> uncommitted es)
     (payment_body M t_num w_id d_id byname c_w_id c_d_id c_id c_last_arg h_amount)"
  unfolding payment_body_def
  by (rule work_then_commit [OF payment_work_disc payment_work_in_txn _ ret_1_traced]) simp

lemma payment_traced:
  "traced (\<lambda>v es. v = 1 \<and> committed t_num es \<or> v = 0 \<and> given_up ''payment'' t_num es) no_escape
     (payment M t_num w_id d_id byname c_w_id c_d_id c_id c_last_arg h_amount)"
  unfolding payment_def by (rule sqlerr_frame [OF set_proceed_then [OF payment_body_traced]])

interpretation payment_txn: transaction
  "payment M t_num w_id d_id byname c_w_id c_d_id c_id c_last_arg h_amount"
  "committed t_num" "given_up ''payment'' t_num"
  for M t_num w_id d_id byname c_w_id c_d_id c_id c_last_arg h_amount
  by unfold_locales (rule payment_traced)

lemma pay_byname_freed [traced_intros]:
  "traced (\<lambda>_. quiet) freed (pay_byname M t_num c_w_id c_d_id c_last namecnt c_id)"
proof -
  have "traced (\<lambda>_. quiet) (cursor_freed 14) (cfold [0..midpoint namecnt - 1] (\<lambda>_ c_id.
      bnd (fetch_row M (\<lambda>_. Sqlerr) t_num 14 [0]) (\<lambda>r. ret (col_long r 0))) c_id)"
    by (intro cur.cfold_traced cur.bnd_traced cur.ret_traced fetch_row_cursor) simp
  note opened_then [OF loop_then_free [OF this, where f = "\<lambda>a. a"]]
  then show ?thesis
    unfolding pay_byname_def by (intro frd.thn_traced [OF sql_exec_freed])
qed

lemma pay_update_freed [traced_intros]:
  "traced (\<lambda>_. quiet) freed (pay_update M t_num c_w_id c_d_id c_id c_row h_amount)"
  unfolding pay_update_def pay_statements Let_def by (intro traced_intros)

lemma payment_freed:
  "traced (\<lambda>_ es. leak es \<or> quiet es) (\<lambda>_ _. True)
     (payment M t_num w_id d_id byname c_w_id c_d_id c_id c_last_arg h_amount)"
proof -
  have body: "traced (\<lambda>_. quiet) freed
      (payment_body M t_num w_id d_id byname c_w_id c_d_id c_id c_last_arg h_amount)"
    unfolding payment_body_def payment_work_def pay_select_def pay_statements
    by (intro traced_intros) (simp add: freed_def)
  show ?thesis
    unfolding payment_def
    by (rule handler_freed [OF set_proceed_then [OF body]])
      (auto intro: halt_freed traced_conseq [OF sqlerr_freed])
qed

section \<open>Lemmas: the statements of a committed payment\<close>

text \<open>
  The customer chosen from the rows \<open>names\<close>: the count and the rows fetched from the list
  ordered by first name.
\<close>

definition chosen :: "int \<Rightarrow> row list \<Rightarrow> int" where
  "chosen c_id names = (if tl names = [] then c_id else col_long (last (tl names)) 0)"

definition names_read :: "bool \<Rightarrow> row list \<Rightarrow> bool" where
  "names_read byname names \<longleftrightarrow> (if byname then names \<noteq> [] \<and>
     length (tl names) = nat (midpoint (col_long (hd names) 0)) else names = [])"

definition payment_script :: "int \<Rightarrow> int \<Rightarrow> bool \<Rightarrow> int \<Rightarrow> int \<Rightarrow> int \<Rightarrow> string \<Rightarrow> rat \<Rightarrow> string \<Rightarrow>
    row \<Rightarrow> row \<Rightarrow> row list \<Rightarrow> row \<Rightarrow> row list \<Rightarrow> (nat \<times> param list) list" where
  "payment_script w_id d_id byname c_w_id c_d_id c_id c_last h_amount datetime w_row d_row names
       c_row data =
     (let c = chosen c_id names; bal = f32 (col_float c_row 12 + h_amount) in
      [(9, [PFloat h_amount, PLong w_id]), (10, [PLong w_id]),
       (11, [PFloat h_amount, PLong w_id, PLong d_id]), (12, [PLong w_id, PLong d_id])] @
      (if byname then [(13, [PLong c_w_id, PLong c_d_id, PString c_last]),
                       (14, [PLong c_w_id, PLong c_d_id, PString c_last])] else []) @
      [(15, [PLong c_w_id, PLong c_d_id, PLong c])] @
      (if bad_credit c_row
       then [(16, [PLong c_w_id, PLong c_d_id, PLong c]),
             (17, [PFloat bal, PString (col_str (hd data) 0), PLong c_w_id, PLong c_d_id, PLong c])]
       else [(18, [PFloat bal, PLong c_w_id, PLong c_d_id, PLong c])]) @
      [(19, [PLong c_d_id, PLong c_w_id, PLong c, PLong d_id, PLong w_id, PString datetime,
         PFloat h_amount, PString (h_data_of (col_str w_row 5) (col_str d_row 5))])])"

lemma pay_byname_did:
  assumes "pay_byname M t_num c_w_id c_d_id c_last namecnt c_id s = (Inr c, t)"
  shows "\<exists>rows. length rows = nat (midpoint namecnt) \<and>
    did s t [(14, [PLong c_w_id, PLong c_d_id, PString c_last])] rows \<and>
    c = (if rows = [] then c_id else col_long (last rows) 0)"
proof -
  from assms obtain u1 s1 u2 s2 c' s3 u4 where
    1: "sql_exec M Sqlerr t_num 14 [PLong c_w_id, PLong c_d_id, PString c_last] s = (Inr u1, s1)" and
    2: "open_result M Sqlerr t_num 14 [ColLong] s1 = (Inr u2, s2)" and
    3: "cfold [0..midpoint namecnt - 1] (\<lambda>_ c_id. thn (ret ())
      (bnd (fetch_row M (\<lambda>_. Sqlerr) t_num 14 [0]) (\<lambda>r. ret (col_long r 0)))) c_id s2 = (Inr c, s3)" and
    4: "free_result M t_num 14 s3 = (Inr u4, t)"
    by (auto simp: pay_byname_def bnd_ok thn_ok)
  obtain rows where rows: "length rows = length [0..midpoint namecnt - 1]" "did s2 s3 [] rows"
    "c = (if rows = [] then c_id else col_long (last rows) 0)"
    using fetch_loop_did [OF 3] by (auto simp: did_same)
  from did_trans [OF sql_exec_did [OF 1] did_trans [OF open_result_did [OF 2]
      did_trans [OF rows(2) free_result_did [OF 4]]]] rows(1,3)
  show ?thesis by (intro exI [of _ rows]) simp
qed

lemma pay_select_did:
  assumes "pay_select M t_num byname c_w_id c_d_id c_id c_last s = (Inr c, t)"
  shows "\<exists>names. names_read byname names \<and> c = chosen c_id names \<and>
    did s t (if byname then [(13, [PLong c_w_id, PLong c_d_id, PString c_last]),
      (14, [PLong c_w_id, PLong c_d_id, PString c_last])] else []) names"
proof (cases byname)
  case True
  with assms obtain r s1 where
    1: "pay_namecnt M t_num c_w_id c_d_id c_last s = (Inr r, s1)" and
    2: "pay_byname M t_num c_w_id c_d_id c_last (col_long r 0) c_id s1 = (Inr c, t)"
    by (auto simp: pay_select_def bnd_ok)
  obtain rows where rows: "length rows = nat (midpoint (col_long r 0))"
    "did s1 t [(14, [PLong c_w_id, PLong c_d_id, PString c_last])] rows"
    "c = (if rows = [] then c_id else col_long (last rows) 0)"
    using pay_byname_did [OF 2] by blast
  from did_trans [OF proceed_query_did [OF 1 [unfolded pay_namecnt_def]] rows(2)] rows(1,3) True
  show ?thesis by (intro exI [of _ "r # rows"]) (simp add: names_read_def chosen_def)
next
  case False
  with assms show ?thesis
    by (intro exI [of _ "[]"]) (simp add: pay_select_def names_read_def chosen_def did_same)
qed

lemma pay_update_did:
  assumes "pay_update M t_num c_w_id c_d_id c c_row h_amount s = (Inr u, t)"
  shows "\<exists>data. length data = (if bad_credit c_row then 1 else 0) \<and>
    did s t (if bad_credit c_row
      then [(16, [PLong c_w_id, PLong c_d_id, PLong c]),
            (17, [PFloat (f32 (col_float c_row 12 + h_amount)), PString (col_str (hd data) 0),
              PLong c_w_id, PLong c_d_id, PLong c])]
      else [(18, [PFloat (f32 (col_float c_row 12 + h_amount)), PLong c_w_id, PLong c_d_id,
              PLong c])]) data"
proof (cases "bad_credit c_row")
  case True
  with assms obtain r s1 where
    1: "pay_data M t_num c_w_id c_d_id c s = (Inr r, s1)" and
    2: "pay_upd_bad M t_num c_w_id c_d_id c (f32 (col_float c_row 12 + h_amount)) (col_str r 0) s1 =
      (Inr u, t)"
    by (auto simp: pay_update_def Let_def bnd_ok)
  from did_trans [OF proceed_query_did [OF 1 [unfolded pay_data_def]]
      proceed_exec_did [OF 2 [unfolded pay_upd_bad_def]]] True
  show ?thesis by (intro exI [of _ "[r]"]) simp
next
  case False
  with assms have "pay_upd_good M t_num c_w_id c_d_id c (f32 (col_float c_row 12 + h_amount)) s = (Inr u, t)"
    by (simp add: pay_update_def Let_def)
  from proceed_exec_did [OF this [unfolded pay_upd_good_def]] False
  show ?thesis by (intro exI [of _ "[]"]) simp
qed

lemma payment_work_did:
  assumes "payment_work M t_num w_id d_id byname c_w_id c_d_id c_id c_last h_amount s = (Inr u, t)"
  shows "\<exists>datetime w_row d_row names c_row data. shd (stamps s) = Some datetime \<and>
    names_read byname names \<and> length data = (if bad_credit c_row then 1 else 0) \<and>
    did s t (payment_script w_id d_id byname c_w_id c_d_id c_id c_last h_amount datetime w_row d_row
      names c_row data) ([w_row, d_row] @ names @ [c_row] @ data)"
proof -
  from assms obtain datetime s1 u2 s2 w_row s3 u4 s4 d_row s5 c s6 c_row s7 u8 s8 where
    1: "gettimestamp s = (Inr datetime, s1)" and
    2: "pay_upd_warehouse M t_num w_id h_amount s1 = (Inr u2, s2)" and
    3: "pay_warehouse M t_num w_id s2 = (Inr w_row, s3)" and
    4: "pay_upd_district M t_num w_id d_id h_amount s3 = (Inr u4, s4)" and
    5: "pay_district M t_num w_id d_id s4 = (Inr d_row, s5)" and
    6: "pay_select M t_num byname c_w_id c_d_id c_id c_last s5 = (Inr c, s6)" and
    7: "pay_customer M t_num c_w_id c_d_id c s6 = (Inr c_row, s7)" and
    8: "pay_update M t_num c_w_id c_d_id c c_row h_amount s7 = (Inr u8, s8)" and
    9: "pay_history M t_num c_d_id c_w_id c d_id w_id datetime h_amount
      (h_data_of (col_str w_row 5) (col_str d_row 5)) s8 = (Inr u, t)"
    by (auto simp: payment_work_def bnd_ok thn_ok)
  have stamp: "shd (stamps s) = Some datetime"
    using 1 by (auto simp: gettimestamp_def split: option.splits)
  obtain names where names: "names_read byname names" "c = chosen c_id names"
    and step6: "did s5 s6 (if byname then [(13, [PLong c_w_id, PLong c_d_id, PString c_last]),
      (14, [PLong c_w_id, PLong c_d_id, PString c_last])] else []) names"
    using pay_select_did [OF 6] by blast
  obtain data where data: "length data = (if bad_credit c_row then 1 else 0)"
    and step8: "did s7 s8 (if bad_credit c_row
      then [(16, [PLong c_w_id, PLong c_d_id, PLong c]),
            (17, [PFloat (f32 (col_float c_row 12 + h_amount)), PString (col_str (hd data) 0),
              PLong c_w_id, PLong c_d_id, PLong c])]
      else [(18, [PFloat (f32 (col_float c_row 12 + h_amount)), PLong c_w_id, PLong c_d_id,
              PLong c])]) data"
    using pay_update_did [OF 8] by blast
  note step2 = proceed_exec_did [OF 2 [unfolded pay_upd_warehouse_def]]
  note step3 = proceed_query_did [OF 3 [unfolded pay_warehouse_def], simplified]
  note step4 = proceed_exec_did [OF 4 [unfolded pay_upd_district_def]]
  note step5 = proceed_query_did [OF 5 [unfolded pay_district_def], simplified]
  note step7 = proceed_query_did [OF 7 [unfolded pay_customer_def], simplified]
  note step9 = proceed_exec_did [OF 9 [unfolded pay_history_def]]
  note run = did_trans [OF gettimestamp_did [OF 1] did_trans [OF step2 did_trans [OF step3
    did_trans [OF step4 did_trans [OF step5 did_trans [OF step6 did_trans [OF step7
    did_trans [OF step8 step9]]]]]]]]
  have "did s t (payment_script w_id d_id byname c_w_id c_d_id c_id c_last h_amount datetime w_row
      d_row names c_row data) ([w_row, d_row] @ names @ [c_row] @ data)"
    using run unfolding payment_script_def Let_def names(2) [symmetric] by (simp split del: if_split)
  with stamp names(1) data show ?thesis by blast
qed

lemma payment_committed_did:
  assumes "payment M t_num w_id d_id byname c_w_id c_d_id c_id c_last h_amount s = (Inr 1, t)"
    and "log t = log s @ es"
  shows "\<exists>datetime w_row d_row names c_row data. shd (stamps s) = Some datetime \<and>
    names_read byname names \<and> length data = (if bad_credit c_row then 1 else 0) \<and>
    cmds es = run_of (payment_script w_id d_id byname c_w_id c_d_id c_id c_last h_amount datetime
      w_row d_row names c_row data) \<and>
    rows_of es = [w_row, d_row] @ names @ [c_row] @ data"
proof -
  have "payment_body M t_num w_id d_id byname c_w_id c_d_id c_id c_last h_amount
      (s\<lparr>proceed := 0\<rparr>) = (Inr 1, t)"
    by (rule sqlerr_frame_1 [OF assms(1) [unfolded payment_def]])
  then obtain a u where "payment_work M t_num w_id d_id byname c_w_id c_d_id c_id c_last h_amount
      (s\<lparr>proceed := 0\<rparr>) = (Inr a, u)" and d: "did u t [] []"
    unfolding payment_body_def by (rule body_then_commit)
  from payment_work_did [OF this(1)] obtain datetime w_row d_row names c_row data where
    r: "shd (stamps s) = Some datetime" "names_read byname names"
      "length data = (if bad_credit c_row then 1 else 0)" and
    run: "did (s\<lparr>proceed := 0\<rparr>) u (payment_script w_id d_id byname c_w_id c_d_id c_id c_last
      h_amount datetime w_row d_row names c_row data) ([w_row, d_row] @ names @ [c_row] @ data)"
    by auto
  from did_trans [OF run d] assms(2)
  have "cmds es = run_of (payment_script w_id d_id byname c_w_id c_d_id c_id c_last h_amount datetime
      w_row d_row names c_row data)" "rows_of es = [w_row, d_row] @ names @ [c_row] @ data"
    by (auto simp: did_def)
  with r show ?thesis by blast
qed

lemma payment_obliging_committed:
  assumes "obliging M" and "shd (stamps s) = Some str"
  shows "\<exists>t es. payment M t_num w_id d_id byname c_w_id c_d_id c_id c_last h_amount s = (Inr 1, t) \<and>
    log t = log s @ es \<and> committed t_num es"
proof -
  let ?s = "s\<lparr>proceed := 0\<rparr>"
  have "shd (stamps ?s) = Some str" using assms(2) by simp
  then have "\<exists>u t. payment_work M t_num w_id d_id byname c_w_id c_d_id c_id c_last h_amount ?s = (Inr u, t)"
    unfolding payment_work_def
    by (rule stamp_then, unfold pay_select_def pay_byname_def pay_update_def pay_statements Let_def)
      (use assms(1) in \<open>intro succeeds_intros; simp add: read_to_end_def\<close>)
  then obtain u t where w: "payment_work M t_num w_id d_id byname c_w_id c_d_id c_id c_last h_amount ?s =
    (Inr u, t)" by blast
  obtain t' where c: "checked M Sqlerr t_num Commit t = (Inr (), t')"
    using succeeds_checked [OF assms(1), of Commit] unfolding succeeds_def by fastforce
  have body: "payment_body M t_num w_id d_id byname c_w_id c_d_id c_id c_last h_amount ?s = (Inr 1, t')"
    using w c by (simp add: payment_body_def bnd_def thn_def ret_eq)
  have "payment M t_num w_id d_id byname c_w_id c_d_id c_id c_last h_amount s = (Inr 1, t')"
    unfolding payment_def by (rule succeeds_frame) (rule body)
  moreover from traced_ok [OF payment_body_traced body] obtain es
    where "log t' = log s @ es" "committed t_num es" by auto
  ultimately show ?thesis by blast
qed

lemma cstr_eq:
  assumes "take n mem = str" and "length str = n" and "n < length mem" and "mem ! n = CHR 0x00"
    and "CHR 0x00 \<notin> set str"
  shows "cstr mem = str"
proof -
  have "mem = str @ CHR 0x00 # drop (Suc n) mem"
    using assms(1,3,4) id_take_nth_drop [of n mem] by simp
  then have "cstr mem = takeWhile (\<lambda>c. c \<noteq> CHR 0x00) (str @ CHR 0x00 # drop (Suc n) mem)"
    by (metis cstr_def)
  also have "\<dots> = str" using assms(5) by (subst takeWhile_append2) auto
  finally show ?thesis .
qed

lemma h_data_cat:
  fixes x :: char
  assumes "CHR 0x00 \<notin> set w" and "CHR 0x00 \<notin> set d"
  defines "h1 \<equiv> (write_bytes 0 (strncpy_bytes 10 w) (replicate 26 x))[10 := CHR 0x00]"
  shows "cstr h1 = take 10 w"
    and "take (length (take 10 w @ take 10 d)) (write_bytes (length (take 10 w)) (take 10 d @ [CHR 0x00]) h1) =
      take 10 w @ take 10 d"
    and "write_bytes (length (take 10 w)) (take 10 d @ [CHR 0x00]) h1 !
      length (take 10 w @ take 10 d) = CHR 0x00"
    and "length (write_bytes (length (take 10 w)) (take 10 d @ [CHR 0x00]) h1) = 26"
proof -
  have len: "length (strncpy_bytes 10 w) = 10" by (simp add: strncpy_bytes_def)
  then have h1: "h1 = strncpy_bytes 10 w @ CHR 0x00 # replicate 15 x"
    using replicate_Suc [of 15 x] by (simp add: h1_def write_bytes_def list_update_append)
  have take: "take (length (take 10 w)) h1 = take 10 w"
    by (cases "length w \<le> 10") (simp_all add: h1 strncpy_bytes_def)
  show "cstr h1 = take 10 w"
  proof (rule cstr_eq [OF take])
    show "h1 ! length (take 10 w) = CHR 0x00"
      by (simp add: h1 strncpy_bytes_def nth_append min_def)
    show "CHR 0x00 \<notin> set (take 10 w)" using assms(1) by (auto dest: in_set_takeD)
    show "length (take 10 w) < length h1" using len by (simp add: h1)
  qed simp
  show "take (length (take 10 w @ take 10 d)) (write_bytes (length (take 10 w)) (take 10 d @ [CHR 0x00]) h1) =
      take 10 w @ take 10 d"
    unfolding write_bytes_def take by (metis append.assoc append_eq_conv_conj)
  show "write_bytes (length (take 10 w)) (take 10 d @ [CHR 0x00]) h1 !
      length (take 10 w @ take 10 d) = CHR 0x00"
    unfolding write_bytes_def take
    by (metis append.assoc append_Cons nth_append_length)
  show "length (write_bytes (length (take 10 w)) (take 10 d @ [CHR 0x00]) h1) = 26"
    unfolding write_bytes_def take using len by (simp add: h1)
qed

section \<open>An example with bad credit\<close>

text \<open>What the rows of a run satisfy when every row of the server does.\<close>

definition answers :: "(row \<Rightarrow> bool) \<Rightarrow> event list \<Rightarrow> bool" where
  "answers P es \<longleftrightarrow> (\<forall>r \<in> set (rows_of es). P r)"

definition serves :: "'s server \<Rightarrow> (row \<Rightarrow> bool) \<Rightarrow> bool" where
  "serves M P \<longleftrightarrow> (\<forall>t_num c w. P (fst (snd (M t_num c w))))"

interpretation ans: trace_class "answers P" "\<lambda>_. answers P" for P
  by unfold_locales (auto simp: answers_def)

lemma sql_answers:
  assumes "serves M P"
  shows "traced (\<lambda>_. answers P) (\<lambda>_. answers P) (sql M t_num c)"
proof (rule tracedI)
  fix s :: "('a, 'b) db_scheme"
  obtain rc r w where run: "M t_num c (srv s) = (rc, r, w)" by (metis prod.collapse)
  with assms have "P r" unfolding serves_def by (metis fst_conv snd_conv)
  then have "answers P [Call t_num c rc r]" by (cases c) (auto simp: answers_def)
  with run show "\<exists>es. log (snd (sql M t_num c s)) = log s @ es \<and>
    (case fst (sql M t_num c s) of Inl e \<Rightarrow> answers P es | Inr a \<Rightarrow> answers P es)"
    by (auto simp: sql_def)
qed

lemma checked_answers:
  "serves M P \<Longrightarrow> traced (\<lambda>_. answers P) (\<lambda>_. answers P) (checked M err t_num c)"
  unfolding checked_def
  by (intro ans.bnd_traced sql_answers) (auto intro!: traced_intros ans.good_Nil split: prod.splits)

lemma calls_answers:
  "serves M P \<Longrightarrow> traced (\<lambda>_. answers P) (\<lambda>_. answers P) (sql_exec M err t_num k ps)"
  "serves M P \<Longrightarrow> traced (\<lambda>_. answers P) (\<lambda>_. answers P) (open_result M err t_num k cols)"
  "serves M P \<Longrightarrow> traced (\<lambda>_. answers P) (\<lambda>_. answers P) (free_result M t_num k)"
  unfolding sql_exec_def open_result_def free_result_def
  by (auto intro!: ans.thn_traced ans.bnd_traced checked_answers sql_answers ans.ret_traced)

lemma fetch_row_answers:
  "serves M P \<Longrightarrow> traced (\<lambda>_. answers P) (\<lambda>_. answers P) (fetch_row M lbl t_num k oks)"
  unfolding fetch_row_def
  by (intro ans.bnd_traced sql_answers)
    (auto intro!: ans.ret_traced ans.thn_traced calls_answers ans.halt_traced ans.good_Nil
      split: prod.splits)

lemma query1_answers:
  "serves M P \<Longrightarrow> traced (\<lambda>_. answers P) (\<lambda>_. answers P) (query1 M err t_num k ps cols oks)"
  unfolding query1_def by (intro ans.thn_traced ans.bnd_traced calls_answers fetch_row_answers ans.ret_traced)

lemma payment_body_answers:
  "serves M P \<Longrightarrow> traced (\<lambda>_. answers P) (\<lambda>_. answers P)
     (payment_body M t_num w_id d_id byname c_w_id c_d_id c_id c_last_arg h_amount)"
  unfolding payment_body_def payment_parts
  by (intro traced_intros query1_answers calls_answers fetch_row_answers checked_answers)
    (simp_all add: ans.good_Nil)

text \<open>A server whose strings are all \<open>BC\<close>.\<close>

definition strict_server :: "nat server" where
  "strict_server t_num c w =
     (case calm_server t_num c w of (rc, r, w') \<Rightarrow> (rc, r\<lparr>col_str := \<lambda>_. ''BC''\<rparr>, w'))"

lemma strict_obliging: "obliging strict_server"
  using calm_obliging by (simp add: obliging_def strict_server_def case_prod_beta)

lemma strict_serves: "serves strict_server (\<lambda>r. bad_credit r)"
  by (simp add: serves_def strict_server_def bad_credit_def split: prod.splits)

section \<open>Properties\<close>

text \<open>
  Property C4. The outcome of Payment, for every behaviour of the server: it returns 1 after
  a run in which every call was accepted and that ends with the one commit, or 0 after the
  first call that fails, followed only by the freeing of the result, the report and the
  rollback, with nothing committed.
\<close>

theorem payment_outcome:
  "\<exists>es. log (snd (payment M t_num w_id d_id byname c_w_id c_d_id c_id c_last_arg h_amount s)) =
      log s @ es \<and>
    (case fst (payment M t_num w_id d_id byname c_w_id c_d_id c_id c_last_arg h_amount s) of
       Inr v \<Rightarrow> v = 1 \<and> committed t_num es \<or> v = 0 \<and> given_up ''payment'' t_num es
     | Inl e \<Rightarrow> \<forall>l. e \<noteq> Goto l)"
  using payment_traced [unfolded traced_def no_escape_def] by blast



text \<open>
  Payment does not change the data of a customer with bad credit: the string
  that statement 17 writes to \<open>c_data\<close> is the one that statement 16 has just read from it,
  not the new one that the comment of the code and the local \<open>c_new_data\<close> are about.
\<close>

theorem payment_keeps_c_data:
  assumes "payment M t_num w_id d_id byname c_w_id c_d_id c_id c_last h_amount s = (Inr 1, t)"
    and "log t = log s @ es" and "BindParam 17 ps \<in> set (cmds es)"
  shows "\<exists>r c. r = last (rows_of es) \<and> ps ! 1 = PString (col_str r 0) \<and>
    BindParam 16 [PLong c_w_id, PLong c_d_id, PLong c] \<in> set (cmds es) \<and>
    drop 2 ps = [PLong c_w_id, PLong c_d_id, PLong c]"
proof -
  obtain datetime w_row d_row names c_row data where
    "length data = (if bad_credit c_row then 1 else 0)" and
    cmds: "cmds es = run_of (payment_script w_id d_id byname c_w_id c_d_id c_id c_last h_amount
      datetime w_row d_row names c_row data)" and
    rows: "rows_of es = [w_row, d_row] @ names @ [c_row] @ data"
    using payment_committed_did [OF assms(1,2)] by blast
  moreover have "bad_credit c_row"
    using assms(3) unfolding cmds by (auto simp: payment_script_def Let_def split: if_splits)
  ultimately obtain r where data: "data = [r]" by (auto simp: length_Suc_conv)
  have ps: "ps = [PFloat (f32 (col_float c_row 12 + h_amount)), PString (col_str r 0), PLong c_w_id,
      PLong c_d_id, PLong (chosen c_id names)]"
    using assms(3) unfolding cmds data by (auto simp: payment_script_def Let_def split: if_splits)
  show ?thesis
    unfolding cmds rows data ps using \<open>bad_credit c_row\<close>
    by (intro exI [of _ r] exI [of _ "chosen c_id names"]) (simp add: payment_script_def Let_def)
qed

theorem payment_keeps_c_data_witness:
  "\<exists>t es ps r c. payment strict_server 0 1 2 False 1 2 3 ''BARBARBAR'' 5 example_db = (Inr 1, t) \<and>
    log t = log example_db @ es \<and> BindParam 17 ps \<in> set (cmds es) \<and>
    r = last (rows_of es) \<and> ps ! 1 = PString (col_str r 0) \<and>
    BindParam 16 [PLong 1, PLong 2, PLong c] \<in> set (cmds es) \<and>
    drop 2 ps = [PLong 1, PLong 2, PLong c]"
proof -
  obtain t es where run:
    "payment strict_server 0 1 2 False 1 2 3 ''BARBARBAR'' 5 example_db = (Inr 1, t)"
    "log t = log example_db @ es"
    using payment_obliging_committed [OF strict_obliging example_stamp] by blast
  obtain datetime w_row d_row names c_row data where
    cmds: "cmds es = run_of (payment_script 1 2 False 1 2 3 ''BARBARBAR'' 5
      datetime w_row d_row names c_row data)" and
    rows: "rows_of es = [w_row, d_row] @ names @ [c_row] @ data"
    using payment_committed_did [OF run] by blast
  have "payment_body strict_server 0 1 2 False 1 2 3 ''BARBARBAR'' 5 (example_db\<lparr>proceed := 0\<rparr>) =
    (Inr 1, t)"
    using sqlerr_frame_1 [OF run(1) [unfolded payment_def]] by (simp add: thn_def bnd_def set_proceed_def modify_def)
  from traced_ok [OF payment_body_answers [OF strict_serves] this] run(2)
  have "answers (\<lambda>r. bad_credit r) es" by simp
  then have "bad_credit c_row" by (simp add: answers_def rows)
  then obtain ps where ps: "BindParam 17 ps \<in> set (cmds es)"
    by (auto simp: cmds payment_script_def Let_def)
  from payment_keeps_c_data [OF run ps] obtain r c where
    "r = last (rows_of es) \<and> ps ! 1 = PString (col_str r 0) \<and>
     BindParam 16 [PLong 1, PLong 2, PLong c] \<in> set (cmds es) \<and>
     drop 2 ps = [PLong 1, PLong 2, PLong c]" by blast
  with run ps show ?thesis by blast
qed

text \<open>
  The text of the history row is the name of the warehouse followed by the name
  of the district, each cut at 10 characters; the four blanks appear only when both fill
  their 10 places, since otherwise a NUL comes first. It fits the 24 characters of the column.
\<close>

theorem h_data_contents:
  assumes "CHR 0x00 \<notin> set w_name" and "CHR 0x00 \<notin> set d_name"
  shows "h_data_of w_name d_name =
    (let names = take 10 w_name @ take 10 d_name
     in if length names < 20 then names else names @ ''    '') \<and>
    length (h_data_of w_name d_name) \<le> 24"
proof -
  let ?n = "take 10 w_name @ take 10 d_name"
  define h2 where "h2 = write_bytes (length (take 10 w_name)) (take 10 d_name @ [CHR 0x00])
    ((write_bytes 0 (strncpy_bytes 10 w_name) (replicate 26 (CHR ''?'')))[10 := CHR 0x00])"
  note cat = h_data_cat [OF assms, where x = "CHR ''?''", folded h2_def]
  define h3 where "h3 = h2[20 := CHR '' '', 21 := CHR '' '', 22 := CHR '' '', 23 := CHR '' '',
    24 := CHR 0x00]"
  have eq: "h_data_of w_name d_name = cstr h3"
    by (simp only: h_data_of_def Let_def cat(1) h2_def h3_def)
  have nul: "CHR 0x00 \<notin> set ?n" using assms by (auto dest: in_set_takeD)
  have "length ?n \<le> 20" by simp
  then consider "length ?n < 20" | "length ?n = 20" by linarith
  then show ?thesis
  proof cases
    case 1
    have "cstr h3 = ?n"
    proof (rule cstr_eq)
      show "take (length ?n) h3 = ?n" using 1 cat(2) by (simp add: h3_def)
      show "h3 ! length ?n = CHR 0x00" using 1 cat(3) by (simp add: h3_def)
      show "length ?n < length h3" using 1 cat(4) by (simp add: h3_def)
    qed (use nul in simp_all)
    with 1 eq show ?thesis by (simp add: Let_def)
  next
    case 2
    have "take 20 h2 = ?n" using cat(2) 2 by simp
    moreover have "h3 = take 20 h2 @ ''    '' @ CHR 0x00 # drop 25 h2"
      using cat(4)
      by (intro nth_equalityI)
        (auto simp: h3_def nth_list_update nth_append nth_Cons' less_Suc_eq numeral_eq_Suc)
    ultimately have "cstr h3 = takeWhile (\<lambda>c. c \<noteq> CHR 0x00) ((?n @ ''    '') @ CHR 0x00 # drop 25 h2)"
      by (metis cstr_def append.assoc)
    also have "\<dots> = ?n @ ''    ''" using nul by (subst takeWhile_append2) auto
    finally show ?thesis using 2 eq by (simp add: Let_def)
  qed
qed

theorem h_data_contents_witness:
  "h_data_of ''abcdefghij'' ''klm'' =
    (let names = take 10 ''abcdefghij'' @ take 10 ''klm''
     in if length names < 20 then names else names @ ''    '') \<and>
    length (h_data_of ''abcdefghij'' ''klm'') \<le> 24"
  by (rule h_data_contents) simp_all

end
