(* ===== verification/Ordstat.thy ===== *)
theory Ordstat
  imports Payment
begin

text \<open>
  The Order-Status transaction, \<^verbatim>\<open>tpcc-mysql/src/ordstat.c\<close>, one definition per statement.
  The loop over the order lines ends when the server reports the end of the data; the model
  gives it \<open>fuel\<close> steps, and \<open>ordstat_enough_fuel\<close> below shows that a fuel above the number
  of lines is never used up and never changes the result.
\<close>

section \<open>Statements\<close>

definition os_namecnt :: "'s server \<Rightarrow> int \<Rightarrow> int \<Rightarrow> int \<Rightarrow> string \<Rightarrow> (('s, 'z) db_scheme, row) cm" where
  "os_namecnt M t_num c_w_id c_d_id c_last = thn (set_proceed 1)
     (query1 M Sqlerr t_num 20 [PLong c_w_id, PLong c_d_id, PString c_last] [ColLong] [0])"

text \<open>The cursor over the customers of a name: the rows do not contain \<open>c_id\<close>.\<close>

definition os_byname :: "'s server \<Rightarrow> int \<Rightarrow> int \<Rightarrow> int \<Rightarrow> string \<Rightarrow> int \<Rightarrow>
    (('s, 'z) db_scheme, unit) cm" where
  "os_byname M t_num c_w_id c_d_id c_last namecnt = thn (set_proceed 2)
    (thn (sql_exec M Sqlerr t_num 21 [PLong c_w_id, PLong c_d_id, PString c_last])
    (thn (open_result M Sqlerr t_num 21 [ColFloat, ColString 17, ColString 3, ColString 17])
    (bnd (cfold [0..midpoint namecnt - 1] (\<lambda>_ _. thn (set_proceed 4)
            (bnd (fetch_row M (\<lambda>_. Sqlerr) t_num 21 [0, MYSQL_DATA_TRUNCATED]) (\<lambda>r. ret ()))) ()) (\<lambda>_.
     thn (set_proceed 5)
    (thn (free_result M t_num 21) (ret ()))))))"

definition os_bynumber :: "'s server \<Rightarrow> int \<Rightarrow> int \<Rightarrow> int \<Rightarrow> int \<Rightarrow> (('s, 'z) db_scheme, row) cm" where
  "os_bynumber M t_num c_w_id c_d_id c_id = thn (set_proceed 6)
     (query1 M Sqlerr t_num 22 [PLong c_w_id, PLong c_d_id, PLong c_id]
        [ColFloat, ColString 17, ColString 3, ColString 17] [0, MYSQL_DATA_TRUNCATED])"

definition os_last_order :: "'s server \<Rightarrow> int \<Rightarrow> int \<Rightarrow> int \<Rightarrow> int \<Rightarrow> (('s, 'z) db_scheme, row) cm" where
  "os_last_order M t_num c_w_id c_d_id c_id = thn (set_proceed 7)
     (query1 M Sqlerr t_num 23 [PLong c_w_id, PLong c_d_id, PLong c_id, PLong c_w_id,
        PLong c_d_id, PLong c_id] [ColLong, ColString 25, ColLong] [0])"

primrec fetch_items :: "'s server \<Rightarrow> int \<Rightarrow> nat \<Rightarrow> (('s, 'z) db_scheme, unit) cm" where
  "fetch_items M t_num 0 = halt OutOfFuel"
| "fetch_items M t_num (Suc fuel) = thn (set_proceed 10)
     (bnd (sql M t_num (Fetch 24)) (\<lambda>(rc, r).
        if rc = 0 \<or> rc = MYSQL_DATA_TRUNCATED then fetch_items M t_num fuel
        else if rc = MYSQL_NO_DATA then free_result M t_num 24
        else thn (free_result M t_num 24) (halt (Goto Sqlerr))))"

definition os_items :: "'s server \<Rightarrow> nat \<Rightarrow> int \<Rightarrow> int \<Rightarrow> int \<Rightarrow> int \<Rightarrow> (('s, 'z) db_scheme, unit) cm" where
  "os_items M fuel t_num c_w_id c_d_id o_id = thn (set_proceed 8)
    (thn (sql_exec M Sqlerr t_num 24 [PLong c_w_id, PLong c_d_id, PLong o_id])
    (thn (open_result M Sqlerr t_num 24 [ColLong, ColLong, ColLong, ColFloat, ColString 25])
      (fetch_items M t_num fuel)))"

section \<open>The transaction\<close>

definition os_customer :: "'s server \<Rightarrow> int \<Rightarrow> bool \<Rightarrow> int \<Rightarrow> int \<Rightarrow> int \<Rightarrow> string \<Rightarrow>
    (('s, 'z) db_scheme, unit) cm" where
  "os_customer M t_num byname c_w_id c_d_id c_id c_last_arg =
     (if byname then
        bnd (os_namecnt M t_num c_w_id c_d_id c_last_arg) (\<lambda>r.
          os_byname M t_num c_w_id c_d_id c_last_arg (col_long r 0))
      else bnd (os_bynumber M t_num c_w_id c_d_id c_id) (\<lambda>_. ret ()))"

definition ordstat_work :: "'s server \<Rightarrow> nat \<Rightarrow> int \<Rightarrow> int \<Rightarrow> int \<Rightarrow> bool \<Rightarrow> int \<Rightarrow> string \<Rightarrow>
    (('s, 'z) db_scheme, unit) cm" where
  "ordstat_work M fuel t_num w_id d_id byname c_id c_last_arg =
     (let c_d_id = d_id; c_w_id = w_id in
      thn (os_customer M t_num byname c_w_id c_d_id c_id c_last_arg)
     (bnd (os_last_order M t_num c_w_id c_d_id c_id) (\<lambda>o_row.
        os_items M fuel t_num c_w_id c_d_id (col_long o_row 0))))"

definition ordstat_body :: "'s server \<Rightarrow> nat \<Rightarrow> int \<Rightarrow> int \<Rightarrow> int \<Rightarrow> bool \<Rightarrow> int \<Rightarrow> string \<Rightarrow>
    (('s, 'z) db_scheme, int) cm" where
  "ordstat_body M fuel t_num w_id d_id byname c_id c_last_arg =
     bnd (ordstat_work M fuel t_num w_id d_id byname c_id c_last_arg) (\<lambda>_.
     thn (checked M Sqlerr t_num Commit) (ret 1))"

definition ordstat :: "'s server \<Rightarrow> nat \<Rightarrow> int \<Rightarrow> int \<Rightarrow> int \<Rightarrow> bool \<Rightarrow> int \<Rightarrow> string \<Rightarrow>
    (('s, 'z) db_scheme, int) cm" where
  "ordstat M fuel t_num w_id d_id byname c_id c_last_arg =
     handle (thn (set_proceed 0) (ordstat_body M fuel t_num w_id d_id byname c_id c_last_arg))
       (\<lambda>e. if e = Goto Sqlerr then sqlerr M ''ordstat'' t_num else halt e)"

section \<open>Lemmas: outcome\<close>

lemma fetch_items_disc [traced_intros]:
  "traced (\<lambda>_. clean_run t_num) (first_failure {Sqlerr} t_num)
     (fetch_items M t_num fuel :: (('s, 'z) db_scheme, unit) cm)"
proof (induction fuel)
  case 0
  show ?case
    unfolding fetch_items.simps by (rule disc.halt_traced) (simp add: first_failure_def)
next
  case (Suc fuel)
  have one: "traced (\<lambda>(rc, r) es. es = [Call t_num (Fetch 24) rc r]) E (sql M t_num (Fetch 24))" for E
    by (rule traced_sql) simp
  have stop: "traced (\<lambda>_ _. False) (\<lambda>e es. e = Goto Sqlerr \<and> (\<exists>rc r. es = [Call t_num (FreeResult 24) rc r]))
      (thn (free_result M t_num 24) (halt (Goto Sqlerr)))"
    by (rule tracedI) (auto simp: free_result_def sql_def run_simps split: prod.splits)
  let ?ok = "\<lambda>rc. rc = 0 \<or> rc = MYSQL_DATA_TRUNCATED \<or> rc = MYSQL_NO_DATA"
  have "traced (\<lambda>_. clean_run t_num) (first_failure {Sqlerr} t_num) (bnd (sql M t_num (Fetch 24)) (\<lambda>(rc, r).
        if rc = 0 \<or> rc = MYSQL_DATA_TRUNCATED then (fetch_items M t_num fuel :: (('s, 'z) db_scheme, unit) cm)
        else if rc = MYSQL_NO_DATA then free_result M t_num 24
        else thn (free_result M t_num 24) (halt (Goto Sqlerr))))"
  proof (rule traced_bnd [OF one, where E = "\<lambda>_ _. False"])
    show "traced (\<lambda>_ es. ?ok (fst a) \<and> clean_run t_num es)
        (\<lambda>e es. if ?ok (fst a) then first_failure {Sqlerr} t_num e es
          else e = Goto Sqlerr \<and> (\<exists>rc r. es = [Call t_num (FreeResult 24) rc r]))
        ((\<lambda>(rc, r). if rc = 0 \<or> rc = MYSQL_DATA_TRUNCATED then (fetch_items M t_num fuel :: (('s, 'z) db_scheme, unit) cm)
          else if rc = MYSQL_NO_DATA then free_result M t_num 24
          else thn (free_result M t_num 24) (halt (Goto Sqlerr))) a)" for a
      using Suc.IH by (auto simp: case_prod_beta MYSQL_DATA_TRUNCATED_def MYSQL_NO_DATA_def
          intro: traced_conseq [OF free_result_disc] traced_conseq [OF stop])
    show "clean_run t_num (es @ es')"
      if "(\<lambda>(rc, r) es. es = [Call t_num (Fetch 24) rc r]) a es" "?ok (fst a) \<and> clean_run t_num es'"
      for a es es'
      using that by (auto simp: truncation_allowed_def read_to_end_def)
    show "first_failure {Sqlerr} t_num e (es @ es')"
      if "(\<lambda>(rc, r) es. es = [Call t_num (Fetch 24) rc r]) a es"
        "if ?ok (fst a) then first_failure {Sqlerr} t_num e es'
          else e = Goto Sqlerr \<and> (\<exists>rc r. es' = [Call t_num (FreeResult 24) rc r])" for a e es es'
    proof (cases "?ok (fst a)")
      case True
      with that have "clean_run t_num es"
        by (auto simp: truncation_allowed_def read_to_end_def split: prod.splits)
      with True that(2) show ?thesis by (auto intro: disc.bad_append)
    next
      case False
      with that show ?thesis by (auto simp: case_prod_beta intro!: first_failureI)
    qed
  qed simp
  then show ?case by (simp add: set_proceed_then)
qed

lemma fetch_items_in_txn [traced_intros]:
  "traced (\<lambda>_. in_txn) (\<lambda>_. in_txn) (fetch_items M t_num fuel)"
proof (induction fuel)
  case 0
  show ?case by (simp add: itx.halt_traced itx.good_Nil)
next
  case (Suc fuel)
  show ?case
    by (simp, intro itx.thn_traced itx.bnd_traced sql_in_txn traced_intros)
      (auto intro!: traced_intros itx.good_Nil Suc.IH split: prod.splits)
qed

lemmas ordstat_parts = ordstat_work_def os_customer_def os_namecnt_def os_byname_def
  os_bynumber_def os_last_order_def os_items_def Let_def

lemma ordstat_work_disc:
  "traced (\<lambda>_. clean_run t_num) (first_failure {Sqlerr} t_num)
     (ordstat_work M fuel t_num w_id d_id byname c_id c_last_arg)"
  unfolding ordstat_parts
  by (intro traced_intros)
    (auto simp: fetch_oks_simps truncation_allowed_def read_to_end_def first_failure_def)

lemma ordstat_work_in_txn:
  "traced (\<lambda>_. in_txn) (\<lambda>_. in_txn) (ordstat_work M fuel t_num w_id d_id byname c_id c_last_arg)"
  unfolding ordstat_parts
  by (intro traced_intros)

lemma ordstat_body_traced:
  "traced (\<lambda>v es. v = 1 \<and> committed t_num es) (\<lambda>e es. first_failure {Sqlerr} t_num e es \<and> uncommitted es)
     (ordstat_body M fuel t_num w_id d_id byname c_id c_last_arg)"
  unfolding ordstat_body_def
  by (rule work_then_commit [OF ordstat_work_disc ordstat_work_in_txn _ ret_1_traced]) simp

lemma ordstat_traced:
  "traced (\<lambda>v es. v = 1 \<and> committed t_num es \<or> v = 0 \<and> given_up ''ordstat'' t_num es) no_escape
     (ordstat M fuel t_num w_id d_id byname c_id c_last_arg)"
  unfolding ordstat_def by (rule sqlerr_frame [OF set_proceed_then [OF ordstat_body_traced]])

interpretation ordstat_txn: transaction
  "ordstat M fuel t_num w_id d_id byname c_id c_last_arg" "committed t_num" "given_up ''ordstat'' t_num"
  for M fuel t_num w_id d_id byname c_id c_last_arg
  by unfold_locales (rule ordstat_traced)

section \<open>Lemmas: results are freed\<close>

lemma sql_fetch_quiet: "traced (\<lambda>_. quiet) E (sql M t_num (Fetch k))"
  by (rule traced_sql) (simp add: quiet_def)

lemma free_then_halt:
  "traced (\<lambda>_ _. False) (\<lambda>e' es. e' = e \<and> shut k es) (thn (free_result M t_num k) (halt e))"
  by (rule tracedI) (auto simp: free_result_def sql_def run_simps shut_def split: prod.splits)

lemma shut_cursor: "shut k es \<Longrightarrow> e \<noteq> Goto Sqlerr2 \<Longrightarrow> cursor_freed k e es"
  by (simp add: cursor_freed_def)

lemma fetch_items_shut:
  "traced (\<lambda>_. shut 24) (cursor_freed 24) (fetch_items M t_num fuel :: (('s, 'z) db_scheme, unit) cm)"
proof (induction fuel)
  case 0
  show ?case
    unfolding fetch_items.simps by (rule tracedI) (simp add: halt_eq cursor_freed_def)
next
  case (Suc fuel)
  show ?case
    unfolding fetch_items.simps
  proof (rule set_proceed_then, rule traced_bnd [OF sql_fetch_quiet, where E = "\<lambda>_ _. False"])
    show "traced (\<lambda>_. shut 24) (cursor_freed 24)
        ((\<lambda>(rc, r). if rc = 0 \<or> rc = MYSQL_DATA_TRUNCATED
          then (fetch_items M t_num fuel :: (('s, 'z) db_scheme, unit) cm)
          else if rc = MYSQL_NO_DATA then free_result M t_num 24
          else thn (free_result M t_num 24) (halt (Goto Sqlerr))) a)" for a
      using Suc.IH
      by (auto simp: case_prod_beta intro: traced_conseq [OF free_result_shut]
          traced_conseq [OF free_then_halt] shut_cursor)
  qed (auto intro: quiet_shut cur.bad_append)
qed

lemma os_byname_freed [traced_intros]:
  "traced (\<lambda>_. quiet) freed (os_byname M t_num c_w_id c_d_id c_last namecnt)"
proof -
  have "traced (\<lambda>_. quiet) (cursor_freed 21) (cfold [0..midpoint namecnt - 1] (\<lambda>_ _. thn (set_proceed 4)
      (bnd (fetch_row M (\<lambda>_. Sqlerr) t_num 21 [0, MYSQL_DATA_TRUNCATED]) (\<lambda>r. ret ()))) ())"
    by (intro cur.cfold_traced cur.thn_traced cur.bnd_traced cur.ret_traced cur.set_proceed_traced
        fetch_row_cursor) simp
  then have "traced (\<lambda>_. shut 21) (cursor_freed 21) (bnd (cfold [0..midpoint namecnt - 1] (\<lambda>_ _. thn (set_proceed 4)
      (bnd (fetch_row M (\<lambda>_. Sqlerr) t_num 21 [0, MYSQL_DATA_TRUNCATED]) (\<lambda>r. ret ()))) ())
      (\<lambda>_. thn (set_proceed 5) (thn (free_result M t_num 21) (ret ()))))"
    by (rule traced_bnd [OF _ set_proceed_then [OF free_result_then_ret]])
      (auto intro: quiet_shut)
  note opened_then [OF this]
  then show ?thesis
    unfolding os_byname_def by (intro set_proceed_then frd.thn_traced [OF sql_exec_freed]) simp
qed

lemma ordstat_freed:
  "traced (\<lambda>_ es. leak es \<or> quiet es) (\<lambda>_ _. True)
     (ordstat M fuel t_num w_id d_id byname c_id c_last_arg)"
proof -
  have items: "traced (\<lambda>_. quiet) freed (os_items M fuel t_num c_w_id c_d_id o_id)" for c_w_id c_d_id o_id
    unfolding os_items_def
    by (intro set_proceed_then frd.thn_traced [OF sql_exec_freed] opened_then [OF fetch_items_shut]) simp
  have body: "traced (\<lambda>_. quiet) freed (ordstat_body M fuel t_num w_id d_id byname c_id c_last_arg)"
    unfolding ordstat_body_def ordstat_work_def os_customer_def os_namecnt_def os_bynumber_def
      os_last_order_def Let_def
    by (intro traced_intros items)
  show ?thesis
    unfolding ordstat_def
    by (rule handler_freed [OF set_proceed_then [OF body]])
      (auto intro: halt_freed traced_conseq [OF sqlerr_freed])
qed

section \<open>Lemmas: the statements of a successful run\<close>

lemma fetch_items_did: "fetch_items M t_num fuel s = (Inr u, t) \<Longrightarrow> \<exists>rows. did s t [] rows"
proof (induction fuel arbitrary: s)
  case (Suc fuel)
  obtain rc r w where run: "M t_num (Fetch 24) (srv s) = (rc, r, w)" by (metis prod.collapse)
  let ?s = "s\<lparr>proceed := 10, srv := w, log := log s @ [Call t_num (Fetch 24) rc r]\<rparr>"
  have d: "did s ?s [] (if rc = 0 \<or> rc = MYSQL_DATA_TRUNCATED then [r] else [])"
    by (simp add: did_def)
  have "(if rc = 0 \<or> rc = MYSQL_DATA_TRUNCATED then fetch_items M t_num fuel
      else if rc = MYSQL_NO_DATA then free_result M t_num 24
      else thn (free_result M t_num 24) (halt (Goto Sqlerr))) ?s = (Inr u, t)"
    using Suc.prems run by (simp add: thn_def bnd_def set_proceed_def sql_def)
  then have "\<exists>rows. did ?s t [] rows"
    using Suc.IH [of ?s] free_result_did [of M t_num 24 ?s u t]
    by (auto simp: thn_ok split: if_splits)
  with d did_trans show ?case by (metis append_Nil)
qed (simp add: halt_eq)

text \<open>The statements, with the number of the customer in the third one of each branch.\<close>

definition ordstat_script :: "int \<Rightarrow> int \<Rightarrow> bool \<Rightarrow> int \<Rightarrow> string \<Rightarrow> int \<Rightarrow> (nat \<times> param list) list" where
  "ordstat_script w_id d_id byname c_id c_last o_id =
     (if byname then [(20, [PLong w_id, PLong d_id, PString c_last]),
                      (21, [PLong w_id, PLong d_id, PString c_last])]
      else [(22, [PLong w_id, PLong d_id, PLong c_id])]) @
     [(23, [PLong w_id, PLong d_id, PLong c_id, PLong w_id, PLong d_id, PLong c_id]),
      (24, [PLong w_id, PLong d_id, PLong o_id])]"

lemma os_customer_did:
  assumes "os_customer M t_num byname w_id d_id c_id c_last s = (Inr u, t)"
  shows "\<exists>rows. did s t (if byname then [(20, [PLong w_id, PLong d_id, PString c_last]),
      (21, [PLong w_id, PLong d_id, PString c_last])]
      else [(22, [PLong w_id, PLong d_id, PLong c_id])]) rows"
proof (cases byname)
  case True
  with assms obtain r s1 u0 s2 u1 s3 u2 s4 u3 s5 u5 s6 u6 where
    1: "os_namecnt M t_num w_id d_id c_last s = (Inr r, s1)" and
    2: "set_proceed 2 s1 = (Inr u0, s2)" and
    3: "sql_exec M Sqlerr t_num 21 [PLong w_id, PLong d_id, PString c_last] s2 = (Inr u1, s3)" and
    4: "open_result M Sqlerr t_num 21 [ColFloat, ColString 17, ColString 3, ColString 17] s3 = (Inr u2, s4)" and
    5: "cfold [0..midpoint (col_long r 0) - 1] (\<lambda>_ _. thn (set_proceed 4)
      (bnd (fetch_row M (\<lambda>_. Sqlerr) t_num 21 [0, MYSQL_DATA_TRUNCATED]) (\<lambda>r. ret ()))) () s4 = (Inr u3, s5)" and
    6: "set_proceed 5 s5 = (Inr u5, s6)" and
    7: "free_result M t_num 21 s6 = (Inr u6, t)"
    by (auto simp: os_customer_def os_byname_def bnd_ok thn_ok)
  obtain rows where "did s4 s5 [] rows"
    using fetch_loop_did [OF 5] set_proceed_did by auto
  note run = did_trans [OF proceed_query_did [OF 1 [unfolded os_namecnt_def]]
      did_trans [OF set_proceed_did [OF 2] did_trans [OF sql_exec_did [OF 3]
      did_trans [OF open_result_did [OF 4] did_trans [OF this
      did_trans [OF set_proceed_did [OF 6] free_result_did [OF 7]]]]]]]
  then show ?thesis using True by (intro exI [of _ "r # rows"]) simp
next
  case False
  with assms obtain r where "os_bynumber M t_num w_id d_id c_id s = (Inr r, t)"
    by (auto simp: os_customer_def bnd_ok)
  from proceed_query_did [OF this [unfolded os_bynumber_def]] False show ?thesis by auto
qed

lemma ordstat_committed_did:
  assumes "ordstat M fuel t_num w_id d_id byname c_id c_last s = (Inr 1, t)"
    and "log t = log s @ es"
  shows "\<exists>o_row. o_row \<in> set (rows_of es) \<and>
    cmds es = run_of (ordstat_script w_id d_id byname c_id c_last (col_long o_row 0))"
proof -
  have "ordstat_body M fuel t_num w_id d_id byname c_id c_last (s\<lparr>proceed := 0\<rparr>) = (Inr 1, t)"
    by (rule sqlerr_frame_1 [OF assms(1) [unfolded ordstat_def]])
  then obtain a u where "ordstat_work M fuel t_num w_id d_id byname c_id c_last (s\<lparr>proceed := 0\<rparr>) = (Inr a, u)"
    and d: "did u t [] []"
    unfolding ordstat_body_def by (rule body_then_commit)
  then obtain u1 s1 o_row s2 u3 s3 u4 s4 u5 s5 where
    1: "os_customer M t_num byname w_id d_id c_id c_last (s\<lparr>proceed := 0\<rparr>) = (Inr u1, s1)" and
    2: "os_last_order M t_num w_id d_id c_id s1 = (Inr o_row, s2)" and
    3: "set_proceed 8 s2 = (Inr u3, s3)" and
    4: "sql_exec M Sqlerr t_num 24 [PLong w_id, PLong d_id, PLong (col_long o_row 0)] s3 = (Inr u4, s4)" and
    5: "open_result M Sqlerr t_num 24 [ColLong, ColLong, ColLong, ColFloat, ColString 25] s4 = (Inr u5, s5)" and
    6: "fetch_items M t_num fuel s5 = (Inr a, u)"
    by (auto simp: ordstat_work_def os_items_def Let_def bnd_ok thn_ok)
  obtain rows1 where step1: "did (s\<lparr>proceed := 0\<rparr>) s1 (if byname
      then [(20, [PLong w_id, PLong d_id, PString c_last]), (21, [PLong w_id, PLong d_id, PString c_last])]
      else [(22, [PLong w_id, PLong d_id, PLong c_id])]) rows1" using os_customer_did [OF 1] by blast
  obtain rows6 where step6: "did s5 u [] rows6" using fetch_items_did [OF 6] by blast
  note step2 = proceed_query_did [OF 2 [unfolded os_last_order_def], simplified]
  note run = did_trans [OF step1 did_trans [OF step2 did_trans [OF set_proceed_did [OF 3]
    did_trans [OF sql_exec_did [OF 4] did_trans [OF open_result_did [OF 5] did_trans [OF step6 d]]]]]]
  have "did (s\<lparr>proceed := 0\<rparr>) t (ordstat_script w_id d_id byname c_id c_last (col_long o_row 0))
      (rows1 @ o_row # rows6)"
    using run unfolding ordstat_script_def by (simp split del: if_split)
  with assms(2) show ?thesis by (auto simp: did_def)
qed

section \<open>Lemmas: the loop over the order lines ends\<close>

text \<open>A loop that has not used up its fuel behaves the same with more of it.\<close>

lemma fetch_items_more_fuel:
  "ends_within M t_num 24 n (srv s) \<Longrightarrow> n \<le> fuel \<Longrightarrow>
   fetch_items M t_num fuel s = fetch_items M t_num n s \<and> fst (fetch_items M t_num n s) \<noteq> Inl OutOfFuel"
proof (induction n arbitrary: s fuel)
  case (Suc n)
  obtain rc r w where run: "M t_num (Fetch 24) (srv s) = (rc, r, w)" by (metis prod.collapse)
  obtain f where f: "fuel = Suc f" "n \<le> f" using Suc.prems(2) by (cases fuel) auto
  let ?s = "s\<lparr>proceed := 10, srv := w, log := log s @ [Call t_num (Fetch 24) rc r]\<rparr>"
  have step: "fetch_items M t_num (Suc k) s =
      (if rc = 0 \<or> rc = MYSQL_DATA_TRUNCATED then fetch_items M t_num k
       else if rc = MYSQL_NO_DATA then free_result M t_num 24
       else thn (free_result M t_num 24) (halt (Goto Sqlerr))) ?s" for k
    using run by (simp add: thn_def bnd_def set_proceed_def sql_def)
  show ?case
  proof (cases "rc = 0 \<or> rc = MYSQL_DATA_TRUNCATED")
    case True
    with Suc.prems(1) run have "ends_within M t_num 24 n (srv ?s)" by auto
    from Suc.IH [OF this f(2)] True show ?thesis by (simp add: step f(1) del: fetch_items.simps)
  next
    case False
    then show ?thesis
      by (auto simp: step f(1) free_result_def sql_def run_simps simp del: fetch_items.simps
          split: prod.splits)
  qed
qed simp

lemma fetch_items_succeeds:
  assumes "obliging M"
  shows "ends_within M t_num 24 n (srv s) \<Longrightarrow> \<exists>u t. fetch_items M t_num n s = (Inr u, t)"
proof (induction n arbitrary: s)
  case (Suc n)
  obtain rc r w where run: "M t_num (Fetch 24) (srv s) = (rc, r, w)" by (metis prod.collapse)
  let ?s = "s\<lparr>proceed := 10, srv := w, log := log s @ [Call t_num (Fetch 24) rc r]\<rparr>"
  have step: "fetch_items M t_num (Suc n) s =
      (if rc = 0 \<or> rc = MYSQL_DATA_TRUNCATED then fetch_items M t_num n
       else if rc = MYSQL_NO_DATA then free_result M t_num 24
       else thn (free_result M t_num 24) (halt (Goto Sqlerr))) ?s"
    using run by (simp add: thn_def bnd_def set_proceed_def sql_def)
  have "accepts (Fetch 24) rc"
    using obliging_accepts [OF assms run] by simp
  moreover have "\<exists>u t. free_result M t_num 24 ?s = (Inr u, t)"
    using succeeds_calls(3) [of M t_num 24] by (auto simp: succeeds_def)
  ultimately show ?case
    using Suc.IH [of ?s] Suc.prems run by (auto simp: step simp del: fetch_items.simps)
qed simp

lemma ordstat_obliging_committed:
  assumes "obliging M" and "\<forall>w. ends_within M t_num 24 n w" and "n \<le> fuel"
  shows "\<exists>t es. ordstat M fuel t_num w_id d_id byname c_id c_last s = (Inr 1, t) \<and>
    log t = log s @ es \<and> committed t_num es"
proof -
  let ?s = "s\<lparr>proceed := 0\<rparr>"
  have items: "succeeds (fetch_items M t_num fuel)"
    unfolding succeeds_def
    using fetch_items_succeeds [OF assms(1)] fetch_items_more_fuel assms(2,3) by metis
  have "succeeds (ordstat_body M fuel t_num w_id d_id byname c_id c_last)"
    unfolding ordstat_body_def ordstat_parts
    using assms(1) items by (intro succeeds_intros) (simp_all add: read_to_end_def)
  then obtain v t where body: "ordstat_body M fuel t_num w_id d_id byname c_id c_last ?s = (Inr v, t)"
    unfolding succeeds_def by blast
  from traced_ok [OF ordstat_body_traced body] obtain es
    where es: "v = 1" "log t = log s @ es" "committed t_num es" by auto
  have "ordstat M fuel t_num w_id d_id byname c_id c_last s = (Inr v, t)"
    unfolding ordstat_def by (rule succeeds_frame) (rule body)
  with es show ?thesis by blast
qed

section \<open>Properties\<close>

text \<open>
  Order-Status returns, and commits, when the server accepts every call and its
  result ends within \<open>n\<close> fetches: any fuel from \<open>n\<close> on is enough for the loop that the code
  writes without a bound.
\<close>

theorem ordstat_enough_fuel:
  assumes "obliging M" and "\<forall>w. ends_within M t_num 24 n w" and "n \<le> fuel"
  shows "\<exists>t es. ordstat M fuel t_num w_id d_id byname c_id c_last s = (Inr 1, t) \<and>
    log t = log s @ es \<and> committed t_num es"
  by (rule ordstat_obliging_committed [OF assms])

theorem ordstat_enough_fuel_witness:
  "\<exists>t es. ordstat calm_server 4 0 1 2 True 3 ''BARBARBAR'' example_db = (Inr 1, t) \<and>
    log t = log example_db @ es \<and> committed 0 es"
  by (rule ordstat_enough_fuel [OF calm_obliging, where n = 3]) (simp_all add: calm_ends)

text \<open>
  The order that a successful Order-Status looks up is the last one of customer
  \<open>c_id\<close>, the number given by the caller, also when the customer was selected by name: the
  rows of that selection do not contain the number, and what the code calls this customer is
  a different one. The statements are those of \<open>ordstat_script\<close>, all of them SELECTs.
\<close>

theorem ordstat_ignores_name:
  assumes "ordstat M fuel t_num w_id d_id byname c_id c_last s = (Inr 1, t)"
    and "log t = log s @ es"
  shows "(\<exists>o_row. o_row \<in> set (rows_of es) \<and>
      cmds es = run_of (ordstat_script w_id d_id byname c_id c_last (col_long o_row 0))) \<and>
    BindParam 23 [PLong w_id, PLong d_id, PLong c_id, PLong w_id, PLong d_id, PLong c_id]
      \<in> set (cmds es)"
proof -
  obtain o_row where "o_row \<in> set (rows_of es)"
    "cmds es = run_of (ordstat_script w_id d_id byname c_id c_last (col_long o_row 0))"
    using ordstat_committed_did [OF assms] by blast
  then show ?thesis by (auto simp: ordstat_script_def)
qed

theorem ordstat_ignores_name_witness:
  "\<exists>t es. ordstat calm_server 4 0 1 2 True 3 ''BARBARBAR'' example_db = (Inr 1, t) \<and>
    log t = log example_db @ es \<and>
    (\<exists>o_row. o_row \<in> set (rows_of es) \<and>
      cmds es = run_of (ordstat_script 1 2 True 3 ''BARBARBAR'' (col_long o_row 0))) \<and>
    BindParam 23 [PLong 1, PLong 2, PLong 3, PLong 1, PLong 2, PLong 3] \<in> set (cmds es)"
proof -
  obtain t es where run: "ordstat calm_server 4 0 1 2 True 3 ''BARBARBAR'' example_db = (Inr 1, t)"
    "log t = log example_db @ es"
    using ordstat_obliging_committed [OF calm_obliging, where n = 3 and fuel = 4 and t_num = 0]
    by (fastforce simp: calm_ends)
  from ordstat_ignores_name [OF this] run show ?thesis by blast
qed

end
