(* ===== verification/Delivery.thy ===== *)
theory Delivery
  imports Ordstat
begin

text \<open>
  The Delivery transaction, \<^verbatim>\<open>tpcc-mysql/src/delivery.c\<close>: for each district of the
  warehouse the oldest new order is delivered. \<open>delivery_district\<close> is the body of the loop,
  with the commit that ends it; the \<open>continue\<close> for a district without new orders is its first
  branch.
\<close>

section \<open>Statements\<close>

definition dl_oldest :: "'s server \<Rightarrow> int \<Rightarrow> int \<Rightarrow> int \<Rightarrow> (('s, 'z) db_scheme, row) cm" where
  "dl_oldest M t_num w_id d_id = thn (set_proceed 1)
     (query1 M Sqlerr t_num 25 [PLong d_id, PLong w_id] [ColLong] [0])"

definition dl_delete :: "'s server \<Rightarrow> int \<Rightarrow> int \<Rightarrow> int \<Rightarrow> int \<Rightarrow> (('s, 'z) db_scheme, unit) cm" where
  "dl_delete M t_num w_id d_id no_o_id = thn (set_proceed 2)
     (sql_exec M Sqlerr t_num 26 [PLong no_o_id, PLong d_id, PLong w_id])"

definition dl_customer :: "'s server \<Rightarrow> int \<Rightarrow> int \<Rightarrow> int \<Rightarrow> int \<Rightarrow> (('s, 'z) db_scheme, row) cm" where
  "dl_customer M t_num w_id d_id no_o_id = thn (set_proceed 3)
     (query1 M Sqlerr t_num 27 [PLong no_o_id, PLong d_id, PLong w_id] [ColLong] [0])"

definition dl_carrier ::
  "'s server \<Rightarrow> int \<Rightarrow> int \<Rightarrow> int \<Rightarrow> int \<Rightarrow> int \<Rightarrow> (('s, 'z) db_scheme, unit) cm" where
  "dl_carrier M t_num w_id d_id no_o_id o_carrier_id = thn (set_proceed 4)
     (sql_exec M Sqlerr t_num 28 [PLong o_carrier_id, PLong no_o_id, PLong d_id, PLong w_id])"

definition dl_date ::
  "'s server \<Rightarrow> int \<Rightarrow> int \<Rightarrow> int \<Rightarrow> int \<Rightarrow> string \<Rightarrow> (('s, 'z) db_scheme, unit) cm" where
  "dl_date M t_num w_id d_id no_o_id datetime = thn (set_proceed 5)
     (sql_exec M Sqlerr t_num 29 [PString datetime, PLong no_o_id, PLong d_id, PLong w_id])"

definition dl_total :: "'s server \<Rightarrow> int \<Rightarrow> int \<Rightarrow> int \<Rightarrow> int \<Rightarrow> (('s, 'z) db_scheme, row) cm" where
  "dl_total M t_num w_id d_id no_o_id = thn (set_proceed 6)
     (query1 M Sqlerr t_num 30 [PLong no_o_id, PLong d_id, PLong w_id] [ColFloat]
        [0, MYSQL_DATA_TRUNCATED])"

definition dl_balance ::
  "'s server \<Rightarrow> int \<Rightarrow> int \<Rightarrow> int \<Rightarrow> int \<Rightarrow> rat \<Rightarrow> (('s, 'z) db_scheme, unit) cm" where
  "dl_balance M t_num w_id d_id c_id ol_total = thn (set_proceed 7)
     (sql_exec M Sqlerr t_num 31 [PFloat ol_total, PLong c_id, PLong d_id, PLong w_id])"

section \<open>The transaction\<close>

definition delivery_order :: "'s server \<Rightarrow> int \<Rightarrow> int \<Rightarrow> int \<Rightarrow> string \<Rightarrow> int \<Rightarrow> int \<Rightarrow>
    (('s, 'z) db_scheme, unit) cm" where
  "delivery_order M t_num w_id o_carrier_id datetime d_id no_o_id =
     thn (dl_delete M t_num w_id d_id no_o_id)
    (bnd (dl_customer M t_num w_id d_id no_o_id) (\<lambda>c_row.
     thn (dl_carrier M t_num w_id d_id no_o_id o_carrier_id)
    (thn (dl_date M t_num w_id d_id no_o_id datetime)
    (bnd (dl_total M t_num w_id d_id no_o_id) (\<lambda>t_row.
       dl_balance M t_num w_id d_id (col_long c_row 0) (col_float t_row 0))))))"

definition delivery_district :: "'s server \<Rightarrow> int \<Rightarrow> int \<Rightarrow> int \<Rightarrow> string \<Rightarrow> int \<Rightarrow>
    (('s, 'z) db_scheme, unit) cm" where
  "delivery_district M t_num w_id o_carrier_id datetime d_id =
     bnd (dl_oldest M t_num w_id d_id) (\<lambda>r.
       let no_o_id = col_long r 0 in
       if no_o_id = 0 then ret ()
       else bnd (delivery_order M t_num w_id o_carrier_id datetime d_id no_o_id) (\<lambda>_.
         thn (checked M Sqlerr t_num Commit) (ret ())))"

definition delivery_body :: "'s server \<Rightarrow> int \<Rightarrow> int \<Rightarrow> int \<Rightarrow> (('s, 'z) db_scheme, int) cm" where
  "delivery_body M t_num w_id o_carrier_id =
     bnd gettimestamp (\<lambda>datetime.
     thn (cfor [1..DIST_PER_WARE] (delivery_district M t_num w_id o_carrier_id datetime))
       (ret 1))"

definition delivery :: "'s server \<Rightarrow> int \<Rightarrow> int \<Rightarrow> int \<Rightarrow> (('s, 'z) db_scheme, int) cm" where
  "delivery M t_num w_id o_carrier_id =
     handle (thn (set_proceed 0) (delivery_body M t_num w_id o_carrier_id))
       (\<lambda>e. if e = Goto Sqlerr then sqlerr M ''delivery'' t_num else halt e)"

section \<open>Lemmas: outcome\<close>

lemmas delivery_statements = dl_oldest_def dl_delete_def dl_customer_def dl_carrier_def dl_date_def
  dl_total_def dl_balance_def

lemma delivery_order_disc:
  "traced (\<lambda>_. clean_run t_num) (first_failure {Sqlerr} t_num)
     (delivery_order M t_num w_id o_carrier_id datetime d_id no_o_id)"
  unfolding delivery_order_def delivery_statements
  by (intro traced_intros)
    (auto simp: fetch_oks_simps truncation_allowed_def read_to_end_def first_failure_def)

lemma delivery_order_in_txn:
  "traced (\<lambda>_. in_txn) (\<lambda>_. in_txn)
     (delivery_order M t_num w_id o_carrier_id datetime d_id no_o_id)"
  unfolding delivery_order_def delivery_statements by (intro traced_intros)

text \<open>The statements that deliver order \<open>no\<close> of a district.\<close>

definition delivery_script :: "int \<Rightarrow> int \<Rightarrow> string \<Rightarrow> int \<Rightarrow> int \<Rightarrow> int \<Rightarrow> rat \<Rightarrow>
    (nat \<times> param list) list" where
  "delivery_script w_id o_carrier_id datetime d_id no c_id ol_total =
     [(26, [PLong no, PLong d_id, PLong w_id]),
      (27, [PLong no, PLong d_id, PLong w_id]),
      (28, [PLong o_carrier_id, PLong no, PLong d_id, PLong w_id]),
      (29, [PString datetime, PLong no, PLong d_id, PLong w_id]),
      (30, [PLong no, PLong d_id, PLong w_id]),
      (31, [PFloat ol_total, PLong c_id, PLong d_id, PLong w_id])]"

lemma delivery_order_did:
  assumes "delivery_order M t_num w_id o_carrier_id datetime d_id no s = (Inr u, t)"
  shows "\<exists>c_row t_row. did s t (delivery_script w_id o_carrier_id datetime d_id no
    (col_long c_row 0) (col_float t_row 0)) [c_row, t_row]"
proof -
  from assms obtain u1 s1 c_row s2 u3 s3 u4 s4 t_row s5 where
    1: "dl_delete M t_num w_id d_id no s = (Inr u1, s1)" and
    2: "dl_customer M t_num w_id d_id no s1 = (Inr c_row, s2)" and
    3: "dl_carrier M t_num w_id d_id no o_carrier_id s2 = (Inr u3, s3)" and
    4: "dl_date M t_num w_id d_id no datetime s3 = (Inr u4, s4)" and
    5: "dl_total M t_num w_id d_id no s4 = (Inr t_row, s5)" and
    6: "dl_balance M t_num w_id d_id (col_long c_row 0) (col_float t_row 0) s5 = (Inr u, t)"
    by (auto simp: delivery_order_def bnd_ok thn_ok)
  note step1 = proceed_exec_did [OF 1 [unfolded dl_delete_def]]
  note step2 = proceed_query_did [OF 2 [unfolded dl_customer_def], simplified]
  note step3 = proceed_exec_did [OF 3 [unfolded dl_carrier_def]]
  note step4 = proceed_exec_did [OF 4 [unfolded dl_date_def]]
  note step5 = proceed_query_did [OF 5 [unfolded dl_total_def], simplified]
  note step6 = proceed_exec_did [OF 6 [unfolded dl_balance_def]]
  from did_trans [OF step1 did_trans [OF step2 did_trans [OF step3 did_trans [OF step4
    did_trans [OF step5 step6]]]]]
  show ?thesis by (intro exI [of _ c_row] exI [of _ t_row]) (simp add: delivery_script_def)
qed

text \<open>
  A district is done: it has no new order and nothing but the query for it was executed, or
  its oldest new order was delivered and committed.
\<close>

definition district_done :: "int \<Rightarrow> int \<Rightarrow> int \<Rightarrow> string \<Rightarrow> int \<Rightarrow> event list \<Rightarrow> bool" where
  "district_done t_num w_id o_carrier_id datetime d_id es \<longleftrightarrow>
     (\<exists>r. rows_of es = [r] \<and> col_long r 0 = 0 \<and> clean_run t_num es \<and> in_txn es \<and>
        cmds es = run_of [(25, [PLong d_id, PLong w_id])]) \<or>
     (\<exists>r c_row t_row. rows_of es = [r, c_row, t_row] \<and> col_long r 0 \<noteq> 0 \<and> committed t_num es \<and>
        cmds es = run_of ((25, [PLong d_id, PLong w_id]) # delivery_script w_id o_carrier_id datetime
          d_id (col_long r 0) (col_long c_row 0) (col_float t_row 0)))"

lemma district_did:
  assumes "bnd (delivery_order M t_num w_id o_carrier_id datetime d_id no) (\<lambda>_.
      thn (checked M Sqlerr t_num Commit) (ret ())) s = (Inr u, t)"
  shows "\<exists>c_row t_row. did s t (delivery_script w_id o_carrier_id datetime d_id no
    (col_long c_row 0) (col_float t_row 0)) [c_row, t_row]"
proof -
  from assms obtain a v where 1: "delivery_order M t_num w_id o_carrier_id datetime d_id no s = (Inr a, v)"
    and 2: "did v t [] []" by (rule body_then_commit)
  obtain c_row t_row where "did s v (delivery_script w_id o_carrier_id datetime d_id no
      (col_long c_row 0) (col_float t_row 0)) [c_row, t_row]"
    using delivery_order_did [OF 1] by blast
  from did_trans [OF this 2] show ?thesis by auto
qed

lemma district_order_traced:
  "traced (\<lambda>_ es. committed t_num es \<and> (\<exists>c_row t_row. rows_of es = [c_row, t_row] \<and>
      cmds es = run_of (delivery_script w_id o_carrier_id datetime d_id no
        (col_long c_row 0) (col_float t_row 0))))
    (\<lambda>e es. first_failure {Sqlerr} t_num e es \<and> uncommitted es)
    (bnd (delivery_order M t_num w_id o_carrier_id datetime d_id no) (\<lambda>_.
      thn (checked M Sqlerr t_num Commit) (ret ())) :: (('s, 'z) db_scheme, unit) cm)"
proof -
  let ?W = "\<lambda>_ sts rows. \<exists>c_row t_row. rows = [c_row, t_row] \<and>
      sts = delivery_script w_id o_carrier_id datetime d_id no (col_long c_row 0) (col_float t_row 0)"
  have "traced (\<lambda>v es. True \<and> committed t_num es) (\<lambda>e es. first_failure {Sqlerr} t_num e es \<and> uncommitted es)
    (bnd (delivery_order M t_num w_id o_carrier_id datetime d_id no) (\<lambda>_.
      thn (checked M Sqlerr t_num Commit) (ret ())) :: (('s, 'z) db_scheme, unit) cm)"
    by (rule work_then_commit [OF delivery_order_disc delivery_order_in_txn _ ret_unit_traced]) simp
  note run = this
  have "\<exists>sts rows. did s t sts rows \<and> ?W a sts rows"
    if "bnd (delivery_order M t_num w_id o_carrier_id datetime d_id no) (\<lambda>_.
      thn (checked M Sqlerr t_num Commit) (ret ())) s = (Inr a, t)"
    for a and s t :: "('s, 'z) db_scheme"
    using district_did [OF that] by blast
  note traced_did [OF run this]
  then show ?thesis by (rule traced_conseq) auto
qed

lemma dl_oldest_traced:
  "traced (\<lambda>r es. clean_run t_num es \<and> in_txn es \<and> rows_of es = [r] \<and>
      cmds es = run_of [(25, [PLong d_id, PLong w_id])])
    (\<lambda>e es. first_failure {Sqlerr} t_num e es \<and> uncommitted es)
    (dl_oldest M t_num w_id d_id :: (('s, 'z) db_scheme, row) cm)"
proof -
  have disc: "traced (\<lambda>_. clean_run t_num) (first_failure {Sqlerr} t_num)
      (dl_oldest M t_num w_id d_id :: (('s, 'z) db_scheme, row) cm)"
    unfolding dl_oldest_def
    by (intro traced_intros) (simp_all add: fetch_oks_simps truncation_allowed_def read_to_end_def)
  have itx: "traced (\<lambda>_. in_txn) (\<lambda>_. in_txn)
      (dl_oldest M t_num w_id d_id :: (('s, 'z) db_scheme, row) cm)"
    unfolding dl_oldest_def by (intro traced_intros)
  let ?W = "\<lambda>r sts rows. rows = [r] \<and> sts = [(25, [PLong d_id, PLong w_id])]"
  have "\<exists>sts rows. did s t sts rows \<and> ?W a sts rows"
    if "dl_oldest M t_num w_id d_id s = (Inr a, t)" for a and s t :: "('s, 'z) db_scheme"
    using proceed_query_did [OF that [unfolded dl_oldest_def]] by auto
  note traced_did [OF traced_conj [OF disc itx] this]
  then show ?thesis
    by (rule traced_conseq) (auto simp: in_txn_uncommitted)
qed

lemma delivery_district_traced:
  "traced (\<lambda>_. district_done t_num w_id o_carrier_id datetime d_id)
    (\<lambda>e es. first_failure {Sqlerr} t_num e es \<and> uncommitted es)
    (delivery_district M t_num w_id o_carrier_id datetime d_id)"
  unfolding delivery_district_def Let_def
proof (rule traced_bnd [OF dl_oldest_traced])
  let ?order = "\<lambda>r es. committed t_num es \<and> (\<exists>c_row t_row. rows_of es = [c_row, t_row] \<and>
      cmds es = run_of (delivery_script w_id o_carrier_id datetime d_id (col_long r 0)
        (col_long c_row 0) (col_float t_row 0)))"
  show "traced (\<lambda>_ es. if col_long r 0 = 0 then es = [] else ?order r es)
      (\<lambda>e es. first_failure {Sqlerr} t_num e es \<and> uncommitted es)
      (if col_long r 0 = 0 then ret () else bnd (delivery_order M t_num w_id o_carrier_id datetime d_id
        (col_long r 0)) (\<lambda>_. thn (checked M Sqlerr t_num Commit) (ret ())))" for r
  proof (cases "col_long r 0 = 0")
    case True
    then show ?thesis by (auto intro: tracedI simp: ret_eq)
  next
    case False
    with district_order_traced show ?thesis by simp
  qed
  fix r es es' and u :: unit
  assume 1: "clean_run t_num es \<and> in_txn es \<and> rows_of es = [r] \<and>
      cmds es = run_of [(25, [PLong d_id, PLong w_id])]"
    and 2: "if col_long r 0 = 0 then es' = [] else ?order r es'"
  show "district_done t_num w_id o_carrier_id datetime d_id (es @ es')"
  proof (cases "col_long r 0 = 0")
    case True
    with 1 2 show ?thesis unfolding district_done_def by (intro disjI1 exI [of _ r]) simp
  next
    case False
    with 2 obtain c_row t_row where "committed t_num es'" "rows_of es' = [c_row, t_row]"
      "cmds es' = run_of (delivery_script w_id o_carrier_id datetime d_id (col_long r 0)
        (col_long c_row 0) (col_float t_row 0))" by auto
    with 1 False committed_prepend [of t_num es es'] show ?thesis
      unfolding district_done_def
      by (intro disjI2 exI [of _ r] exI [of _ c_row] exI [of _ t_row]) simp
  qed
next
  show "first_failure {Sqlerr} t_num e (es @ es') \<and> uncommitted (es @ es')"
    if "clean_run t_num es \<and> in_txn es \<and> rows_of es = [r] \<and>
        cmds es = run_of [(25, [PLong d_id, PLong w_id])]"
      "first_failure {Sqlerr} t_num e es' \<and> uncommitted es'" for r e es es'
    using that by (auto intro: disc.bad_append simp: in_txn_uncommitted)
qed simp

definition districts_done :: "int \<Rightarrow> int \<Rightarrow> int \<Rightarrow> int list \<Rightarrow> event list \<Rightarrow> bool" where
  "districts_done t_num w_id o_carrier_id ds es \<longleftrightarrow> (\<exists>datetime ess. es = concat ess \<and>
     list_all2 (district_done t_num w_id o_carrier_id datetime) ds ess)"

lemma delivery_body_traced:
  "traced (\<lambda>v es. v = 1 \<and> districts_done t_num w_id o_carrier_id [1..DIST_PER_WARE] es)
    (\<lambda>e es. \<exists>pre fs. es = pre @ fs \<and>
      (\<exists>n. n < 10 \<and> districts_done t_num w_id o_carrier_id (take n [1..DIST_PER_WARE]) pre) \<and>
      first_failure {Sqlerr} t_num e fs \<and> uncommitted fs)
    (delivery_body M t_num w_id o_carrier_id)"
proof -
  let ?D = "district_done t_num w_id o_carrier_id"
  let ?E = "\<lambda>e es. first_failure {Sqlerr} t_num e es \<and> uncommitted es"
  have stamp: "traced (\<lambda>_ es. es = []) (\<lambda>e es. e = Abort \<and> es = []) gettimestamp"
    by (rule tracedI) (auto simp: gettimestamp_def split: option.splits)
  have "traced (\<lambda>v es. v = 1 \<and> (\<exists>ess. es = concat ess \<and> list_all2 (?D datetime) [1..DIST_PER_WARE] ess))
    (\<lambda>e es. \<exists>ess fs n. n < length [1..DIST_PER_WARE] \<and> es = concat ess @ fs \<and>
      list_all2 (?D datetime) (take n [1..DIST_PER_WARE]) ess \<and> ?E e fs)
    (thn (cfor [1..DIST_PER_WARE] (delivery_district M t_num w_id o_carrier_id datetime)) (ret (1 :: int)))"
    for datetime
    unfolding thn_def
    by (rule traced_bnd [OF cfor_rounds [OF delivery_district_traced],
          where N' = "\<lambda>_ v es. v = 1 \<and> es = []" and E' = "\<lambda>_ _ _. False"])
      (auto simp: traced_def ret_eq)
  note loop = this
  show ?thesis
    unfolding delivery_body_def
  proof (rule traced_bnd [OF stamp loop])
    show "v = 1 \<and> districts_done t_num w_id o_carrier_id [1..DIST_PER_WARE] (es @ es')"
      if "es = []" "v = 1 \<and> (\<exists>ess. es' = concat ess \<and> list_all2 (?D dt) [1..DIST_PER_WARE] ess)"
      for dt es es' and v :: int
      using that unfolding districts_done_def by auto
    show "\<exists>pre fs. es = pre @ fs \<and>
        (\<exists>n. n < 10 \<and> districts_done t_num w_id o_carrier_id (take n [1..DIST_PER_WARE]) pre) \<and> ?E e fs"
      if "e = Abort \<and> es = []" for e es
      using that
      by (intro exI [of _ "[]"] conjI exI [of _ 0])
        (auto simp: districts_done_def first_failure_def intro: exI [of _ "[]"])
    show "\<exists>pre fs. es @ es' = pre @ fs \<and>
        (\<exists>n. n < 10 \<and> districts_done t_num w_id o_carrier_id (take n [1..DIST_PER_WARE]) pre) \<and> ?E e fs"
      if "es = []" "\<exists>ess fs n. n < length [1..DIST_PER_WARE] \<and> es' = concat ess @ fs \<and>
        list_all2 (?D dt) (take n [1..DIST_PER_WARE]) ess \<and> ?E e fs" for dt e es es'
    proof -
      from that(2) obtain ess fs n where n: "n < length [1..DIST_PER_WARE]" and
        r: "es' = concat ess @ fs" "list_all2 (?D dt) (take n [1..DIST_PER_WARE]) ess" "?E e fs" by blast
      have "n < 10" using n by (simp add: DIST_PER_WARE_def)
      moreover have "districts_done t_num w_id o_carrier_id (take n [1..DIST_PER_WARE]) (concat ess)"
        unfolding districts_done_def using r(2) by blast
      ultimately show ?thesis using that(1) r(1,3) by auto
    qed
  qed
qed

definition delivery_given_up :: "int \<Rightarrow> int \<Rightarrow> int \<Rightarrow> event list \<Rightarrow> bool" where
  "delivery_given_up t_num w_id o_carrier_id es \<longleftrightarrow> (\<exists>pre fs. es = pre @ fs \<and>
     (\<exists>n. n < 10 \<and> districts_done t_num w_id o_carrier_id (take n [1..DIST_PER_WARE]) pre) \<and>
     given_up ''delivery'' t_num fs)"

lemma delivery_traced:
  "traced (\<lambda>v es. v = 1 \<and> districts_done t_num w_id o_carrier_id [1..DIST_PER_WARE] es \<or>
      v = 0 \<and> delivery_given_up t_num w_id o_carrier_id es) no_escape
    (delivery M t_num w_id o_carrier_id)"
  unfolding delivery_def delivery_given_up_def
  by (rule sqlerr_frame_after [OF set_proceed_then [OF delivery_body_traced]])

interpretation delivery_txn: transaction
  "delivery M t_num w_id o_carrier_id"
  "districts_done t_num w_id o_carrier_id [1..DIST_PER_WARE]" "delivery_given_up t_num w_id o_carrier_id"
  for M t_num w_id o_carrier_id
  by unfold_locales (rule delivery_traced)

lemma delivery_freed:
  "traced (\<lambda>_ es. leak es \<or> quiet es) (\<lambda>_ _. True) (delivery M t_num w_id o_carrier_id)"
proof -
  have body: "traced (\<lambda>_. quiet) freed (delivery_body M t_num w_id o_carrier_id)"
    unfolding delivery_body_def delivery_district_def delivery_order_def delivery_statements Let_def
    by (intro traced_intros) (simp add: freed_def)
  show ?thesis
    unfolding delivery_def
    by (rule handler_freed [OF set_proceed_then [OF body]])
      (auto intro: halt_freed traced_conseq [OF sqlerr_freed])
qed

lemma delivery_obliging:
  assumes "obliging M" and "shd (stamps s) = Some str"
  shows "\<exists>t. delivery M t_num w_id o_carrier_id s = (Inr 1, t)"
proof -
  let ?s = "s\<lparr>proceed := 0\<rparr>"
  have "shd (stamps ?s) = Some str" using assms(2) by simp
  then have "\<exists>v t. delivery_body M t_num w_id o_carrier_id ?s = (Inr v, t)"
    unfolding delivery_body_def
    by (rule stamp_then, unfold delivery_district_def delivery_order_def delivery_statements Let_def)
      (use assms(1) in \<open>intro succeeds_intros; simp add: read_to_end_def\<close>)
  then obtain v t where body: "delivery_body M t_num w_id o_carrier_id ?s = (Inr v, t)" by blast
  have "delivery M t_num w_id o_carrier_id s = (Inr v, t)"
    unfolding delivery_def by (rule succeeds_frame) (rule body)
  moreover have "v = 1" using traced_ok [OF delivery_body_traced body] by blast
  ultimately show ?thesis by blast
qed

section \<open>Properties\<close>

text \<open>
  Property C6. Delivery commits district by district. When it returns 1, each of the ten
  districts is done, in order: it had no new order and only the query was executed, or its
  oldest new order was deleted, its customer read, the order and its lines updated, the total
  of its lines added to the balance of that customer, all for the same order, and committed.
  When it returns 0, the first districts are done, and stay committed, and only the statements
  of the one that failed are rolled back.
\<close>

theorem delivery_outcome:
  "\<exists>es. log (snd (delivery M t_num w_id o_carrier_id s)) = log s @ es \<and>
    (case fst (delivery M t_num w_id o_carrier_id s) of
       Inr v \<Rightarrow> v = 1 \<and> (\<exists>datetime ess. es = concat ess \<and>
           list_all2 (district_done t_num w_id o_carrier_id datetime) [1..DIST_PER_WARE] ess) \<or>
         v = 0 \<and> (\<exists>datetime ess fs n. n < 10 \<and> es = concat ess @ fs \<and>
           list_all2 (district_done t_num w_id o_carrier_id datetime) (take n [1..DIST_PER_WARE]) ess \<and>
           given_up ''delivery'' t_num fs)
     | Inl e \<Rightarrow> \<forall>l. e \<noteq> Goto l)"
proof -
  obtain es where "log (snd (delivery M t_num w_id o_carrier_id s)) = log s @ es"
    "case fst (delivery M t_num w_id o_carrier_id s) of
       Inl e \<Rightarrow> no_escape e es
     | Inr v \<Rightarrow> v = 1 \<and> districts_done t_num w_id o_carrier_id [1..DIST_PER_WARE] es \<or>
         v = 0 \<and> delivery_given_up t_num w_id o_carrier_id es"
    using delivery_traced [of t_num w_id o_carrier_id M, unfolded traced_def] by blast
  then show ?thesis
    unfolding districts_done_def delivery_given_up_def no_escape_def
    by (intro exI [of _ es]) (auto split: sum.splits)
qed

lemma delivery_obliging_done:
  assumes "obliging M" and "shd (stamps s) = Some str"
  shows "\<exists>t es. delivery M t_num w_id o_carrier_id s = (Inr 1, t) \<and> log t = log s @ es \<and>
    districts_done t_num w_id o_carrier_id [1..DIST_PER_WARE] es"
  using delivery_obliging [OF assms, of t_num w_id o_carrier_id] delivery_txn.returns_1 by blast

end
