(* ===== verification/Slev.thy ===== *)
theory Slev
  imports Delivery
begin

text \<open>
  The Stock-Level transaction, \<^verbatim>\<open>tpcc-mysql/src/slev.c\<close>. The loop over the items of the
  last twenty orders runs a second statement for each row of the first, so it has two error
  labels: \<open>sqlerr2\<close> also frees the result of the first statement. The loop has \<open>fuel\<close>; its
  end is \<open>slev_enough_fuel\<close>. The function keeps no \<open>proceed\<close>.
\<close>

section \<open>Statements\<close>

definition sl_district :: "'s server \<Rightarrow> int \<Rightarrow> int \<Rightarrow> int \<Rightarrow> (('s, 'z) db_scheme, row) cm" where
  "sl_district M t_num w_id d_id =
     query1 M Sqlerr t_num 32 [PLong d_id, PLong w_id] [ColLong] [0]"

definition sl_count :: "'s server \<Rightarrow> int \<Rightarrow> int \<Rightarrow> int \<Rightarrow> int \<Rightarrow> (('s, 'z) db_scheme, row) cm" where
  "sl_count M t_num w_id ol_i_id level =
     query1 M Sqlerr2 t_num 34 [PLong w_id, PLong ol_i_id, PLong level] [ColLong] [0]"

primrec sl_loop :: "'s server \<Rightarrow> int \<Rightarrow> int \<Rightarrow> int \<Rightarrow> nat \<Rightarrow> (('s, 'z) db_scheme, unit) cm" where
  "sl_loop M t_num w_id level 0 = halt OutOfFuel"
| "sl_loop M t_num w_id level (Suc fuel) =
     bnd (sql M t_num (Fetch 33)) (\<lambda>(rc, r).
       if rc = 0 then
         bnd (sl_count M t_num w_id (col_long r 0) level) (\<lambda>_. sl_loop M t_num w_id level fuel)
       else if rc = MYSQL_NO_DATA then free_result M t_num 33
       else thn (free_result M t_num 33) (halt (Goto Sqlerr)))"

definition sl_items ::
  "'s server \<Rightarrow> nat \<Rightarrow> int \<Rightarrow> int \<Rightarrow> int \<Rightarrow> int \<Rightarrow> int \<Rightarrow> (('s, 'z) db_scheme, unit) cm" where
  "sl_items M fuel t_num w_id d_id level d_next_o_id =
     thn (sql_exec M Sqlerr t_num 33 [PLong w_id, PLong d_id, PLong d_next_o_id, PLong d_next_o_id])
    (thn (open_result M Sqlerr t_num 33 [ColLong])
      (sl_loop M t_num w_id level fuel))"

section \<open>The transaction\<close>

definition slev_work :: "'s server \<Rightarrow> nat \<Rightarrow> int \<Rightarrow> int \<Rightarrow> int \<Rightarrow> int \<Rightarrow> (('s, 'z) db_scheme, unit) cm" where
  "slev_work M fuel t_num w_id d_id level =
     bnd (sl_district M t_num w_id d_id) (\<lambda>r.
       sl_items M fuel t_num w_id d_id level (col_long r 0))"

definition slev_body :: "'s server \<Rightarrow> nat \<Rightarrow> int \<Rightarrow> int \<Rightarrow> int \<Rightarrow> int \<Rightarrow> (('s, 'z) db_scheme, int) cm" where
  "slev_body M fuel t_num w_id d_id level =
     bnd (slev_work M fuel t_num w_id d_id level) (\<lambda>_.
     thn (checked M Sqlerr t_num Commit) (ret 1))"

definition slev_sqlerr :: "'s server \<Rightarrow> int \<Rightarrow> (('s, 'z) db_scheme, int) cm" where
  "slev_sqlerr M t_num =
     thn (emit (Diag ''slev'' []))
    (thn (error t_num)
    (thn (sql M t_num Rollback) (ret 0)))"

definition slev_sqlerr2 :: "'s server \<Rightarrow> int \<Rightarrow> (('s, 'z) db_scheme, int) cm" where
  "slev_sqlerr2 M t_num =
     thn (emit (Diag ''slev'' []))
    (thn (error t_num)
    (thn (free_result M t_num 33)
    (thn (sql M t_num Rollback) (ret 0))))"

definition slev :: "'s server \<Rightarrow> nat \<Rightarrow> int \<Rightarrow> int \<Rightarrow> int \<Rightarrow> int \<Rightarrow> (('s, 'z) db_scheme, int) cm" where
  "slev M fuel t_num w_id d_id level =
     handle (slev_body M fuel t_num w_id d_id level)
       (\<lambda>e. if e = Goto Sqlerr then slev_sqlerr M t_num
            else if e = Goto Sqlerr2 then slev_sqlerr2 M t_num
            else halt e)"

section \<open>Lemmas: outcome\<close>

text \<open>
  One round of the loop, for a class of traces: what the fetch says decides what follows.
\<close>

lemma sl_loop_Suc:
  assumes "M t_num (Fetch 33) (srv s) = (rc, r, w)"
  defines "s' \<equiv> s\<lparr>srv := w, log := log s @ [Call t_num (Fetch 33) rc r]\<rparr>"
  shows "sl_loop M t_num w_id level (Suc fuel) s =
    (if rc = 0 then
       bnd (sl_count M t_num w_id (col_long r 0) level) (\<lambda>_. sl_loop M t_num w_id level fuel) s'
     else if rc = MYSQL_NO_DATA then free_result M t_num 33 s'
     else thn (free_result M t_num 33) (halt (Goto Sqlerr)) s')"
  using assms by (simp add: sql_def bnd_def)

lemma sl_count_disc:
  "traced (\<lambda>_. clean_run t_num) (first_failure {Sqlerr, Sqlerr2} t_num)
     (sl_count M t_num w_id ol_i_id level)"
  unfolding sl_count_def
  by (intro traced_intros) (simp_all add: fetch_oks_simps truncation_allowed_def read_to_end_def)

lemma sl_loop_disc [traced_intros]:
  "traced (\<lambda>_. clean_run t_num) (first_failure {Sqlerr, Sqlerr2} t_num)
     (sl_loop M t_num w_id level fuel :: (('s, 'z) db_scheme, unit) cm)"
proof (induction fuel)
  case 0
  show ?case
    unfolding sl_loop.simps by (rule disc.halt_traced) (simp add: first_failure_def)
next
  case (Suc fuel)
  let ?N = "clean_run t_num" and ?E = "first_failure {Sqlerr, Sqlerr2} t_num"
  have round: "traced (\<lambda>_. ?N) ?E (bnd (sl_count M t_num w_id i level)
      (\<lambda>_. sl_loop M t_num w_id level fuel :: (('s, 'z) db_scheme, unit) cm))" for i
    by (intro disc.bnd_traced sl_count_disc Suc.IH)
  show ?case
  proof (rule tracedI)
    fix s :: "('s, 'z) db_scheme"
    obtain rc r w where run: "M t_num (Fetch 33) (srv s) = (rc, r, w)" by (metis prod.collapse)
    let ?c = "Call t_num (Fetch 33) rc r"
    let ?s = "s\<lparr>srv := w, log := log s @ [?c]\<rparr>"
    consider "rc = 0" | "rc \<noteq> 0" "rc = MYSQL_NO_DATA" | "rc \<noteq> 0" "rc \<noteq> MYSQL_NO_DATA" by blast
    then show "\<exists>es. log (snd (sl_loop M t_num w_id level (Suc fuel) s)) = log s @ es \<and>
      (case fst (sl_loop M t_num w_id level (Suc fuel) s) of Inl e \<Rightarrow> ?E e es | Inr a \<Rightarrow> ?N es)"
    proof cases
      case 1
      have "clean_run t_num [?c]" using 1 by simp
      then have pre: "?E e es \<Longrightarrow> ?E e (?c # es)" for e es
        using disc.bad_append [of t_num "[?c]" _ e es] by simp
      from round [of "col_long r 0", unfolded traced_def, THEN spec, of ?s] 1 show ?thesis
        unfolding sl_loop_Suc [of M, OF run] by (auto split: sum.splits intro!: pre [unfolded 1])
    next
      case 2
      have "clean_run t_num [?c]" using 2 by (simp add: read_to_end_def)
      with free_result_disc [of t_num "{}" M 33, unfolded traced_def, THEN spec, of ?s] 2
      show ?thesis
        unfolding sl_loop_Suc [of M, OF run]
        by (auto simp: free_result_def sql_def run_simps split: prod.splits)
    next
      case 3
      then have "first_failure {Sqlerr, Sqlerr2} t_num (Goto Sqlerr) (?c # post)"
        if "\<forall>ev \<in> set post. is_free t_num ev" for post
        using that by (intro first_failureI) (auto simp: truncation_allowed_def)
      with 3 show ?thesis
        unfolding sl_loop_Suc [of M, OF run]
        by (auto simp: free_result_def sql_def run_simps split: prod.splits)
    qed
  qed
qed

lemma sl_count_in_txn [traced_intros]:
  "traced (\<lambda>_. in_txn) (\<lambda>_. in_txn) (sl_count M t_num w_id ol_i_id level)"
  unfolding sl_count_def by (intro traced_intros)

lemma sl_loop_in_txn [traced_intros]:
  "traced (\<lambda>_. in_txn) (\<lambda>_. in_txn) (sl_loop M t_num w_id level fuel)"
proof (induction fuel)
  case 0
  show ?case by (simp add: itx.halt_traced itx.good_Nil)
next
  case (Suc fuel)
  show ?case
    by (simp, intro itx.bnd_traced sql_in_txn)
      (auto intro!: traced_intros itx.good_Nil Suc.IH split: prod.splits)
qed

lemma slev_work_disc:
  "traced (\<lambda>_. clean_run t_num) (first_failure {Sqlerr, Sqlerr2} t_num)
     (slev_work M fuel t_num w_id d_id level)"
  unfolding slev_work_def sl_district_def sl_items_def
  by (intro traced_intros) (simp_all add: fetch_oks_simps truncation_allowed_def read_to_end_def)

lemma slev_work_in_txn:
  "traced (\<lambda>_. in_txn) (\<lambda>_. in_txn) (slev_work M fuel t_num w_id d_id level)"
  unfolding slev_work_def sl_district_def sl_items_def by (intro traced_intros)

lemma slev_body_traced:
  "traced (\<lambda>v es. v = 1 \<and> committed t_num es)
    (\<lambda>e es. first_failure {Sqlerr, Sqlerr2} t_num e es \<and> uncommitted es)
    (slev_body M fuel t_num w_id d_id level)"
  unfolding slev_body_def
  by (rule work_then_commit [OF slev_work_disc slev_work_in_txn _ ret_1_traced]) simp

text \<open>The report and the rollback, with the first result freed after \<open>sqlerr2\<close>.\<close>

definition slev_given_up :: "int \<Rightarrow> event list \<Rightarrow> bool" where
  "slev_given_up t_num es \<longleftrightarrow> (\<exists>c rc body post. stops_at t_num c rc body \<and> uncommitted body \<and>
     es = body @ Diag ''slev'' [] # MysqlError t_num # post \<and>
     (\<exists>rc1 r1 rc2 r2. post = [Call t_num Rollback rc1 r1] \<or>
        post = [Call t_num (FreeResult 33) rc2 r2, Call t_num Rollback rc1 r1]))"

lemma slev_handlers_traced:
  "traced (\<lambda>v es. v = 0 \<and> (\<exists>rc r. es = [Diag ''slev'' [], MysqlError t_num, Call t_num Rollback rc r]))
     (\<lambda>_ _. False) (slev_sqlerr M t_num)"
  "traced (\<lambda>v es. v = 0 \<and> (\<exists>rc r rc' r'. es = [Diag ''slev'' [], MysqlError t_num,
      Call t_num (FreeResult 33) rc' r', Call t_num Rollback rc r]))
     (\<lambda>_ _. False) (slev_sqlerr2 M t_num)"
  by (rule tracedI, auto simp: slev_sqlerr_def slev_sqlerr2_def error_def emit_def free_result_def
      sql_def run_simps split: prod.splits)+

lemma slev_traced:
  "traced (\<lambda>v es. v = 1 \<and> committed t_num es \<or> v = 0 \<and> slev_given_up t_num es) no_escape
     (slev M fuel t_num w_id d_id level)"
  unfolding slev_def
proof (rule traced_handle [OF slev_body_traced])
  let ?N = "\<lambda>e v es. e \<in> {Goto Sqlerr, Goto Sqlerr2} \<and> v = (0 :: int) \<and>
    (\<exists>post. es = Diag ''slev'' [] # MysqlError t_num # post \<and>
      (\<exists>rc1 r1 rc2 r2. post = [Call t_num Rollback rc1 r1] \<or>
        post = [Call t_num (FreeResult 33) rc2 r2, Call t_num Rollback rc1 r1]))"
  show "traced (?N e) (\<lambda>e' es. e \<noteq> Goto Sqlerr \<and> e \<noteq> Goto Sqlerr2 \<and> e' = e)
      (if e = Goto Sqlerr then slev_sqlerr M t_num
       else if e = Goto Sqlerr2 then slev_sqlerr2 M t_num else halt e)" for e
    by (auto intro: traced_conseq [OF slev_handlers_traced(1)]
        traced_conseq [OF slev_handlers_traced(2)] traced_conseq [OF halt_escape])
  fix e es es' and v :: int
  assume f: "first_failure {Sqlerr, Sqlerr2} t_num e es \<and> uncommitted es" and n: "?N e v es'"
  then obtain l where "e = Goto l" "l \<noteq> Invaliditem" by auto
  with f first_failure_goto(1) obtain c rc where "stops_at t_num c rc es" by blast
  with f n show "v = 1 \<and> committed t_num (es @ es') \<or> v = 0 \<and> slev_given_up t_num (es @ es')"
    unfolding slev_given_up_def by blast
next
  show "no_escape e' (es @ es')"
    if "first_failure {Sqlerr, Sqlerr2} t_num e es \<and> uncommitted es"
      "e \<noteq> Goto Sqlerr \<and> e \<noteq> Goto Sqlerr2 \<and> e' = e" for e e' es es'
    using that by (auto simp: no_escape_def first_failure_def)
qed simp

interpretation slev_txn: transaction
  "slev M fuel t_num w_id d_id level" "committed t_num" "slev_given_up t_num"
  for M fuel t_num w_id d_id level
  by unfold_locales (rule slev_traced)

section \<open>Lemmas: results are freed\<close>

lemma sl_count_freed: "traced (\<lambda>_. quiet) (cursor_freed 33) (sl_count M t_num w_id ol_i_id level)"
  unfolding sl_count_def
  by (rule traced_conseq [OF query1_just_freed]) (auto simp: just_freed_def cursor_freed_def)

lemma sl_loop_shut:
  "traced (\<lambda>_. shut 33) (cursor_freed 33) (sl_loop M t_num w_id level fuel :: (('s, 'z) db_scheme, unit) cm)"
proof (induction fuel)
  case 0
  show ?case
    unfolding sl_loop.simps by (rule tracedI) (simp add: halt_eq cursor_freed_def)
next
  case (Suc fuel)
  have round: "traced (\<lambda>_. shut 33) (cursor_freed 33) (bnd (sl_count M t_num w_id i level)
      (\<lambda>_. sl_loop M t_num w_id level fuel :: (('s, 'z) db_scheme, unit) cm))" for i
    by (rule traced_bnd [OF sl_count_freed Suc.IH]) (auto intro: quiet_shut cur.bad_append)
  show ?case
    unfolding sl_loop.simps
  proof (rule traced_bnd [OF sql_fetch_quiet, where E = "\<lambda>_ _. False"])
    show "traced (\<lambda>_. shut 33) (cursor_freed 33) ((\<lambda>(rc, r). if rc = 0
        then bnd (sl_count M t_num w_id (col_long r 0) level)
          (\<lambda>_. sl_loop M t_num w_id level fuel :: (('s, 'z) db_scheme, unit) cm)
        else if rc = MYSQL_NO_DATA then free_result M t_num 33
        else thn (free_result M t_num 33) (halt (Goto Sqlerr))) a)" for a
      by (auto simp: case_prod_beta intro: round traced_conseq [OF free_result_shut]
          traced_conseq [OF free_then_halt] shut_cursor)
  qed (auto intro: quiet_shut cur.bad_append)
qed

lemma slev_freed:
  "traced (\<lambda>_ es. leak es \<or> quiet es) (\<lambda>_ _. True) (slev M fuel t_num w_id d_id level)"
  unfolding slev_def
proof (rule traced_handle)
  show "traced (\<lambda>_. quiet) freed (slev_body M fuel t_num w_id d_id level)"
    unfolding slev_body_def slev_work_def sl_district_def sl_items_def
    by (intro traced_intros opened_then [OF sl_loop_shut]) simp
  let ?N = "\<lambda>e es. e = Goto Sqlerr2 \<and> shut 33 es \<or> e \<noteq> Goto Sqlerr2 \<and> e \<noteq> OutOfFuel \<and> quiet es"
  show "traced (\<lambda>_. ?N e) (\<lambda>_ _. True) (if e = Goto Sqlerr then slev_sqlerr M t_num
       else if e = Goto Sqlerr2 then slev_sqlerr2 M t_num else halt e)" for e
    by (auto intro: traced_conseq [OF slev_handlers_traced(1)] traced_conseq [OF slev_handlers_traced(2)]
        traced_conseq [OF halt_escape] simp: quiet_def shut_def)
  show "leak (es @ es') \<or> quiet (es @ es')" if "freed e es" "?N e es'" for e es es'
  proof (cases "leak es")
    case False
    show ?thesis
    proof (cases "e = Goto Sqlerr2")
      case True
      with that False have "opens S es \<subseteq> insert 33 S" "shut 33 es'" for S
        by (auto simp: freed_def)
      then have "opens (opens S es) es' \<subseteq> S" for S
        using opens_mono [of "opens S es" "insert 33 S" es'] by (auto simp: shut_def)
      then show ?thesis by (simp add: quiet_def)
    next
      case False
      with that \<open>\<not> leak es\<close> show ?thesis using quiet_append [of es es'] by (auto simp: freed_def quiet_def)
    qed
  qed simp
qed simp_all

section \<open>Lemmas: the loop ends\<close>

text \<open>
  What the loop needs of the server: there is a number of rows left in the result of
  statement 33, at most \<open>n\<close>, that a successful fetch decreases and that the calls for
  statement 34 do not increase.
\<close>

fun on_statement :: "nat \<Rightarrow> call \<Rightarrow> bool" where
  "on_statement k (BindParam j ps) \<longleftrightarrow> j = k"
| "on_statement k (Execute j) \<longleftrightarrow> j = k"
| "on_statement k (StoreResult j) \<longleftrightarrow> j = k"
| "on_statement k (BindResult j cols) \<longleftrightarrow> j = k"
| "on_statement k (Fetch j) \<longleftrightarrow> j = k"
| "on_statement k (FreeResult j) \<longleftrightarrow> j = k"
| "on_statement k c \<longleftrightarrow> False"

definition rows_left :: "'s server \<Rightarrow> int \<Rightarrow> ('s \<Rightarrow> nat) \<Rightarrow> bool" where
  "rows_left M t_num left \<longleftrightarrow> (\<forall>w.
     (fst (M t_num (Fetch 33) w) = 0 \<longrightarrow> left (snd (snd (M t_num (Fetch 33) w))) < left w) \<and>
     (\<forall>c. on_statement 34 c \<longrightarrow> left (snd (snd (M t_num c w))) \<le> left w))"

interpretation lft: state_relation "\<lambda>s t. left (srv t) \<le> (left (srv s) :: nat)" for left
  by unfold_locales auto

lemma sql_left:
  assumes "rows_left M t_num left" and "on_statement 34 c"
  shows "keeps (\<lambda>s t. left (srv t) \<le> left (srv s)) (sql M t_num c)"
proof (rule keepsI)
  fix s :: "('a, 'b) db_scheme"
  have "left (snd (snd (M t_num c (srv s)))) \<le> left (srv s)"
    using assms by (simp add: rows_left_def)
  then show "left (srv (snd (sql M t_num c s))) \<le> left (srv s)"
    by (cases "M t_num c (srv s)") (simp add: sql_def)
qed

lemma checked_left:
  assumes "rows_left M t_num left" and "on_statement 34 c"
  shows "keeps (\<lambda>s t. left (srv t) \<le> left (srv s)) (checked M err t_num c)"
  unfolding checked_def
  by (intro lft.bnd_keeps sql_left [OF assms])
    (auto intro!: lft.halt_keeps lft.ret_keeps split: prod.splits)

lemma sl_count_left:
  assumes "rows_left M t_num left"
  shows "keeps (\<lambda>s t. left (srv t) \<le> left (srv s)) (sl_count M t_num w_id i level)"
  unfolding sl_count_def query1_def sql_exec_def open_result_def free_result_def fetch_row_def
    case_prod_beta
  by (intro lft.bnd_keeps lft.thn_keeps lft.if_keeps lft.ret_keeps lft.halt_keeps
      checked_left [OF assms] sql_left [OF assms]) simp_all

lemma sl_loop_enough:
  assumes "obliging M" and "rows_left M t_num left"
  shows "left (srv s) < fuel \<Longrightarrow> \<exists>u t. sl_loop M t_num w_id level fuel s = (Inr u, t)"
proof (induction fuel arbitrary: s)
  case (Suc fuel)
  obtain rc r w where run: "M t_num (Fetch 33) (srv s) = (rc, r, w)" by (metis prod.collapse)
  let ?s = "s\<lparr>srv := w, log := log s @ [Call t_num (Fetch 33) rc r]\<rparr>"
  have rc: "accepts (Fetch 33) rc" using obliging_accepts [OF assms(1) run] by simp
  show ?case
  proof (cases "rc = 0")
    case True
    have "succeeds (sl_count M t_num w_id (col_long r 0) level)"
      unfolding sl_count_def using assms(1) by (intro succeeds_intros) (simp_all add: read_to_end_def)
    then obtain x u where c: "sl_count M t_num w_id (col_long r 0) level ?s = (Inr x, u)"
      unfolding succeeds_def by blast
    have "left w < left (srv s)"
      using assms(2) [unfolded rows_left_def, THEN spec, of "srv s"] run True by simp
    moreover have "left (srv u) \<le> left w"
      using keepsD [OF sl_count_left [OF assms(2)] c] by simp
    ultimately have "left (srv u) < fuel" using Suc.prems by simp
    from Suc.IH [OF this] c True show ?thesis
      unfolding sl_loop_Suc [of M, OF run] by (simp add: bnd_def)
  next
    case False
    with rc have "rc = MYSQL_NO_DATA" by (auto simp: truncation_allowed_def)
    with False succeeds_calls(3) [of M t_num 33] show ?thesis
      unfolding sl_loop_Suc [of M, OF run] by (auto simp: succeeds_def)
  qed
qed simp

lemma slev_obliging_committed:
  assumes "obliging M" and "rows_left M t_num left" and "\<forall>w. left w < fuel"
  shows "\<exists>t es. slev M fuel t_num w_id d_id level s = (Inr 1, t) \<and> log t = log s @ es \<and>
    committed t_num es"
proof -
  have "succeeds (sl_loop M t_num w_id level fuel)"
    unfolding succeeds_def using sl_loop_enough [OF assms(1,2)] assms(3) by blast
  then have "succeeds (slev_body M fuel t_num w_id d_id level)"
    unfolding slev_body_def slev_work_def sl_district_def sl_items_def
    using assms(1) by (intro succeeds_intros) (simp_all add: read_to_end_def)
  then obtain v t where body: "slev_body M fuel t_num w_id d_id level s = (Inr v, t)"
    unfolding succeeds_def by blast
  from traced_ok [OF slev_body_traced body] obtain es
    where es: "v = 1" "log t = log s @ es" "committed t_num es" by auto
  have "slev M fuel t_num w_id d_id level s = (Inr v, t)"
    using body by (simp add: slev_def handle_def)
  with es show ?thesis by blast
qed

lemma calm_rows_left: "rows_left calm_server t_num (\<lambda>w. w mod 3)"
proof -
  have "(w - 1) mod 3 < w mod 3" if "w mod 3 \<noteq> 0" for w :: nat
    using that by (cases w) (auto simp: mod_Suc split: if_splits)
  moreover have "snd (snd (calm_server t_num c w)) = w" if "on_statement 34 c" for c w
    using that by (cases c) (auto simp: calm_server_def)
  ultimately show ?thesis
    by (auto simp: rows_left_def calm_server_def MYSQL_NO_DATA_def)
qed

section \<open>Lemmas: the statements of a successful run\<close>

definition slev_script :: "int \<Rightarrow> int \<Rightarrow> int \<Rightarrow> int \<Rightarrow> int list \<Rightarrow> (nat \<times> param list) list" where
  "slev_script w_id d_id level next items =
     [(32, [PLong d_id, PLong w_id]), (33, [PLong w_id, PLong d_id, PLong next, PLong next])] @
     map (\<lambda>i. (34, [PLong w_id, PLong i, PLong level])) items"

lemma sl_loop_did:
  "sl_loop M t_num w_id level fuel s = (Inr u, t) \<Longrightarrow> \<exists>rows.
     did s t (map (\<lambda>(i, c). (34, [PLong w_id, PLong (col_long i 0), PLong level])) rows)
       (concat (map (\<lambda>(i, c). [i, c]) rows))"
proof (induction fuel arbitrary: s)
  case (Suc fuel)
  obtain rc r w where run: "M t_num (Fetch 33) (srv s) = (rc, r, w)" by (metis prod.collapse)
  let ?s = "s\<lparr>srv := w, log := log s @ [Call t_num (Fetch 33) rc r]\<rparr>"
  show ?case
  proof (cases "rc = 0")
    case True
    then have d: "did s ?s [] [r]" by (simp add: did_def)
    from Suc.prems [unfolded sl_loop_Suc [of M, OF run]] True obtain c v where
      1: "sl_count M t_num w_id (col_long r 0) level ?s = (Inr c, v)" and
      2: "sl_loop M t_num w_id level fuel v = (Inr u, t)"
      by (auto simp: bnd_ok)
    obtain rows where rows: "did v t (map (\<lambda>(i, c). (34, [PLong w_id, PLong (col_long i 0), PLong level])) rows)
       (concat (map (\<lambda>(i, c). [i, c]) rows))" using Suc.IH [OF 2] by blast
    from did_trans [OF d did_trans [OF query1_did [OF 1 [unfolded sl_count_def]] rows]]
    show ?thesis by (intro exI [of _ "(r, c) # rows"]) simp
  next
    case False
    with Suc.prems [unfolded sl_loop_Suc [of M, OF run]]
    have nd: "rc = MYSQL_NO_DATA" "free_result M t_num 33 ?s = (Inr u, t)"
      by (auto simp: thn_ok split: if_splits)
    then have "did s ?s [] []" by (simp add: did_def MYSQL_NO_DATA_def MYSQL_DATA_TRUNCATED_def)
    from did_trans [OF this free_result_did [OF nd(2)]] show ?thesis
      by (intro exI [of _ "[]"]) simp
  qed
qed (simp add: halt_eq)

lemma slev_committed_did:
  assumes "slev M fuel t_num w_id d_id level s = (Inr 1, t)" and "log t = log s @ es"
  shows "\<exists>d_row rows. rows_of es = d_row # concat (map (\<lambda>(i, c). [i, c]) rows) \<and>
    cmds es = run_of (slev_script w_id d_id level (col_long d_row 0)
      (map (\<lambda>(i, c). col_long i 0) rows))"
proof -
  have "slev_body M fuel t_num w_id d_id level s = (Inr 1, t)"
    using assms(1) by (auto simp: slev_def handle_ok slev_sqlerr_def slev_sqlerr2_def thn_ok bnd_ok
        split: if_splits)
  then obtain a u where "slev_work M fuel t_num w_id d_id level s = (Inr a, u)" and d: "did u t [] []"
    unfolding slev_body_def by (rule body_then_commit)
  then obtain d_row s1 u1 s2 u2 s3 where
    1: "sl_district M t_num w_id d_id s = (Inr d_row, s1)" and
    2: "sql_exec M Sqlerr t_num 33 [PLong w_id, PLong d_id, PLong (col_long d_row 0),
      PLong (col_long d_row 0)] s1 = (Inr u1, s2)" and
    3: "open_result M Sqlerr t_num 33 [ColLong] s2 = (Inr u2, s3)" and
    4: "sl_loop M t_num w_id level fuel s3 = (Inr a, u)"
    by (auto simp: slev_work_def sl_items_def bnd_ok thn_ok)
  obtain rows where rows: "did s3 u (map (\<lambda>(i, c). (34, [PLong w_id, PLong (col_long i 0), PLong level])) rows)
       (concat (map (\<lambda>(i, c). [i, c]) rows))" using sl_loop_did [OF 4] by blast
  have "did s t (slev_script w_id d_id level (col_long d_row 0) (map (\<lambda>(i, c). col_long i 0) rows))
      (d_row # concat (map (\<lambda>(i, c). [i, c]) rows))"
    using did_trans [OF query1_did [OF 1 [unfolded sl_district_def]] did_trans [OF sql_exec_did [OF 2]
      did_trans [OF open_result_did [OF 3] did_trans [OF rows d]]]]
    by (simp add: slev_script_def split_def comp_def)
  with assms(2) show ?thesis by (auto simp: did_def)
qed

section \<open>Properties\<close>

text \<open>
  Stock-Level returns, and commits, when the server accepts every call and the
  rows left in its first result decrease: any fuel above their number is enough.
\<close>

theorem slev_enough_fuel:
  assumes "obliging M" and "rows_left M t_num left" and "\<forall>w. left w < fuel"
  shows "\<exists>t es. slev M fuel t_num w_id d_id level s = (Inr 1, t) \<and> log t = log s @ es \<and>
    committed t_num es"
  by (rule slev_obliging_committed [OF assms])

theorem slev_enough_fuel_witness:
  "\<exists>t es. slev calm_server 3 0 1 2 15 example_db = (Inr 1, t) \<and> log t = log example_db @ es \<and>
    committed 0 es"
  by (rule slev_enough_fuel [OF calm_obliging calm_rows_left]) simp

text \<open>
  Property C9. A successful Stock-Level counts the stock of every item it has fetched, once
  and in the order of the rows, for the twenty orders below the district's next number.
\<close>

theorem slev_counts_items:
  assumes "slev M fuel t_num w_id d_id level s = (Inr 1, t)" and "log t = log s @ es"
  shows "\<exists>d_row rows. rows_of es = d_row # concat (map (\<lambda>(i, c). [i, c]) rows) \<and>
    cmds es = run_of (slev_script w_id d_id level (col_long d_row 0)
      (map (\<lambda>(i, c). col_long i 0) rows))"
  by (rule slev_committed_did [OF assms])

theorem slev_counts_items_witness:
  "\<exists>t es. slev calm_server 3 0 1 2 15 example_db = (Inr 1, t) \<and> log t = log example_db @ es \<and>
    (\<exists>d_row rows. rows_of es = d_row # concat (map (\<lambda>(i, c). [i, c]) rows) \<and>
      cmds es = run_of (slev_script 1 2 15 (col_long d_row 0) (map (\<lambda>(i, c). col_long i 0) rows)))"
proof -
  have "\<forall>w :: nat. w mod 3 < 3" by simp
  from slev_obliging_committed [OF calm_obliging calm_rows_left this] obtain t es where
    run: "slev calm_server 3 0 1 2 15 example_db = (Inr 1, t)" "log t = log example_db @ es" by blast
  from slev_counts_items [OF this]
  show ?thesis by (intro exI [of _ t] exI [of _ es] conjI run)
qed

end
