(* ===== verification/Driver.thy ===== *)
theory Driver
  imports Slev
begin

text \<open>
  The driver of one terminal thread, \<^verbatim>\<open>tpcc-mysql/src/driver.c\<close>: the random input of the five
  transactions, the loop that repeats a transaction until it succeeds, the counters and
  response times it records, the rate limit, and the loop over the transactions of the mix.

  The thread shares its counters and flags with the other threads and with \<^verbatim>\<open>main.c\<close>. Here the
  thread runs alone: \<open>counting_on\<close> and \<open>activate_transaction\<close>, which the main thread changes
  at any time, are streams of the values found at each test; what the races on the counters
  do is the subject of theory Races. Loops that the code writes without a bound (the search
  for another warehouse, the rate limit, the main loop) have fuel.
\<close>

section \<open>State\<close>

text \<open>
  The arrays \<open>success\<close>, \<open>late\<close>, \<open>retry\<close> and \<open>failure\<close> are \<open>tally1\<close>, one element per
  transaction; \<open>success2\<close> and so on, with one element per transaction and thread, are
  \<open>tally2\<close>.
\<close>

datatype tally = Success | Late | Retried | Failure

record 's drv = "'s db" +
  tods :: "(int \<times> int) stream"  \<comment> \<open>the results of \<open>gettimeofday\<close>: seconds, microseconds\<close>
  rate_last_seconds :: rat
  rate_last_transactions :: int
  num_neword_per_10_sec :: int
  num_ware :: int
  num_conn :: int
  num_node :: int
  activate_transaction :: "bool stream"
  counting_on :: "bool stream"
  time_count :: int
  freport_file :: "(int \<times> rat) list option"  \<comment> \<open>the lines written, if the file is open\<close>
  tally1 :: "tally \<Rightarrow> int list"
  tally2 :: "tally \<Rightarrow> int list list"

definition MAX_RETRY :: nat where
  "MAX_RETRY = 2000"

definition RTIME_NEWORD :: rat where
  "RTIME_NEWORD = 5"

definition RTIME_PAYMENT :: rat where
  "RTIME_PAYMENT = 5"

definition RTIME_ORDSTAT :: rat where
  "RTIME_ORDSTAT = 5"

definition RTIME_DELIVERY :: rat where
  "RTIME_DELIVERY = 80"

definition RTIME_SLEV :: rat where
  "RTIME_SLEV = 20"

definition test_counting :: "(('s, 'z) drv_scheme, bool) cm" where
  "test_counting s = (Inr (shd (counting_on s)), s\<lparr>counting_on := stl (counting_on s)\<rparr>)"

definition test_activate :: "(('s, 'z) drv_scheme, bool) cm" where
  "test_activate s =
     (Inr (shd (activate_transaction s)), s\<lparr>activate_transaction := stl (activate_transaction s)\<rparr>)"

text \<open>\<open>success[tr]++; success2[tr][t_num]++\<close> and the like.\<close>

definition count :: "tally \<Rightarrow> nat \<Rightarrow> int \<Rightarrow> int \<Rightarrow> (('s, 'z) drv_scheme, unit) cm" where
  "count c tr t_num d s =
     (if 0 \<le> t_num \<and> t_num < num_conn s
      then (Inr (), s\<lparr>
         tally1 := (tally1 s)(c := (tally1 s c)[tr := tally1 s c ! tr + d]),
         tally2 := (tally2 s)(c := (tally2 s c)[tr := (tally2 s c ! tr)
           [nat t_num := tally2 s c ! tr ! nat t_num + d]])\<rparr>)
      else (Inl OutOfBounds, s))"

section \<open>One transaction, repeated until it succeeds\<close>

text \<open>The response time in milliseconds, in \<open>double\<close>, from two results of \<open>clock_gettime\<close>.\<close>

definition elapsed_ms :: "int \<times> int \<Rightarrow> int \<times> int \<Rightarrow> rat" where
  "elapsed_ms = (\<lambda>(s1, n1) (s2, n2).
     f64 (f64 (f64 (f64 (of_int s2 * 1000) + f64 (of_int n2 / 1000000)) - f64 (of_int s1 * 1000))
       - f64 (of_int n1 / 1000000)))"

text \<open>Only New-Order writes its response times to the report file.\<close>

definition report_rt :: "nat \<Rightarrow> rat \<Rightarrow> (('s, 'z) drv_scheme, unit) cm" where
  "report_rt tr rt = modify (\<lambda>s. case freport_file s of
       Some ls \<Rightarrow> if tr = 0 then s\<lparr>freport_file := Some (ls @ [(time_count s, rt)])\<rparr> else s
     | None \<Rightarrow> s)"

definition finish :: "nat \<Rightarrow> rat \<Rightarrow> int \<Rightarrow> rat \<Rightarrow> (('s, 'z) drv_scheme, unit) cm" where
  "finish tr limit t_num rt =
     thn (report_rt tr rt)
    (thn (bnd (gets max_rt) (\<lambda>ms. bnd (rd ms (int tr)) (\<lambda>m.
        on_cond (rt > m) (modify (\<lambda>s. s\<lparr>max_rt := (max_rt s)[tr := rt]\<rparr>)))))
    (thn (hist_inc (int tr) rt)
    (bnd test_counting (\<lambda>counting. on_cond counting
       (if rt < limit then count Success tr t_num 1 else count Late tr t_num 1)))))"

text \<open>The loop; the number is the number of rounds left.\<close>

primrec attempts :: "(('s, 'z) drv_scheme, int) cm \<Rightarrow> nat \<Rightarrow> rat \<Rightarrow> int \<Rightarrow> int \<times> int \<Rightarrow> nat \<Rightarrow>
    (('s, 'z) drv_scheme, int) cm" where
  "attempts txn tr limit t_num tbuf1 0 = bnd test_counting (\<lambda>counting.
     thn (on_cond counting (thn (count Retried tr t_num (- 1)) (count Failure tr t_num 1)))
      (ret 0))"
| "attempts txn tr limit t_num tbuf1 (Suc n) = bnd txn (\<lambda>r. bnd clock_gettime (\<lambda>tbuf2.
     if r \<noteq> 0 then thn (finish tr limit t_num (elapsed_ms tbuf1 tbuf2)) (ret 1)
     else bnd test_counting (\<lambda>counting.
       thn (on_cond counting (count Retried tr t_num 1))
         (attempts txn tr limit t_num tbuf1 n))))"

definition run_txn :: "(('s, 'z) drv_scheme, int) cm \<Rightarrow> nat \<Rightarrow> rat \<Rightarrow> int \<Rightarrow>
    (('s, 'z) drv_scheme, int) cm" where
  "run_txn txn tr limit t_num = bnd clock_gettime (\<lambda>tbuf1.
     attempts txn tr limit t_num tbuf1 MAX_RETRY)"

section \<open>Random input\<close>

definition pick_ware :: "int \<Rightarrow> (('s, 'z) drv_scheme, int) cm" where
  "pick_ware t_num = bnd (gets num_ware) (\<lambda>nw. bnd (gets num_node) (\<lambda>nn. bnd (gets num_conn) (\<lambda>nc.
     if nn = 0 then RandomNumber 1 nw
     else if nc = 0 then halt DivZero
     else let c_num = (nn * t_num) sdiv nc in
       RandomNumber (1 + (nw * c_num) sdiv nn) ((nw * (c_num + 1)) sdiv nn))))"

primrec other_ware_loop :: "nat \<Rightarrow> int \<Rightarrow> int \<Rightarrow> (('s, 'z) drv_scheme, int) cm" where
  "other_ware_loop 0 nw home_ware = halt OutOfFuel"
| "other_ware_loop (Suc fuel) nw home_ware = bnd (RandomNumber 1 nw) (\<lambda>tmp.
     if tmp = home_ware then other_ware_loop fuel nw home_ware else ret tmp)"

definition other_ware :: "nat \<Rightarrow> int \<Rightarrow> (('s, 'z) drv_scheme, int) cm" where
  "other_ware fuel home_ware = bnd (gets num_ware) (\<lambda>nw.
     if nw = 1 then ret home_ware else other_ware_loop fuel nw home_ware)"

text \<open>The arrays \<open>itemid\<close>, \<open>supware\<close> and \<open>qty\<close> up to the line filled so far, and \<open>all_local\<close>.\<close>

record order_input =
  itemid :: "int list"
  supware :: "int list"
  qty :: "int list"
  all_local :: int

definition input_line :: "nat \<Rightarrow> int \<Rightarrow> int \<Rightarrow> int \<Rightarrow> int \<Rightarrow> order_input \<Rightarrow>
    (('s, 'z) drv_scheme, order_input) cm" where
  "input_line fuel w_id ol_cnt rbk i l =
     bnd (NURand 8191 1 MAXITEMS) (\<lambda>item.
     let item = (if i = ol_cnt - 1 \<and> rbk = 1 then MAXITEMS + 1 else item) in
     bnd (RandomNumber 1 100) (\<lambda>r.
     bnd (if r \<noteq> 1 then ret (w_id, all_local l)
          else bnd (other_ware fuel w_id) (\<lambda>w. ret (w, 0))) (\<lambda>(sw, al).
     bnd (RandomNumber 1 10) (\<lambda>q.
       ret \<lparr>itemid = itemid l @ [item], supware = supware l @ [sw], qty = qty l @ [q],
            all_local = al\<rparr>))))"

definition neword_input :: "nat \<Rightarrow> int \<Rightarrow>
    (('s, 'z) drv_scheme, int \<times> int \<times> int \<times> int \<times> order_input) cm" where
  "neword_input fuel t_num =
     bnd (pick_ware t_num) (\<lambda>w_id.
     bnd (RandomNumber 1 DIST_PER_WARE) (\<lambda>d_id.
     bnd (NURand 1023 1 CUST_PER_DIST) (\<lambda>c_id.
     bnd (RandomNumber 5 15) (\<lambda>ol_cnt.
     bnd (RandomNumber 1 100) (\<lambda>rbk.
     bnd (cfold [0..ol_cnt - 1] (input_line fuel w_id ol_cnt rbk)
            \<lparr>itemid = [], supware = [], qty = [], all_local = 1\<rparr>) (\<lambda>l.
       ret (w_id, d_id, c_id, ol_cnt, l)))))))"

definition do_neword :: "'s server \<Rightarrow> nat \<Rightarrow> int \<Rightarrow> (('s, 'z) drv_scheme, int) cm" where
  "do_neword M fuel t_num = bnd (neword_input fuel t_num) (\<lambda>(w_id, d_id, c_id, ol_cnt, l).
     run_txn (neword M t_num w_id d_id c_id ol_cnt (all_local l) (itemid l) (supware l) (qty l))
       0 RTIME_NEWORD t_num)"

definition do_payment :: "'s server \<Rightarrow> nat \<Rightarrow> int \<Rightarrow> (('s, 'z) drv_scheme, int) cm" where
  "do_payment M fuel t_num =
     bnd (pick_ware t_num) (\<lambda>w_id.
     bnd (RandomNumber 1 DIST_PER_WARE) (\<lambda>d_id.
     bnd (NURand 1023 1 CUST_PER_DIST) (\<lambda>c_id.
     bnd (bnd (NURand 255 0 999) Lastname) (\<lambda>c_last.
     bnd (RandomNumber 1 5000) (\<lambda>h_amount.
     bnd (RandomNumber 1 100) (\<lambda>r.
     bnd (RandomNumber 1 100) (\<lambda>r'.
     bnd (if r' \<le> 85 then ret (w_id, d_id)
          else bnd (other_ware fuel w_id) (\<lambda>w. bnd (RandomNumber 1 DIST_PER_WARE) (\<lambda>d. ret (w, d))))
       (\<lambda>(c_w_id, c_d_id).
     run_txn (payment M t_num w_id d_id (r \<le> 60) c_w_id c_d_id c_id c_last (of_int h_amount))
       1 RTIME_PAYMENT t_num))))))))"

definition do_ordstat :: "'s server \<Rightarrow> nat \<Rightarrow> int \<Rightarrow> (('s, 'z) drv_scheme, int) cm" where
  "do_ordstat M fuel t_num =
     bnd (pick_ware t_num) (\<lambda>w_id.
     bnd (RandomNumber 1 DIST_PER_WARE) (\<lambda>d_id.
     bnd (NURand 1023 1 CUST_PER_DIST) (\<lambda>c_id.
     bnd (bnd (NURand 255 0 999) Lastname) (\<lambda>c_last.
     bnd (RandomNumber 1 100) (\<lambda>r.
     run_txn (ordstat M fuel t_num w_id d_id (r \<le> 60) c_id c_last) 2 RTIME_ORDSTAT t_num)))))"

definition do_delivery :: "'s server \<Rightarrow> int \<Rightarrow> (('s, 'z) drv_scheme, int) cm" where
  "do_delivery M t_num =
     bnd (pick_ware t_num) (\<lambda>w_id.
     bnd (RandomNumber 1 10) (\<lambda>o_carrier_id.
     run_txn (delivery M t_num w_id o_carrier_id) 3 RTIME_DELIVERY t_num))"

definition do_slev :: "'s server \<Rightarrow> nat \<Rightarrow> int \<Rightarrow> (('s, 'z) drv_scheme, int) cm" where
  "do_slev M fuel t_num =
     bnd (pick_ware t_num) (\<lambda>w_id.
     bnd (RandomNumber 1 DIST_PER_WARE) (\<lambda>d_id.
     bnd (RandomNumber 10 20) (\<lambda>level.
     run_txn (slev M fuel t_num w_id d_id level) 4 RTIME_SLEV t_num)))"

section \<open>The rate limit\<close>

definition transaction_interval :: int where
  "transaction_interval = 10"

text \<open>\<open>tv_usec/1000000\<close> is a division of integers.\<close>

definition now_seconds :: "(('s, 'z) drv_scheme, rat) cm" where
  "now_seconds s = (case shd (tods s) of (sec, usec) \<Rightarrow>
     (Inr (f64 (of_int (sec + usec sdiv 1000000))), s\<lparr>tods := stl (tods s)\<rparr>))"

definition open_window :: "int \<Rightarrow> (('s, 'z) drv_scheme, unit) cm" where
  "open_window t_num = on_cond (t_num = 0) (bnd now_seconds (\<lambda>current_seconds.
     modify (\<lambda>s. if current_seconds > f64 (rate_last_seconds s + of_int transaction_interval)
       then s\<lparr>rate_last_seconds := current_seconds,
              rate_last_transactions := tally1 s Success ! 0\<rparr>
       else s)))"

definition current_tps :: "rat \<Rightarrow> ('s, 'z) drv_scheme \<Rightarrow> dbl" where
  "current_tps current_seconds s = dbl_times
     (dbl_div (f64 (of_int (tally1 s Success ! 0 - rate_last_transactions s)))
        (f64 (current_seconds - rate_last_seconds s)))
     (of_int transaction_interval)"

primrec tarpit :: "nat \<Rightarrow> (('s, 'z) drv_scheme, unit) cm" where
  "tarpit 0 = halt OutOfFuel"
| "tarpit (Suc fuel) = bnd now_seconds (\<lambda>current_seconds.
     bnd (gets (current_tps current_seconds)) (\<lambda>tps. bnd (gets num_neword_per_10_sec) (\<lambda>limit.
       if dbl_greater tps (of_int limit) then tarpit fuel else ret ())))"

section \<open>The loop over the transactions\<close>

definition dispatch :: "'s server \<Rightarrow> nat \<Rightarrow> int \<Rightarrow> int \<Rightarrow> (('s, 'z) drv_scheme, unit) cm" where
  "dispatch M fuel t_num k =
     (if k = 0 then bnd (do_neword M fuel t_num) (\<lambda>_. ret ())
      else if k = 1 then bnd (do_payment M fuel t_num) (\<lambda>_. ret ())
      else if k = 2 then bnd (do_ordstat M fuel t_num) (\<lambda>_. ret ())
      else if k = 3 then bnd (do_delivery M t_num) (\<lambda>_. ret ())
      else if k = 4 then bnd (do_slev M fuel t_num) (\<lambda>_. ret ())
      else emit (Diag ''Error - Unknown sequence.'' []))"

definition drive_once :: "'s server \<Rightarrow> nat \<Rightarrow> int \<Rightarrow> (('s, 'z) drv_scheme, unit) cm" where
  "drive_once M fuel t_num =
     thn (open_window t_num) (thn (tarpit fuel) (bnd seq_get (dispatch M fuel t_num)))"

primrec driver :: "'s server \<Rightarrow> nat \<Rightarrow> int \<Rightarrow> nat \<Rightarrow> (('s, 'z) drv_scheme, int) cm" where
  "driver M fuel t_num 0 = halt OutOfFuel"
| "driver M fuel t_num (Suc rounds) = bnd test_activate (\<lambda>active.
     if active then thn (drive_once M fuel t_num) (driver M fuel t_num rounds) else ret 0)"


section \<open>Lemmas: what a transaction leaves alone\<close>

text \<open>
  The transaction functions change the server, the log, \<open>proceed\<close> and the time stamps, and
  read the clock; the histogram and the fields of the driver are not theirs.
\<close>

definition below :: "('s, 'z) db_scheme \<Rightarrow> ('s, 'z) db_scheme \<Rightarrow> bool" where
  "below s t \<longleftrightarrow> db.more t = db.more s \<and> max_rt t = max_rt s \<and> cur_hist t = cur_hist s \<and>
     total_hist t = total_hist s \<and> cur_max_rt t = cur_max_rt s \<and>
     (\<exists>n. clocks t = sdrop n (clocks s))"

interpretation blw: state_relation below
proof
  show "below s s" for s :: "('s, 'z) db_scheme"
    unfolding below_def by (auto intro: exI [of _ 0])
  show "below s u" if "below s t" "below t u" for s t u :: "('s, 'z) db_scheme"
  proof -
    from that obtain m n where "clocks t = sdrop m (clocks s)" "clocks u = sdrop n (clocks t)"
      by (auto simp: below_def)
    then have "clocks u = sdrop (m + n) (clocks s)" by (simp add: sdrop_add)
    with that show ?thesis unfolding below_def by (auto intro: exI [of _ "m + n"])
  qed
qed

lemma sql_below [keeps_intros]: "keeps below (sql M t_num c)"
  by (rule keepsI) (auto simp: sql_def below_def intro: exI [of _ 0] split: prod.split)

lemma state_below [keeps_intros]:
  "keeps below (set_proceed n)" "keeps below (emit ev)" "keeps below clock_gettime"
  "keeps below (gettimestamp :: (('s, 'z) db_scheme, string) cm)"
  by (auto simp: keeps_def below_def set_proceed_def emit_def clock_gettime_def
      gettimestamp_def intro: exI [of _ 0] exI [of _ 1] split: option.split)

lemma checked_below [keeps_intros]: "keeps below (checked M err t_num c)"
  unfolding checked_def case_prod_beta by (intro keeps_intros)

lemma calls_below [keeps_intros]:
  "keeps below (sql_exec M err t_num k ps)" "keeps below (open_result M err t_num k cols)"
  "keeps below (free_result M t_num k)"
  unfolding sql_exec_def open_result_def free_result_def by (intro keeps_intros)+

lemma fetch_row_below [keeps_intros]: "keeps below (fetch_row M lbl t_num k oks)"
  unfolding fetch_row_def case_prod_beta by (intro keeps_intros)

lemma query1_below [keeps_intros]: "keeps below (query1 M err t_num k ps cols oks)"
  unfolding query1_def by (intro keeps_intros)

lemma sqlerr_below [keeps_intros]: "keeps below (sqlerr M fn t_num)" "keeps below (error t_num)"
  unfolding sqlerr_def error_def by (intro keeps_intros)+

lemma neword_below: "keeps below (neword M t_num w_id d_id c_id o_ol_cnt o_all_local its sws qs)"
  unfolding neword_def neword_body_def neword_work_def neword_lines_def neword_line_def
    neword_statements trx_line_def Let_def case_prod_beta
  by (intro keeps_intros)

lemma payment_below:
  "keeps below (payment M t_num w_id d_id byname c_w_id c_d_id c_id c_last h_amount)"
  unfolding payment_def payment_body_def payment_parts by (intro keeps_intros)

lemma fetch_items_below [keeps_intros]: "keeps below (fetch_items M t_num fuel)"
  by (induction fuel) (auto simp: case_prod_beta intro!: keeps_intros)

lemma ordstat_below: "keeps below (ordstat M fuel t_num w_id d_id byname c_id c_last)"
  unfolding ordstat_def ordstat_body_def ordstat_parts
  by (intro keeps_intros)

lemma delivery_below: "keeps below (delivery M t_num w_id o_carrier_id)"
  unfolding delivery_def delivery_body_def delivery_district_def delivery_order_def
    delivery_statements Let_def
  by (intro keeps_intros)

lemma sl_loop_below [keeps_intros]: "keeps below (sl_loop M t_num w_id level fuel)"
  by (induction fuel) (auto simp: case_prod_beta sl_count_def intro!: keeps_intros)

lemma slev_below: "keeps below (slev M fuel t_num w_id d_id level)"
  unfolding slev_def slev_body_def slev_work_def sl_district_def sl_items_def slev_sqlerr_def
    slev_sqlerr2_def
  by (intro keeps_intros)

section \<open>Lemmas: counters\<close>

text \<open>The counters of transaction \<open>tr\<close> and of the thread have grown by \<open>d\<close>, no others.\<close>

definition gained :: "nat \<Rightarrow> int \<Rightarrow> (tally \<Rightarrow> int) \<Rightarrow> ('s, 'z) drv_scheme \<Rightarrow> ('s, 'z) drv_scheme \<Rightarrow> bool" where
  "gained tr t_num d s t \<longleftrightarrow> (\<forall>c.
     tally1 t c = (tally1 s c)[tr := tally1 s c ! tr + d c] \<and>
     tally2 t c = (tally2 s c)[tr := (tally2 s c ! tr)[nat t_num := tally2 s c ! tr ! nat t_num + d c]])"

text \<open>What the steps beside the transactions and the counters leave alone.\<close>

definition aside :: "('s, 'z) drv_scheme \<Rightarrow> ('s, 'z) drv_scheme \<Rightarrow> bool" where
  "aside s t \<longleftrightarrow> log t = log s \<and> tally1 t = tally1 s \<and> tally2 t = tally2 s \<and>
     counting_on t = counting_on s \<and> num_conn t = num_conn s \<and> num_ware t = num_ware s \<and>
     num_node t = num_node s \<and> time_count t = time_count s \<and> drv.more t = drv.more s"

interpretation asd: state_relation aside
  by unfold_locales (simp_all add: aside_def)

lemma below_drv:
  fixes s t :: "('s, 'z) drv_scheme"
  assumes "below s t"
  shows "tally1 t = tally1 s \<and> tally2 t = tally2 s \<and> counting_on t = counting_on s \<and>
    num_conn t = num_conn s \<and> num_ware t = num_ware s \<and> num_node t = num_node s"
  using assms by (cases s, cases t) (simp add: below_def)

lemma gained_refl: "tally1 t = tally1 s \<Longrightarrow> tally2 t = tally2 s \<Longrightarrow> gained tr t_num (\<lambda>_. 0) s t"
  by (simp add: gained_def)

lemma bump_twice:
  "(xs[i := xs ! i + d])[i := (xs[i := xs ! i + d]) ! i + e] = xs[i := xs ! i + (d + e :: int)]"
  by (cases "i < length xs") (simp_all add: add.assoc list_update_beyond)

lemma bump_row_twice:
  fixes m :: "int list list"
  assumes "m' = m[i := (m ! i)[j := m ! i ! j + d]]"
  shows "m'[i := (m' ! i)[j := m' ! i ! j + e]] = m[i := (m ! i)[j := m ! i ! j + (d + e)]]"
proof (cases "i < length m")
  case True
  then have "m' ! i = (m ! i)[j := m ! i ! j + d]" by (simp add: assms)
  then have "(m' ! i)[j := m' ! i ! j + e] = (m ! i)[j := m ! i ! j + (d + e)]"
    by (simp only: bump_twice)
  then show ?thesis by (simp add: assms)
qed (simp add: assms list_update_beyond)

lemma gained_trans:
  assumes "gained tr t_num d s t" and "gained tr t_num e t u"
  shows "gained tr t_num (\<lambda>c. d c + e c) s u"
  unfolding gained_def
proof (intro allI conjI)
  fix c
  show "tally1 u c = (tally1 s c)[tr := tally1 s c ! tr + (d c + e c)]"
    using assms bump_twice [of "tally1 s c" tr "d c" "e c"] by (simp add: gained_def)
  show "tally2 u c = (tally2 s c)
      [tr := (tally2 s c ! tr)[nat t_num := tally2 s c ! tr ! nat t_num + (d c + e c)]]"
    using assms bump_row_twice [of "tally2 t c" "tally2 s c" tr "nat t_num" "d c" "e c"]
    by (simp add: gained_def)
qed

lemma gained_eq: "gained tr t_num d s t \<Longrightarrow> (\<And>c. d c = e c) \<Longrightarrow> gained tr t_num e s t"
  by (simp add: gained_def)

lemma gained_after:
  "aside s t \<Longrightarrow> gained tr t_num d t u \<Longrightarrow> gained tr t_num d s u"
  "gained tr t_num d s t \<Longrightarrow> aside t u \<Longrightarrow> gained tr t_num d s u"
  by (simp_all add: gained_def aside_def)

lemma count_ok:
  assumes "count c tr t_num d s = (Inr u, t)"
  shows "gained tr t_num ((\<lambda>_. 0)(c := d)) s t \<and> log t = log s \<and> counting_on t = counting_on s"
  using assms by (auto simp: count_def gained_def split: if_splits)

text \<open>The counters are on for the whole run, as in the measured interval.\<close>

definition always_on :: "bool stream" where
  "always_on = sconst True"

lemma always_on_simps [simp]: "shd always_on" "stl always_on = always_on"
  by (simp_all add: always_on_def)

lemma test_counting_on: "counting_on s = always_on \<Longrightarrow> test_counting s = (Inr True, s)"
  by (simp add: test_counting_def)

lemma bnd_counting_on: "counting_on s = always_on \<Longrightarrow> bnd test_counting f s = f True s"
  by (simp add: bnd_Inr [OF test_counting_on])

section \<open>Lemmas: the retry loop\<close>

definition gains :: "int \<Rightarrow> tally \<Rightarrow> tally \<Rightarrow> int" where
  "gains retries c = (\<lambda>_. 0)(Retried := retries, c := 1)"

lemma hist_inc_aside [keeps_intros]: "keeps aside (hist_inc tr rt)"
  by (rule keepsI)
    (auto simp: hist_inc_def Let_def aside_def bump_cell_def run_simps split: if_splits)

lemma report_rt_aside [keeps_intros]: "keeps aside (report_rt tr rt)"
  by (rule keepsI) (simp add: report_rt_def aside_def split: option.split)

lemma max_rt_aside [keeps_intros]: "keeps aside (modify (\<lambda>s. s\<lparr>max_rt := f s\<rparr>))"
  by (rule keepsI) (simp add: aside_def)

lemma finish_ok:
  assumes "finish tr limit t_num rt s = (Inr u, t)" and "counting_on s = always_on"
  shows "log t = log s \<and> counting_on t = always_on \<and>
    gained tr t_num ((\<lambda>_. 0)((if rt < limit then Success else Late) := 1)) s t"
proof -
  let ?pre = "thn (report_rt tr rt)
    (thn (bnd (gets max_rt) (\<lambda>ms. bnd (rd ms (int tr)) (\<lambda>m.
        on_cond (rt > m) (modify (\<lambda>s. s\<lparr>max_rt := (max_rt s)[tr := rt]\<rparr>)))))
      (hist_inc (int tr) rt)) :: (('a, 'b) drv_scheme, unit) cm"
  have pre: "keeps aside ?pre" by (intro keeps_intros)
  obtain s1 where s1: "?pre s = (Inr (), s1)" and
    c: "bnd test_counting (\<lambda>counting. on_cond counting
       (if rt < limit then count Success tr t_num 1 else count Late tr t_num 1)) s1 = (Inr u, t)"
    using assms(1) by (auto simp: finish_def thn_ok)
  have a: "aside s s1" by (rule keepsD [OF pre s1])
  then have k: "counting_on s1 = always_on" using assms(2) by (simp add: aside_def)
  have "(if rt < limit then count Success tr t_num 1 else count Late tr t_num 1) s1 = (Inr u, t)"
    using c by (simp add: bnd_counting_on [OF k] on_cond_def)
  then have "count (if rt < limit then Success else Late) tr t_num 1 s1 = (Inr u, t)"
    by (simp split: if_splits)
  from count_ok [OF this] gained_after(1) [OF a] k a show ?thesis
    by (simp add: aside_def)
qed

text \<open>
  A transaction that the driver can repeat: its outcome, and that it leaves alone what the
  driver counts with.
\<close>

locale repeatable = transaction txn finished given_up
  for txn :: "(('s, 'z) drv_scheme, int) cm"
    and finished :: "event list \<Rightarrow> bool"
    and given_up :: "event list \<Rightarrow> bool" +
  assumes frame: "keeps below txn"
begin

lemma attempts_outcome:
  "attempts txn tr limit t_num tbuf1 n s = (Inr v, t) \<Longrightarrow> counting_on s = always_on \<Longrightarrow>
   \<exists>ess es. log t = log s @ concat ess @ es \<and> (\<forall>es' \<in> set ess. given_up es') \<and>
     (v = 1 \<and> length ess < n \<and> finished es \<and> (\<exists>c \<in> {Success, Late}.
        gained tr t_num (gains (int (length ess)) c) s t) \<or>
      v = 0 \<and> length ess = n \<and> es = [] \<and>
        gained tr t_num (gains (int n - 1) Failure) s t)"
proof (induction n arbitrary: s)
  case 0
  from 0(1) obtain s1 u where 1: "count Retried tr t_num (- 1) s = (Inr (), s1)" and
    2: "count Failure tr t_num 1 s1 = (Inr u, t)" and v: "v = 0"
    by (auto simp: thn_ok on_cond_def bnd_counting_on [OF 0(2)])
  from gained_trans [OF count_ok [OF 1, THEN conjunct1] count_ok [OF 2, THEN conjunct1]]
  have "gained tr t_num (gains (int 0 - 1) Failure) s t"
    by (rule gained_eq) (simp add: gains_def)
  with v count_ok [OF 1] count_ok [OF 2] show ?case
    by (intro exI [of _ "[]"]) simp
next
  case (Suc n)
  from Suc.prems(1) obtain r s1 tbuf2 s2 where
    1: "txn s = (Inr r, s1)" and 2: "clock_gettime s1 = (Inr tbuf2, s2)" and
    3: "(if r \<noteq> 0 then thn (finish tr limit t_num (elapsed_ms tbuf1 tbuf2)) (ret 1)
      else bnd test_counting (\<lambda>counting. thn (on_cond counting (count Retried tr t_num 1))
        (attempts txn tr limit t_num tbuf1 n))) s2 = (Inr v, t)"
    by (auto simp: bnd_ok)
  have "below s s1" by (rule keepsD [OF frame 1])
  moreover have "aside s1 s2" using 2 by (auto simp: clock_gettime_def aside_def)
  ultimately have same: "tally1 s2 = tally1 s" "tally2 s2 = tally2 s" "log s2 = log s1"
    and k: "counting_on s2 = always_on"
    using below_drv [of s s1] Suc.prems(2) by (simp_all add: aside_def)
  have first: "gained tr t_num (\<lambda>_. 0) s s2" by (rule gained_refl [OF same(1,2)])
  show ?case
  proof (cases "r = 0")
    case False
    with 1 returns_flag have "r = 1" by blast
    with 1 returns_1 obtain es where es: "log s1 = log s @ es" "finished es" by blast
    from False 3 have f: "finish tr limit t_num (elapsed_ms tbuf1 tbuf2) s2 = (Inr (), t)" "v = 1"
      by (auto simp: thn_ok)
    let ?c = "if elapsed_ms tbuf1 tbuf2 < limit then Success else Late"
    from gained_trans [OF first] finish_ok [OF f(1) k]
    have "gained tr t_num (\<lambda>c. 0 + ((\<lambda>_. 0)(?c := 1)) c) s t" by blast
    then have "gained tr t_num (gains 0 ?c) s t"
      by (rule gained_eq) (simp add: gains_def)
    then have "\<exists>c \<in> {Success, Late}. gained tr t_num (gains 0 c) s t"
      by (rule bexI) simp
    with es f finish_ok [OF f(1) k] same(3) show ?thesis
      by (intro exI [of _ "[]"] exI [of _ es]) simp
  next
    case True
    with 1 returns_0 obtain es where es: "log s1 = log s @ es" "given_up es" by blast
    from True 3 obtain s3 where
      4: "count Retried tr t_num 1 s2 = (Inr (), s3)" and
      5: "attempts txn tr limit t_num tbuf1 n s3 = (Inr v, t)"
      by (auto simp: bnd_counting_on [OF k] thn_ok on_cond_def)
    note c = count_ok [OF 4]
    from Suc.IH [OF 5] c k obtain ess es' where
      ess: "log t = log s3 @ concat ess @ es'" "\<forall>es \<in> set ess. given_up es" and
      alt: "v = 1 \<and> length ess < n \<and> finished es' \<and> (\<exists>c \<in> {Success, Late}.
          gained tr t_num (gains (int (length ess)) c) s3 t) \<or>
        v = 0 \<and> length ess = n \<and> es' = [] \<and>
          gained tr t_num (gains (int n - 1) Failure) s3 t"
      by auto
    have step: "gained tr t_num e s t" if "gained tr t_num d s3 t"
      and "\<And>c. e c = d c + (if c = Retried then 1 else 0)" for d e
      using gained_trans [OF first gained_trans [OF c [THEN conjunct1] that(1)]]
      by (rule gained_eq) (simp add: that(2) add.commute)
    have logs: "log t = log s @ concat (es # ess) @ es'" using es(1) same(3) c ess(1) by simp
    from alt show ?thesis
    proof (elim disjE conjE bexE)
      fix c
      assume *: "v = 1" "length ess < n" "finished es'" "c \<in> {Success, Late}" and
        g: "gained tr t_num (gains (int (length ess)) c) s3 t"
      from *(4)
      have "gained tr t_num (gains (int (length (es # ess))) c) s t"
        by (intro step [OF g]) (auto simp: gains_def)
      then have "\<exists>c \<in> {Success, Late}. gained tr t_num (gains (int (length (es # ess))) c) s t"
        using *(4) by (rule bexI)
      with * logs es(2) ess(2) show ?thesis
        by (intro exI [of _ "es # ess"] exI [of _ es']) auto
    next
      assume *: "v = 0" "length ess = n" "es' = []" and
        g: "gained tr t_num (gains (int n - 1) Failure) s3 t"
      have "gained tr t_num (gains (int (Suc n) - 1) Failure) s t"
        by (intro step [OF g]) (auto simp: gains_def)
      with * logs es(2) ess(2) show ?thesis
        by (intro exI [of _ "es # ess"] exI [of _ "[]"]) auto
    qed
  qed
qed

lemma run_txn_outcome:
  assumes "run_txn txn tr limit t_num s = (Inr v, t)" and "counting_on s = always_on"
  shows "\<exists>ess es. log t = log s @ concat ess @ es \<and> (\<forall>es' \<in> set ess. given_up es') \<and>
     (v = 1 \<and> length ess < MAX_RETRY \<and> finished es \<and> (\<exists>c \<in> {Success, Late}.
        gained tr t_num (gains (int (length ess)) c) s t) \<or>
      v = 0 \<and> length ess = MAX_RETRY \<and> es = [] \<and>
        gained tr t_num (gains (int MAX_RETRY - 1) Failure) s t)"
proof -
  from assms(1) obtain tbuf1 where
    "attempts txn tr limit t_num tbuf1 MAX_RETRY (s\<lparr>clocks := stl (clocks s)\<rparr>) = (Inr v, t)"
    by (auto simp: run_txn_def bnd_ok clock_gettime_def)
  from attempts_outcome [OF this] assms(2) show ?thesis by (simp add: gained_def)
qed

end


section \<open>Lemmas: what is drawn and dispatched\<close>

interpretation neword_rep: repeatable
  "neword M t_num w_id d_id c_id o_ol_cnt o_all_local its sws qs"
  "neword_finished t_num" "given_up ''neword'' t_num"
  for M t_num w_id d_id c_id o_ol_cnt o_all_local its sws qs
  by unfold_locales (rule neword_below)

interpretation payment_rep: repeatable
  "payment M t_num w_id d_id byname c_w_id c_d_id c_id c_last h_amount"
  "committed t_num" "given_up ''payment'' t_num"
  for M t_num w_id d_id byname c_w_id c_d_id c_id c_last h_amount
  by unfold_locales (rule payment_below)

interpretation ordstat_rep: repeatable
  "ordstat M fuel t_num w_id d_id byname c_id c_last" "committed t_num" "given_up ''ordstat'' t_num"
  for M fuel t_num w_id d_id byname c_id c_last
  by unfold_locales (rule ordstat_below)

interpretation delivery_rep: repeatable "delivery M t_num w_id o_carrier_id"
  "districts_done t_num w_id o_carrier_id [1..DIST_PER_WARE]" "delivery_given_up t_num w_id o_carrier_id"
  for M t_num w_id o_carrier_id
  by unfold_locales (rule delivery_below)

interpretation slev_rep: repeatable "slev M fuel t_num w_id d_id level"
  "committed t_num" "slev_given_up t_num"
  for M fuel t_num w_id d_id level
  by unfold_locales (rule slev_below)

text \<open>What a completed and what a failed attempt at transaction \<open>tr\<close> has done.\<close>

definition txn_finished :: "nat \<Rightarrow> int \<Rightarrow> event list \<Rightarrow> bool" where
  "txn_finished tr t_num es \<longleftrightarrow>
     (if tr = 0 then neword_finished t_num es
      else if tr = 3 then \<exists>w_id o_carrier_id. districts_done t_num w_id o_carrier_id [1..DIST_PER_WARE] es
      else committed t_num es)"

definition txn_given_up :: "nat \<Rightarrow> int \<Rightarrow> event list \<Rightarrow> bool" where
  "txn_given_up tr t_num es \<longleftrightarrow>
     (if tr = 0 then given_up ''neword'' t_num es
      else if tr = 1 then given_up ''payment'' t_num es
      else if tr = 2 then given_up ''ordstat'' t_num es
      else if tr = 3 then \<exists>w_id o_carrier_id. delivery_given_up t_num w_id o_carrier_id es
      else slev_given_up t_num es)"

definition accounted :: "nat \<Rightarrow> int \<Rightarrow> ('s, 'z) drv_scheme \<Rightarrow> ('s, 'z) drv_scheme \<Rightarrow> bool" where
  "accounted tr t_num s t \<longleftrightarrow> (\<exists>ess es. log t = log s @ concat ess @ es \<and>
     (\<forall>es' \<in> set ess. txn_given_up tr t_num es') \<and>
     (length ess < MAX_RETRY \<and> txn_finished tr t_num es \<and> (\<exists>c \<in> {Success, Late}.
        gained tr t_num (gains (int (length ess)) c) s t) \<or>
      length ess = MAX_RETRY \<and> es = [] \<and>
        gained tr t_num (gains (int MAX_RETRY - 1) Failure) s t))"

lemma accountedI:
  assumes "\<exists>ess es. log t = log s @ concat ess @ es \<and> (\<forall>es' \<in> set ess. G es') \<and>
     (v = (1 :: int) \<and> length ess < MAX_RETRY \<and> F es \<and> (\<exists>c \<in> {Success, Late}.
        gained tr t_num (gains (int (length ess)) c) s t) \<or>
      v = 0 \<and> length ess = MAX_RETRY \<and> es = [] \<and>
        gained tr t_num (gains (int MAX_RETRY - 1) Failure) s t)"
    and "\<And>es. F es \<Longrightarrow> txn_finished tr t_num es" and "\<And>es. G es \<Longrightarrow> txn_given_up tr t_num es"
  shows "accounted tr t_num s t"
proof -
  from assms(1) obtain ess es where *: "log t = log s @ concat ess @ es" "\<forall>es' \<in> set ess. G es'" and
    alt: "v = 1 \<and> length ess < MAX_RETRY \<and> F es \<and> (\<exists>c \<in> {Success, Late}.
        gained tr t_num (gains (int (length ess)) c) s t) \<or>
      v = 0 \<and> length ess = MAX_RETRY \<and> es = [] \<and>
        gained tr t_num (gains (int MAX_RETRY - 1) Failure) s t" by (elim exE conjE)
  from alt assms(2) have "length ess < MAX_RETRY \<and> txn_finished tr t_num es \<and> (\<exists>c \<in> {Success, Late}.
        gained tr t_num (gains (int (length ess)) c) s t) \<or>
      length ess = MAX_RETRY \<and> es = [] \<and>
        gained tr t_num (gains (int MAX_RETRY - 1) Failure) s t" by (elim disjE) simp_all
  moreover have "\<forall>es' \<in> set ess. txn_given_up tr t_num es'" using *(2) assms(3) by simp
  ultimately show ?thesis unfolding accounted_def using *(1) by (intro exI conjI)
qed

lemma accounted_aside: "aside s t \<Longrightarrow> accounted tr t_num t u \<Longrightarrow> accounted tr t_num s u"
  by (auto simp: accounted_def aside_def gained_def)

lemma RandomNumber_aside [keeps_intros]: "keeps aside (RandomNumber lo hi)"
  by (rule keepsI) (simp add: RandomNumber_def c_rand_def aside_def run_simps)

lemma NURand_aside [keeps_intros]: "keeps aside (NURand A x y)"
proof -
  have "keeps aside nurand_constants"
    unfolding nurand_constants_def
    by (intro keeps_intros) (simp_all add: keeps_def aside_def uninit_def)
  then show ?thesis
    unfolding NURand_def Let_def case_prod_beta by (intro keeps_intros)
qed

lemma Lastname_aside [keeps_intros]: "keeps aside (Lastname num)"
  unfolding Lastname_def by (intro keeps_intros)

lemma pick_ware_aside [keeps_intros]: "keeps aside (pick_ware t_num)"
  unfolding pick_ware_def Let_def by (intro keeps_intros)

lemma other_ware_aside [keeps_intros]: "keeps aside (other_ware fuel home_ware)"
proof -
  have "keeps aside (other_ware_loop fuel nw home_ware)" for nw
    by (induction fuel) (auto intro!: keeps_intros)
  then show ?thesis unfolding other_ware_def by (intro keeps_intros)
qed

lemma neword_input_aside [keeps_intros]: "keeps aside (neword_input fuel t_num)"
  unfolding neword_input_def input_line_def Let_def case_prod_beta by (intro keeps_intros)


text \<open>Operations that draw their input and then run one transaction.\<close>

definition accounts :: "nat \<Rightarrow> int \<Rightarrow> (('s, 'z) drv_scheme, 'a) cm \<Rightarrow> bool" where
  "accounts tr t_num m \<longleftrightarrow> (\<forall>s v t. counting_on s = always_on \<longrightarrow> m s = (Inr v, t) \<longrightarrow>
     accounted tr t_num s t)"

lemma accounts_bnd:
  assumes "keeps aside m" and "\<And>a. accounts tr t_num (f a)"
  shows "accounts tr t_num (bnd m f)"
  unfolding accounts_def
proof (intro allI impI)
  fix s v t
  assume k: "counting_on s = always_on" and "bnd m f s = (Inr v, t)"
  then obtain a u where 1: "m s = (Inr a, u)" and 2: "f a u = (Inr v, t)" by (auto simp: bnd_ok)
  have "aside s u" by (rule keepsD [OF assms(1) 1])
  moreover with k have "counting_on u = always_on" by (simp add: aside_def)
  with assms(2) 2 have "accounted tr t_num u t" by (simp add: accounts_def)
  ultimately show "accounted tr t_num s t" by (rule accounted_aside)
qed

lemma accounts_discard: "accounts tr t_num m \<Longrightarrow> accounts tr t_num (bnd m (\<lambda>_. ret ()))"
  by (auto simp: accounts_def bnd_ok)

lemma neword_accounts:
  "accounts 0 t_num (run_txn (neword M t_num w d c n al its sws qs) 0 limit t_num)"
  unfolding accounts_def
  by (intro allI impI, rule accountedI [OF neword_rep.run_txn_outcome])
    (simp_all add: txn_finished_def txn_given_up_def)

lemma payment_accounts:
  "accounts 1 t_num (run_txn (payment M t_num w d byname cw cd c c_last h) 1 limit t_num)"
  unfolding accounts_def
  by (intro allI impI, rule accountedI [OF payment_rep.run_txn_outcome])
    (simp_all add: txn_finished_def txn_given_up_def)

lemma ordstat_accounts:
  "accounts 2 t_num (run_txn (ordstat M fuel t_num w d byname c c_last) 2 limit t_num)"
  unfolding accounts_def
  by (intro allI impI, rule accountedI [OF ordstat_rep.run_txn_outcome])
    (simp_all add: txn_finished_def txn_given_up_def)

lemma delivery_accounts:
  "accounts 3 t_num (run_txn (delivery M t_num w carrier) 3 limit t_num)"
  unfolding accounts_def
  by (intro allI impI, rule accountedI [OF delivery_rep.run_txn_outcome])
    (auto simp: txn_finished_def txn_given_up_def)

lemma slev_accounts:
  "accounts 4 t_num (run_txn (slev M fuel t_num w d level) 4 limit t_num)"
  unfolding accounts_def
  by (intro allI impI, rule accountedI [OF slev_rep.run_txn_outcome])
    (simp_all add: txn_finished_def txn_given_up_def)

lemmas run_accounts = neword_accounts payment_accounts ordstat_accounts delivery_accounts
  slev_accounts

lemma dispatch_simps:
  "dispatch M fuel t_num 0 = bnd (do_neword M fuel t_num) (\<lambda>_. ret ())"
  "dispatch M fuel t_num 1 = bnd (do_payment M fuel t_num) (\<lambda>_. ret ())"
  "dispatch M fuel t_num 2 = bnd (do_ordstat M fuel t_num) (\<lambda>_. ret ())"
  "dispatch M fuel t_num 3 = bnd (do_delivery M t_num) (\<lambda>_. ret ())"
  "dispatch M fuel t_num 4 = bnd (do_slev M fuel t_num) (\<lambda>_. ret ())"
  by (simp_all add: dispatch_def)

lemma dispatch_accounts:
  assumes "tr < 5"
  shows "accounts tr t_num (dispatch M fuel t_num (int tr))"
proof -
  have 0: "accounts 0 t_num (dispatch M fuel t_num 0)"
    unfolding dispatch_simps do_neword_def case_prod_beta
    by (intro accounts_discard accounts_bnd run_accounts keeps_intros)
  have 1: "accounts 1 t_num (dispatch M fuel t_num 1)"
    unfolding dispatch_simps do_payment_def case_prod_beta
    by (intro accounts_discard accounts_bnd run_accounts keeps_intros)
  have 2: "accounts 2 t_num (dispatch M fuel t_num 2)"
    unfolding dispatch_simps do_ordstat_def case_prod_beta
    by (intro accounts_discard accounts_bnd run_accounts keeps_intros)
  have 3: "accounts 3 t_num (dispatch M fuel t_num 3)"
    unfolding dispatch_simps do_delivery_def case_prod_beta
    by (intro accounts_discard accounts_bnd run_accounts keeps_intros)
  have 4: "accounts 4 t_num (dispatch M fuel t_num 4)"
    unfolding dispatch_simps do_slev_def case_prod_beta
    by (intro accounts_discard accounts_bnd run_accounts keeps_intros)
  from assms consider "tr = 0" | "tr = 1" | "tr = 2" | "tr = 3" | "tr = 4" by linarith
  then show ?thesis
    using 0 1 [unfolded One_nat_def] 2 3 4 by cases simp_all
qed

section \<open>Lemmas: the two sets of counters agree\<close>

text \<open>
  What the two blocks of raw results that \<^verbatim>\<open>main.c\<close> prints compare: a total is the sum over
  the threads.
\<close>

definition tallies_agree :: "('s, 'z) drv_scheme \<Rightarrow> bool" where
  "tallies_agree s \<longleftrightarrow> (\<forall>c. length (tally1 s c) = 5 \<and> length (tally2 s c) = 5 \<and>
     (\<forall>tr < 5. length (tally2 s c ! tr) = nat (num_conn s) \<and>
        tally1 s c ! tr = sum_list (tally2 s c ! tr)))"

interpretation agr: state_relation
  "\<lambda>s t. num_conn t = num_conn s \<and> (tallies_agree s \<longrightarrow> tallies_agree t)"
  by unfold_locales auto

abbreviation agreeing :: "(('s, 'z) drv_scheme, 'a) cm \<Rightarrow> bool" where
  "agreeing \<equiv> keeps (\<lambda>s t. num_conn t = num_conn s \<and> (tallies_agree s \<longrightarrow> tallies_agree t))"

lemma sum_list_bump: "j < length xs \<Longrightarrow> sum_list (xs[j := xs ! j + d]) = sum_list xs + (d :: int)"
  by (induction xs arbitrary: j) (auto split: nat.split)

lemma count_agreeing: "agreeing (count c tr t_num d)"
proof (rule keepsI)
  fix s :: "('a, 'b) drv_scheme"
  show "num_conn (snd (count c tr t_num d s)) = num_conn s \<and>
    (tallies_agree s \<longrightarrow> tallies_agree (snd (count c tr t_num d s)))"
  proof (cases "0 \<le> t_num \<and> t_num < num_conn s")
    case True
    have "tallies_agree (snd (count c tr t_num d s))" if a: "tallies_agree s"
      unfolding tallies_agree_def
    proof (intro allI conjI impI)
      fix c' k
      let ?t = "snd (count c tr t_num d s)"
      have l: "length (tally1 s c') = 5" "length (tally2 s c') = 5" for c'
        using a by (simp_all add: tallies_agree_def)
      show "length (tally1 ?t c') = 5" and "length (tally2 ?t c') = 5"
        using True l by (simp_all add: count_def)
      assume k: "k < (5 :: nat)"
      have r: "length (tally2 s c' ! k) = nat (num_conn s)"
        "tally1 s c' ! k = sum_list (tally2 s c' ! k)" for c'
        using a k by (simp_all add: tallies_agree_def)
      show "length (tally2 ?t c' ! k) = nat (num_conn ?t)"
        using True l r k by (cases "tr = k") (simp_all add: count_def)
      have "nat t_num < length (tally2 s c' ! k)" using True r by simp
      from sum_list_bump [OF this, of d]
      show "tally1 ?t c' ! k = sum_list (tally2 ?t c' ! k)"
        using True l r k by (cases "tr = k"; cases "c' = c") (simp_all add: count_def)
    qed
    with True show ?thesis by (simp add: count_def)
  qed (auto simp: count_def)
qed

text \<open>\<open>seq_get\<close> changes the sequence and the random numbers.\<close>

definition seq_frame :: "'z seqst_scheme \<Rightarrow> 'z seqst_scheme \<Rightarrow> bool" where
  "seq_frame s t \<longleftrightarrow> seqst.more t = seqst.more s"

interpretation sqf: state_relation seq_frame
  by unfold_locales (simp_all add: seq_frame_def)

lemma seq_get_frame: "keeps seq_frame seq_get"
proof -
  have store: "keeps seq_frame (seq_store j v)" for j v
    by (rule keepsI) (simp add: seq_store_def seq_frame_def)
  have swap: "keeps seq_frame (shuffle_swap tot i)" for tot i
    unfolding shuffle_swap_def Let_def
    by (intro sqf.bnd_keeps keepsI) (simp_all add: c_rand_def swap_in_def seq_frame_def)
  show ?thesis
    unfolding seq_get_def shuffle_def shuffle_fill_def seq_fill_def
    by (intro keeps_intros store swap) (simp_all add: keeps_def seq_frame_def)
qed

text \<open>
  A relation between the states before and after that the parts of the driver respect is
  respected by the driver: the transactions, the input, the counters, the clocks and the rate.
\<close>

locale driver_relation = state_relation R
  for R :: "('s, 'z) drv_scheme \<Rightarrow> ('s, 'z) drv_scheme \<Rightarrow> bool" +
  assumes aside_R: "aside s t \<Longrightarrow> R s t"
    and seq_frame_R: "seq_frame s t \<Longrightarrow> R s t"
    and count_R: "keeps R (count tal tr t_num diff)"
    and flags_R: "R s (s\<lparr>counting_on := f\<rparr>)" "R s (s\<lparr>activate_transaction := f\<rparr>)"
    and tods_R: "R s (s\<lparr>tods := ts\<rparr>)"
    and rate_R: "R s (s\<lparr>rate_last_seconds := secs, rate_last_transactions := txns\<rparr>)"
    and clocks_R: "R s (s\<lparr>clocks := tbuf\<rparr>)"
    and diag_R: "keeps R (emit (Diag str xs))"
    and txn_R: "keeps R (neword M t_num w_id d_id c_id ol_cnt al its sws qs)"
      "keeps R (payment M t_num w_id d_id byname c_w_id c_d_id c_id c_last h_amount)"
      "keeps R (ordstat M fuel t_num w_id d_id byname c_id c_last)"
      "keeps R (delivery M t_num w_id o_carrier_id)"
      "keeps R (slev M fuel t_num w_id d_id level)"
begin

lemma of_aside: "keeps aside m \<Longrightarrow> keeps R m"
  by (erule keeps_mono) (rule aside_R)

lemma steps_R: "keeps R test_counting" "keeps R test_activate" "keeps R now_seconds"
  "keeps R clock_gettime"
  by (simp_all add: keeps_def test_counting_def test_activate_def now_seconds_def clock_gettime_def
      flags_R tods_R clocks_R split: prod.split)

lemma run_txn_R:
  assumes "keeps R txn"
  shows "keeps R (run_txn txn tr limit t_num)"
proof -
  have fin: "keeps R (finish tr limit t_num rt)" for rt
    unfolding finish_def
    by (intro thn_keeps bnd_keeps gets_keeps rd_keeps on_cond_keeps if_keeps count_R steps_R
        of_aside [OF report_rt_aside] of_aside [OF hist_inc_aside] of_aside [OF max_rt_aside])
  have "keeps R (attempts txn tr limit t_num tbuf1 n)" for tbuf1 n
    by (induction n)
      (auto intro!: fin thn_keeps bnd_keeps on_cond_keeps ret_keeps count_R steps_R
        assms)
  then show ?thesis
    unfolding run_txn_def by (intro bnd_keeps steps_R)
qed

lemma dispatch_R: "keeps R (dispatch M fuel t_num k)"
  unfolding dispatch_def do_neword_def do_payment_def do_ordstat_def do_delivery_def do_slev_def
    case_prod_beta
  by (intro if_keeps bnd_keeps ret_keeps of_aside [OF neword_input_aside]
      of_aside [OF pick_ware_aside] of_aside [OF RandomNumber_aside]
      of_aside [OF NURand_aside] of_aside [OF Lastname_aside]
      of_aside [OF other_ware_aside] run_txn_R txn_R diag_R)

lemma window_R: "keeps R (open_window t_num)" "keeps R (tarpit fuel)"
proof -
  show "keeps R (open_window t_num)"
    unfolding open_window_def
    by (intro on_cond_keeps bnd_keeps steps_R keeps_modify) (simp add: rate_R R_refl)
  show "keeps R (tarpit fuel)"
    by (induction fuel)
      (auto intro!: bnd_keeps if_keeps gets_keeps ret_keeps halt_keeps steps_R)
qed

lemma drive_once_R: "keeps R (drive_once M fuel t_num)"
  unfolding drive_once_def
  by (intro thn_keeps bnd_keeps window_R dispatch_R keeps_mono [OF seq_get_frame seq_frame_R])

lemma driver_R: "keeps R (driver M fuel t_num rounds)"
  by (induction rounds)
    (auto intro!: bnd_keeps if_keeps thn_keeps ret_keeps halt_keeps steps_R drive_once_R)

end

lemma seq_frame_drv:
  fixes s t :: "('s, 'z) drv_scheme"
  assumes "seq_frame s t"
  shows "tally1 t = tally1 s \<and> tally2 t = tally2 s \<and> num_conn t = num_conn s \<and>
    time_count t = time_count s \<and> drv.more t = drv.more s"
  using assms by (cases s, cases t) (simp add: seq_frame_def)

lemma below_agreeing: "keeps below (m :: (('s, 'z) drv_scheme, 'a) cm) \<Longrightarrow> agreeing m"
  by (erule keeps_mono) (auto dest!: below_drv simp: tallies_agree_def)

lemmas txn_below = neword_below payment_below ordstat_below delivery_below slev_below state_below(2)

interpretation agd: driver_relation
  "\<lambda>s t. num_conn t = num_conn s \<and> (tallies_agree s \<longrightarrow> tallies_agree t)"
proof unfold_locales
  fix s t :: "('a, 'b) drv_scheme"
  show "num_conn t = num_conn s \<and> (tallies_agree s \<longrightarrow> tallies_agree t)"
    if "aside s t" using that by (auto simp: aside_def tallies_agree_def)
  show "num_conn t = num_conn s \<and> (tallies_agree s \<longrightarrow> tallies_agree t)"
    if "seq_frame s t" using that by (auto dest!: seq_frame_drv simp: tallies_agree_def)
qed (rule count_agreeing below_agreeing txn_below | simp add: tallies_agree_def)+

lemma below_more:
  fixes s t :: "('s, 'z) drv_scheme"
  assumes "below s t"
  shows "time_count t = time_count s \<and> drv.more t = drv.more s"
  using assms by (cases s, cases t) (simp add: below_def)

text \<open>What the main program keeps beside the driver's state is not the driver's.\<close>

lemma count_frame:
  "keeps (\<lambda>s t. time_count t = time_count s \<and> drv.more t = drv.more s) (count c tr t_num d)"
  by (simp add: keeps_def count_def)

interpretation mdr: driver_relation
  "\<lambda>s t :: ('s, 'z) drv_scheme. time_count t = time_count s \<and> drv.more t = drv.more s"
proof unfold_locales
  show "keeps (\<lambda>s t :: ('s, 'z) drv_scheme. time_count t = time_count s \<and> drv.more t = drv.more s)
    (emit (Diag str xs))" for str xs by (simp add: keeps_def emit_def)
qed (rule count_frame keeps_mono [OF neword_below below_more] keeps_mono [OF payment_below below_more]
    keeps_mono [OF ordstat_below below_more] keeps_mono [OF delivery_below below_more]
    keeps_mono [OF slev_below below_more] | simp add: aside_def seq_frame_drv)+

lemma driver_agreeing: "agreeing (driver M fuel t_num rounds)"
  by (rule agd.driver_R)


section \<open>Lemmas: random input\<close>

lemma other_ware_loop_ok:
  assumes "1 \<le> nw" and "other_ware_loop fuel nw home_ware s = (Inr w, t)"
  shows "1 \<le> w \<and> w \<le> nw \<and> w \<noteq> home_ware"
  using assms(2)
proof (induction fuel arbitrary: s)
  case (Suc fuel)
  then obtain tmp s1 where 1: "RandomNumber 1 nw s = (Inr tmp, s1)" and
    2: "(if tmp = home_ware then other_ware_loop fuel nw home_ware else ret tmp) s1 = (Inr w, t)"
    by (auto simp: bnd_ok)
  show ?case
  proof (cases "tmp = home_ware")
    case True
    with 2 Suc.IH show ?thesis by simp
  next
    case False
    with 2 RandomNumber_ok [OF assms(1) 1] show ?thesis by simp
  qed
qed simp

lemma other_ware_ok:
  assumes "1 \<le> home_ware" and "home_ware \<le> num_ware s" and "other_ware fuel home_ware s = (Inr w, t)"
  shows "1 \<le> w \<and> w \<le> num_ware s \<and> (num_ware s \<noteq> 1 \<longrightarrow> w \<noteq> home_ware)"
  using assms other_ware_loop_ok [of "num_ware s" fuel home_ware s w t]
  by (auto simp: other_ware_def split: if_splits)

lemma NURand_ok:
  assumes "A \<in> {255, 1023, 8191}" and "0 \<le> x" and "x \<le> y" and "y < 2147483648"
    and "NURand A x y s = (Inr r, t)"
  shows "x \<le> r \<and> r \<le> y"
  using returnsD [OF NURand_returns [OF assms(1-4), of "\<lambda>_. True"], of s] assms(5) by simp

text \<open>What the lines drawn so far satisfy, for an order of \<open>ol_cnt\<close> lines.\<close>

definition lines_ok :: "int \<Rightarrow> int \<Rightarrow> int \<Rightarrow> order_input \<Rightarrow> bool" where
  "lines_ok w_id nw ol_cnt l \<longleftrightarrow>
     length (supware l) = length (itemid l) \<and> length (qty l) = length (itemid l) \<and>
     (\<forall>k < length (itemid l). 1 \<le> itemid l ! k \<and>
        (itemid l ! k \<le> MAXITEMS \<or> int k = ol_cnt - 1 \<and> itemid l ! k = MAXITEMS + 1)) \<and>
     (\<forall>w \<in> set (supware l). 1 \<le> w \<and> w \<le> nw) \<and> (\<forall>q \<in> set (qty l). 1 \<le> q \<and> q \<le> 10) \<and>
     (all_local l = 0 \<or> all_local l = 1) \<and>
     (all_local l = 1 \<longrightarrow> (\<forall>w \<in> set (supware l). w = w_id)) \<and>
     (nw \<noteq> 1 \<longrightarrow> all_local l = 0 \<longrightarrow> (\<exists>w \<in> set (supware l). w \<noteq> w_id))"

lemma input_line_ok:
  assumes "input_line fuel w_id ol_cnt rbk (int (length (itemid l))) l s = (Inr l', t)"
    and "lines_ok w_id (num_ware s) ol_cnt l" and "1 \<le> w_id" and "w_id \<le> num_ware s"
  shows "lines_ok w_id (num_ware s) ol_cnt l' \<and> length (itemid l') = Suc (length (itemid l)) \<and>
    num_ware t = num_ware s"
proof -
  let ?i = "int (length (itemid l))"
  from assms(1) obtain item s1 r s2 sw al s3 q where
    1: "NURand 8191 1 MAXITEMS s = (Inr item, s1)" and
    2: "RandomNumber 1 100 s1 = (Inr r, s2)" and
    3: "(if r \<noteq> 1 then ret (w_id, all_local l)
      else bnd (other_ware fuel w_id) (\<lambda>w. ret (w, 0))) s2 = (Inr (sw, al), s3)" and
    4: "RandomNumber 1 10 s3 = (Inr q, t)" and
    l': "l' = \<lparr>itemid = itemid l @ [if ?i = ol_cnt - 1 \<and> rbk = 1 then MAXITEMS + 1 else item],
      supware = supware l @ [sw], qty = qty l @ [q], all_local = al\<rparr>"
    by (auto simp: input_line_def Let_def bnd_ok)
  have nw: "num_ware s2 = num_ware s" "num_ware t = num_ware s3"
    using keepsD [OF NURand_aside 1] keepsD [OF RandomNumber_aside 2] keepsD [OF RandomNumber_aside 4]
    by (simp_all add: aside_def)
  have i: "1 \<le> item \<and> item \<le> MAXITEMS"
    using NURand_ok [OF _ _ _ _ 1] by (simp add: MAXITEMS_def)
  have q: "1 \<le> q \<and> q \<le> 10" using RandomNumber_ok [OF _ 4] by simp
  have sw: "1 \<le> sw \<and> sw \<le> num_ware s \<and> num_ware s3 = num_ware s \<and>
    (r \<noteq> 1 \<and> sw = w_id \<and> al = all_local l \<or> r = 1 \<and> al = 0 \<and> (num_ware s \<noteq> 1 \<longrightarrow> sw \<noteq> w_id))"
  proof (cases "r = 1")
    case True
    with 3 have o: "other_ware fuel w_id s2 = (Inr sw, s3)" "al = 0" by (auto simp: bnd_ok)
    from other_ware_ok [OF assms(3) _ o(1)] assms(4) nw keepsD [OF other_ware_aside o(1)] True o(2)
    show ?thesis by (simp add: aside_def)
  next
    case False
    with 3 assms(3,4) nw show ?thesis by simp
  qed
  have "lines_ok w_id (num_ware s) ol_cnt l'"
    using assms(2) i q sw unfolding lines_ok_def l'
    by (auto simp: nth_append MAXITEMS_def less_Suc_eq)
  with sw nw show ?thesis by (simp add: l')
qed

lemma input_lines_ok:
  "cfold js (input_line fuel w_id ol_cnt rbk) l s = (Inr l', t) \<Longrightarrow>
   js = [int (length (itemid l))..ol_cnt - 1] \<Longrightarrow> lines_ok w_id (num_ware s) ol_cnt l \<Longrightarrow>
   1 \<le> w_id \<Longrightarrow> w_id \<le> num_ware s \<Longrightarrow>
   lines_ok w_id (num_ware s) ol_cnt l' \<and> length (itemid l') = length (itemid l) + length js"
proof (induction js arbitrary: l s)
  case (Cons j js)
  from Cons.prems(2) have j: "j = int (length (itemid l))" "js = [j + 1..ol_cnt - 1]"
    by (metis list.inject list.distinct(1) upto_rec1 upto_empty not_le)+
  from Cons.prems(1) obtain l1 s1 where
    1: "input_line fuel w_id ol_cnt rbk (int (length (itemid l))) l s = (Inr l1, s1)" and
    2: "cfold js (input_line fuel w_id ol_cnt rbk) l1 s1 = (Inr l', t)"
    unfolding j(1) by (auto simp: bnd_ok)
  note line = input_line_ok [OF 1 Cons.prems(3-5)]
  then have "js = [int (length (itemid l1))..ol_cnt - 1]" using j by (simp add: add.commute)
  from Cons.IH [OF 2 this] line Cons.prems(4,5) show ?case by simp
qed simp

lemma neword_input_ok:
  assumes "neword_input fuel t_num s = (Inr (w_id, d_id, c_id, ol_cnt, l), t)"
    and "num_node s = 0" and "1 \<le> num_ware s"
  shows "1 \<le> w_id \<and> w_id \<le> num_ware s \<and> 1 \<le> d_id \<and> d_id \<le> DIST_PER_WARE \<and>
    1 \<le> c_id \<and> c_id \<le> CUST_PER_DIST \<and> 5 \<le> ol_cnt \<and> ol_cnt \<le> int MAX_NUM_ITEMS \<and>
    length (itemid l) = nat ol_cnt \<and> lines_ok w_id (num_ware s) ol_cnt l"
proof -
  from assms(1,2) obtain s1 s2 s3 s4 rbk s5 where
    1: "RandomNumber 1 (num_ware s) s = (Inr w_id, s1)" and
    2: "RandomNumber 1 DIST_PER_WARE s1 = (Inr d_id, s2)" and
    3: "NURand 1023 1 CUST_PER_DIST s2 = (Inr c_id, s3)" and
    4: "RandomNumber 5 15 s3 = (Inr ol_cnt, s4)" and
    5: "RandomNumber 1 100 s4 = (Inr rbk, s5)" and
    6: "cfold [0..ol_cnt - 1] (input_line fuel w_id ol_cnt rbk)
      \<lparr>itemid = [], supware = [], qty = [], all_local = 1\<rparr> s5 = (Inr l, t)"
    by (auto simp: neword_input_def pick_ware_def bnd_ok)
  have nw: "num_ware s5 = num_ware s"
    using keepsD [OF RandomNumber_aside 1] keepsD [OF RandomNumber_aside 2]
      keepsD [OF NURand_aside 3] keepsD [OF RandomNumber_aside 4] keepsD [OF RandomNumber_aside 5]
    by (simp add: aside_def)
  note w = RandomNumber_ok [OF assms(3) 1]
  have d: "1 \<le> d_id \<and> d_id \<le> DIST_PER_WARE"
    using RandomNumber_ok [OF _ 2] by (simp add: DIST_PER_WARE_def)
  have c: "1 \<le> c_id \<and> c_id \<le> CUST_PER_DIST"
    using NURand_ok [OF _ _ _ _ 3] by (simp add: CUST_PER_DIST_def)
  have n: "5 \<le> ol_cnt \<and> ol_cnt \<le> 15" using RandomNumber_ok [OF _ 4] by simp
  have "lines_ok w_id (num_ware s) ol_cnt \<lparr>itemid = [], supware = [], qty = [], all_local = 1\<rparr>"
    by (simp add: lines_ok_def)
  with input_lines_ok [OF 6] w nw
  have "lines_ok w_id (num_ware s) ol_cnt l \<and> length (itemid l) = nat ol_cnt" by simp
  with w d c n show ?thesis by (simp add: MAX_NUM_ITEMS_def)
qed


section \<open>Lemmas: loops that wait\<close>

lemma other_ware_loop_returns:
  assumes "2 \<le> nw"
  shows "i < fuel \<Longrightarrow> 1 + int (rng s !! i mod 2147483648) mod nw \<noteq> home_ware \<Longrightarrow>
    \<exists>w t. other_ware_loop fuel nw home_ware s = (Inr w, t)"
proof (induction fuel arbitrary: i s)
  case (Suc fuel)
  have run: "RandomNumber 1 nw s =
      (Inr (1 + int (shd (rng s) mod 2147483648) mod nw), s\<lparr>rng := stl (rng s)\<rparr>)"
    using RandomNumber_run [of 1 nw s] assms by simp
  show ?case
  proof (cases "1 + int (shd (rng s) mod 2147483648) mod nw = home_ware")
    case False
    then show ?thesis by (simp add: bnd_def run ret_eq)
  next
    case True
    with Suc.prems(2) obtain j where "i = Suc j" by (cases i) auto
    with Suc.prems Suc.IH [of j "s\<lparr>rng := stl (rng s)\<rparr>"] True show ?thesis
      by (simp add: bnd_def run)
  qed
qed simp

text \<open>The seconds that the reading \<open>i\<close> of the clock gives.\<close>

definition seconds_at :: "('s, 'z) drv_scheme \<Rightarrow> nat \<Rightarrow> rat" where
  "seconds_at s i = f64 (of_int (fst (tods s !! i) + snd (tods s !! i) sdiv 1000000))"

definition in_window :: "('s, 'z) drv_scheme \<Rightarrow> int" where
  "in_window s = tally1 s Success ! 0 - rate_last_transactions s"

lemma tarpit_Suc:
  "tarpit (Suc fuel) s =
     (if dbl_greater (current_tps (seconds_at s 0) s) (of_int (num_neword_per_10_sec s))
      then tarpit fuel (s\<lparr>tods := stl (tods s)\<rparr>) else (Inr (), s\<lparr>tods := stl (tods s)\<rparr>))"
  by (simp add: bnd_def now_seconds_def seconds_at_def current_tps_def ret_eq split: prod.split)

lemma after_reading [simp]:
  "seconds_at (s\<lparr>tods := stl (tods s)\<rparr>) i = seconds_at s (Suc i)"
  "in_window (s\<lparr>tods := stl (tods s)\<rparr>) = in_window s"
  by (simp_all add: seconds_at_def in_window_def)

lemma rate_slow:
  assumes "0 < f64 (cs - rate_last_seconds s)" and "0 \<le> in_window s" and "in_window s < 2 ^ 53"
    and "40 * of_int (in_window s) \<le> of_int (num_neword_per_10_sec s) * f64 (cs - rate_last_seconds s)"
  shows "\<not> dbl_greater (current_tps cs s) (of_int (num_neword_per_10_sec s))"
proof -
  define q where "q = (of_int (in_window s) :: rat)"
  define e where "e = f64 (cs - rate_last_seconds s)"
  have q: "f64 q = q" "0 \<le> q"
    using assms(2,3) by (simp_all add: q_def f64_of_int)
  have "f64 (q / e) \<le> 2 * (q / e)" by (rule f64_le_twice) (use q assms(1) in \<open>simp add: e_def\<close>)
  moreover have pos: "0 \<le> f64 (q / e)" using q assms(1) by (intro f64_sign) (simp add: e_def)
  moreover have "f64 (f64 (q / e) * 10) \<le> 2 * (f64 (q / e) * 10)"
    by (rule f64_le_twice) (use pos in simp)
  ultimately have "f64 (f64 (q / e) * 10) \<le> 40 * q / e" by simp
  also have "\<dots> \<le> of_int (num_neword_per_10_sec s)"
    using assms(1,4) by (simp add: q_def e_def pos_divide_le_eq)
  finally have "f64 (f64 (q / e) * 10) \<le> of_int (num_neword_per_10_sec s)" .
  moreover have "current_tps cs s = Fin (f64 (f64 (q / e) * 10))"
    using assms(1) q by (simp add: current_tps_def dbl_div_def transaction_interval_def
        e_def q_def in_window_def)
  ultimately show ?thesis by simp
qed

lemma tarpit_returns_at:
  "i < fuel \<Longrightarrow> 0 < f64 (seconds_at s i - rate_last_seconds s) \<Longrightarrow> 0 \<le> in_window s \<Longrightarrow>
   in_window s < 2 ^ 53 \<Longrightarrow> 40 * of_int (in_window s) \<le>
     of_int (num_neword_per_10_sec s) * f64 (seconds_at s i - rate_last_seconds s) \<Longrightarrow>
   \<exists>t. tarpit fuel s = (Inr (), t) \<and> aside s t"
proof (induction fuel arbitrary: i s)
  case (Suc fuel)
  have a: "aside s (s\<lparr>tods := stl (tods s)\<rparr>)" by (simp add: aside_def)
  show ?case
  proof (cases "dbl_greater (current_tps (seconds_at s 0) s) (of_int (num_neword_per_10_sec s))")
    case True
    with rate_slow [OF Suc.prems(2-5)] obtain j where j: "i = Suc j" by (cases i) auto
    with Suc.prems Suc.IH [of j "s\<lparr>tods := stl (tods s)\<rparr>"]
    obtain t where "tarpit fuel (s\<lparr>tods := stl (tods s)\<rparr>) = (Inr (), t)"
      "aside (s\<lparr>tods := stl (tods s)\<rparr>) t" by auto
    with True show ?thesis unfolding tarpit_Suc by (auto simp: aside_def)
  next
    case False
    with a show ?thesis unfolding tarpit_Suc by simp
  qed
qed simp

lemma rate_fast:
  assumes "num_neword_per_10_sec s \<le> 0" and "0 < in_window s" and "rate_last_seconds s \<le> cs"
  shows "dbl_greater (current_tps cs s) (of_int (num_neword_per_10_sec s))"
proof -
  define q where "q = f64 (of_int (in_window s))"
  define e where "e = f64 (cs - rate_last_seconds s)"
  have q: "0 < q" using assms(2) by (simp add: q_def f64_pos)
  have tps: "current_tps cs s = dbl_times (dbl_div q e) 10"
    by (simp add: current_tps_def in_window_def q_def e_def transaction_interval_def)
  show ?thesis
  proof (cases "e = 0")
    case True
    with q show ?thesis unfolding tps by (simp add: dbl_div_def)
  next
    case False
    moreover have "0 \<le> e" using assms(3) by (simp add: e_def f64_sign)
    ultimately have "0 < f64 (f64 (q / e) * 10)" using q by (simp add: f64_pos)
    moreover have "(of_int (num_neword_per_10_sec s) :: rat) \<le> 0" using assms(1) by simp
    ultimately show ?thesis unfolding tps using False by (simp add: dbl_div_def)
  qed
qed

section \<open>Lemmas: example runs\<close>

definition example_drv :: "nat drv" where
  "example_drv = db.extend example_db
     \<lparr>tods = sconst (1400000010, 0), rate_last_seconds = 1400000000, rate_last_transactions = 0,
      num_neword_per_10_sec = 100, num_ware = 1, num_conn = 4, num_node = 0,
      activate_transaction = sconst True, counting_on = always_on, time_count = 0,
      freport_file = Some [], tally1 = (\<lambda>_. replicate 5 0),
      tally2 = (\<lambda>_. replicate 5 (replicate 4 0))\<rparr>"

lemma example_drv_simps [simp]:
  "rate_last_seconds example_drv = 1400000000" "rate_last_transactions example_drv = 0"
  "num_neword_per_10_sec example_drv = 100" "num_ware example_drv = 1" "num_conn example_drv = 4"
  "num_node example_drv = 0" "counting_on example_drv = always_on"
  "tods example_drv = sconst (1400000010, 0)" "tally1 example_drv = (\<lambda>_. replicate 5 0)"
  "tally2 example_drv = (\<lambda>_. replicate 5 (replicate 4 0))"
  "clocks example_drv = sconst (0, 0)" "stamps example_drv = sconst (Some ''2014-11-01 00:00:00'')"
  "cur_hist example_drv = cur_hist example_hist" "total_hist example_drv = total_hist example_hist"
  "max_rt example_drv = replicate 5 0" "cur_max_rt example_drv = replicate 5 0"
  "time_count example_drv = 0"
  by (simp_all add: example_drv_def db.defs example_db_def hist.defs example_hist_def)

lemma example_agrees: "tallies_agree example_drv"
  by (simp add: tallies_agree_def sum_list_replicate)

lemma sdrop_sconst: "sdrop n (sconst x) = sconst x"
  by (induction n) simp_all

lemma finish_returns:
  assumes "hist_ok s" and "tr < 5" and "0 \<le> rt" and "0 \<le> t_num" and "t_num < num_conn s"
    and "rt \<le> 2147483"
  shows "\<exists>t. finish tr limit t_num rt s = (Inr (), t) \<and> hist_ok t"
proof -
  define s1 where "s1 = snd (report_rt tr rt s)"
  have s1: "report_rt tr rt s = (Inr (), s1)" "hist_ok s1" "num_conn s1 = num_conn s"
    using assms(1) by (auto simp: s1_def report_rt_def hist_ok_def split: option.split)
  define s2 where "s2 = (if rt > max_rt s1 ! tr then s1\<lparr>max_rt := (max_rt s1)[tr := rt]\<rparr> else s1)"
  have s2: "hist_ok s2" "num_conn s2 = num_conn s"
    using s1 by (auto simp: s2_def hist_ok_def)
  have len: "length (max_rt s1) = 5" using s1(2) by (simp add: hist_ok_def)
  have tr: "0 \<le> int tr" "int tr < 5" using assms(2) by simp_all
  obtain s3 where s3: "hist_inc (int tr) rt s2 = (Inr (), s3)" "num_conn s3 = num_conn s" "hist_ok s3"
    using hist_inc_run [OF s2(1) tr assms(3,6)] hist_inc_keeps_ok [OF s2(1) tr assms(3,6)] s2(2) by auto
  have mid: "bnd (gets max_rt) (\<lambda>ms. bnd (rd ms (int tr)) (\<lambda>m.
        on_cond (rt > m) (modify (\<lambda>s. s\<lparr>max_rt := (max_rt s)[tr := rt]\<rparr>)))) s1 = (Inr (), s2)"
    using len assms(2) by (simp add: rd_def s2_def on_cond_def ret_eq)
  have "\<exists>t. bnd test_counting (\<lambda>counting. on_cond counting
       (if rt < limit then count Success tr t_num 1 else count Late tr t_num 1)) s3 = (Inr (), t) \<and> hist_ok t"
    using s3(2,3) assms(4,5) by (simp add: bnd_def test_counting_def on_cond_def count_def ret_eq hist_ok_def)
  then obtain t where "bnd test_counting (\<lambda>counting. on_cond counting
       (if rt < limit then count Success tr t_num 1 else count Late tr t_num 1)) s3 = (Inr (), t)" "hist_ok t"
    by blast
  with s1(1) mid s3(1) show ?thesis unfolding finish_def thn_ok by blast
qed

lemma example_hist_part: "hist_ok example_drv"
  using example_hist_ok by (simp add: hist_ok_def)

lemma elapsed_0 [simp]: "elapsed_ms (0, 0) (0, 0) = 0"
  by (simp add: elapsed_ms_def)

text \<open>
  A Delivery on the calm server, with a clock that stands still: it is completed at the first attempt
  and counted as a success.
\<close>

lemma calm_delivery:
  fixes s :: "(nat, 'z) drv_scheme"
  assumes "hist_ok s" and "num_ware s = 1" and "num_node s = 0" and "0 \<le> t_num" and "t_num < num_conn s"
    and "clocks s = sconst (0, 0)" and "stamps s = sconst (Some stamp)" and "counting_on s = always_on"
  shows "\<exists>t. dispatch calm_server fuel t_num 3 s = (Inr (), t) \<and> hist_ok t \<and>
    tally1 t = (tally1 s)(Success := (tally1 s Success)[3 := tally1 s Success ! 3 + 1])"
proof -
  define s' where "s' = s\<lparr>rng := stl (stl (rng s))\<rparr>"
  obtain w c where draw: "pick_ware t_num s = (Inr w, s\<lparr>rng := stl (rng s)\<rparr>)"
    "RandomNumber 1 10 (s\<lparr>rng := stl (rng s)\<rparr>) = (Inr c, s')"
    using assms(2,3) by (simp add: pick_ware_def RandomNumber_run s'_def)
  have "\<exists>t. delivery calm_server t_num w c (s'\<lparr>clocks := stl (clocks s')\<rparr>) = (Inr 1, t)"
    by (rule delivery_obliging [OF calm_obliging]) (simp add: s'_def assms(7))
  then obtain t where t: "delivery calm_server t_num w c (s'\<lparr>clocks := stl (clocks s')\<rparr>) = (Inr 1, t)" ..
  have b: "below (s'\<lparr>clocks := stl (clocks s')\<rparr>) t" by (rule keepsD [OF delivery_below t])
  then have clk: "clocks t = sconst (0, 0)" using assms(6) by (auto simp: below_def s'_def sdrop_sconst)
  let ?t = "t\<lparr>clocks := stl (clocks t)\<rparr>"
  have t': "hist_ok ?t" "num_conn ?t = num_conn s" "tally1 ?t = tally1 s" "counting_on ?t = always_on"
    using b below_drv [OF b] assms(1,8) by (simp_all add: below_def s'_def hist_ok_def)
  then obtain u where u: "finish 3 RTIME_DELIVERY t_num (elapsed_ms (0, 0) (0, 0)) ?t = (Inr (), u)" "hist_ok u"
    using finish_returns [of ?t 3 0 t_num RTIME_DELIVERY] assms(4,5) by auto
  have "tally1 u c = ((tally1 s)(Success := (tally1 s Success)[3 := tally1 s Success ! 3 + 1])) c" for c
    using finish_ok [OF u(1) t'(4)] t'(3) by (simp add: gained_def RTIME_DELIVERY_def)
  then have tally: "tally1 u = (tally1 s)(Success := (tally1 s Success)[3 := tally1 s Success ! 3 + 1])" ..
  from u(1) have run: "attempts (delivery calm_server t_num w c) 3 RTIME_DELIVERY t_num (0, 0) (Suc n)
      (s'\<lparr>clocks := stl (clocks s')\<rparr>) = (Inr 1, u)" for n
    using t clk by (simp add: bnd_def thn_def clock_gettime_def ret_eq)
  have "MAX_RETRY = Suc 1999" by (simp add: MAX_RETRY_def)
  moreover have "shd (clocks s') = (0, 0)" by (simp add: s'_def assms(6))
  ultimately have "run_txn (delivery calm_server t_num w c) 3 RTIME_DELIVERY t_num s' = (Inr 1, u)"
    using run [of 1999] by (simp only: run_txn_def bnd_def clock_gettime_def prod.case sum.case)
  with draw u(2) tally show ?thesis
    by (simp add: dispatch_simps do_delivery_def bnd_def ret_eq)
qed

text \<open>A round of the driver, when the window is open and a Delivery is next.\<close>

lemma calm_round:
  fixes s :: "(nat, 'z) drv_scheme"
  assumes "hist_ok s" and "num_ware s = 1" and "num_node s = 0" and "0 < t_num" and "t_num < num_conn s"
    and "clocks s = sconst (0, 0)" and "stamps s = sconst (Some stamp)" and "counting_on s = always_on"
    and "tally1 s Success ! 0 = rate_last_transactions s" and "0 \<le> num_neword_per_10_sec s"
    and "shd (tods s) = (sec, 0)" and "rate_last_seconds s < f64 (of_int sec)"
    and "seq_next s = 0" and "seq_total s = 1" and "seq_arr s = [3]"
  shows "\<exists>t. drive_once calm_server (Suc fuel) t_num s = (Inr (), t) \<and> hist_ok t \<and>
    tally1 t = (tally1 s)(Success := (tally1 s Success)[3 := tally1 s Success ! 3 + 1])"
proof -
  let ?s = "s\<lparr>tods := stl (tods s)\<rparr>"
  let ?u = "s\<lparr>tods := stl (tods s), seq_next := 1\<rparr>"
  have rate: "\<not> dbl_greater (current_tps (f64 (of_int sec)) ?s) (of_int (num_neword_per_10_sec s))"
  proof -
    have "0 < f64 (f64 (of_int sec) - rate_last_seconds s)" using assms(12) by (intro f64_pos) simp
    with assms(9,10) show ?thesis by (simp add: current_tps_def dbl_div_def)
  qed
  have "tarpit (Suc fuel) s = (Inr (), ?s)"
    using rate assms(11) by (simp add: now_seconds_def bnd_def ret_eq)
  moreover have "seq_get ?s = (Inr 3, ?u)"
    using assms(13-15) by (simp add: seq_get_def on_cond_def thn_def bnd_def rd_def ret_eq)
  moreover have "open_window t_num s = (Inr (), s)" using assms(4) by (simp add: open_window_def on_cond_def ret_eq)
  moreover obtain t where "dispatch calm_server (Suc fuel) t_num 3 ?u = (Inr (), t)" "hist_ok t"
      "tally1 t = (tally1 s)(Success := (tally1 s Success)[3 := tally1 s Success ! 3 + 1])"
    using calm_delivery [of ?u t_num stamp "Suc fuel"] assms(1-8) by (auto simp: hist_ok_def)
  ultimately show ?thesis by (simp add: drive_once_def thn_def bnd_def del: tarpit.simps)
qed

lemma example_dispatch: "\<exists>t. dispatch calm_server 0 0 3 example_drv = (Inr (), t)"
  using calm_delivery [of example_drv 0 "''2014-11-01 00:00:00''" 0] example_hist_part by auto

lemma example_reading: "f64 1400000010 = 1400000010"
  using f64_of_int [of 1400000010] by simp

lemma example_seconds: "seconds_at example_drv i = 1400000010"
  by (simp add: seconds_at_def example_reading)

lemma example_input:
  "\<exists>w_id d_id c_id ol_cnt l t. neword_input 0 0 example_drv = (Inr (w_id, d_id, c_id, ol_cnt, l), t)"
proof -
  let ?P = "\<lambda>s :: nat drv. num_ware s = 1 \<and> num_node s = 0"
  have line: "returns ?P (input_line 0 w n rbk i l) (\<lambda>_. ?P)" for w n rbk i l
    unfolding input_line_def Let_def case_prod_beta
    by (intro returns_bnd [OF NURand_returns [of 8191, where P = ?P]]
        returns_bnd [OF RandomNumber_returns [where P = ?P]] returns_bnd [where Q = "\<lambda>_. ?P"])
      (auto simp: MAXITEMS_def returns_def other_ware_def RandomNumber_run bnd_def ret_eq)
  have lines: "returns ?P (cfold js (input_line 0 w n rbk) l) (\<lambda>_. ?P)" for js w n rbk l
    by (induction js arbitrary: l) (auto intro!: returns_bnd [OF line] simp: returns_ret)
  have cust: "returns ?P (NURand 1023 1 CUST_PER_DIST) (\<lambda>_. ?P)"
    by (rule returns_conseq [OF NURand_returns [where P = ?P]]) (auto simp: CUST_PER_DIST_def)
  have "returns ?P (neword_input 0 0) (\<lambda>_ _. True)"
    unfolding neword_input_def
    by (intro returns_bnd [where Q = "\<lambda>_. ?P"] lines cust)
      (auto simp: pick_ware_def returns_def RandomNumber_run bnd_def ret_eq DIST_PER_WARE_def CUST_PER_DIST_def)
  from returnsD [OF this, of example_drv] obtain a t where "neword_input 0 0 example_drv = (Inr a, t)"
    by auto
  then show ?thesis by (cases a) auto
qed

section \<open>Properties\<close>

text \<open>
  Property C13. What the counters stand for. When the driver has run one transaction of kind
  \<open>tr\<close> while counting is on, the log is that of some failed attempts, each rolled back by the
  transaction, followed by that of one completed transaction and of no other call; the
  transaction is counted once, as success or late, the failed attempts as retries, in the
  totals and for the thread. After 2000 failed attempts it is counted as one failure and 1999
  retries, and nothing has been completed. No other counter changes.
\<close>

theorem dispatch_counts:
  assumes "dispatch M fuel t_num (int tr) s = (Inr u, t)" and "tr < 5" and "counting_on s = always_on"
  shows "\<exists>ess es. log t = log s @ concat ess @ es \<and>
     (\<forall>es' \<in> set ess. txn_given_up tr t_num es') \<and>
     (length ess < MAX_RETRY \<and> txn_finished tr t_num es \<and> (\<exists>c \<in> {Success, Late}.
        gained tr t_num (gains (int (length ess)) c) s t) \<or>
      length ess = MAX_RETRY \<and> es = [] \<and>
        gained tr t_num (gains (int MAX_RETRY - 1) Failure) s t)"
  using dispatch_accounts [OF assms(2), of t_num M fuel] assms(1,3)
  unfolding accounts_def accounted_def by blast

theorem dispatch_counts_witness:
  "\<exists>t ess es. dispatch calm_server 0 0 (int 3) example_drv = (Inr (), t) \<and>
     log t = log example_drv @ concat ess @ es \<and> (\<forall>es' \<in> set ess. txn_given_up 3 0 es') \<and>
     (length ess < MAX_RETRY \<and> txn_finished 3 0 es \<and> (\<exists>c \<in> {Success, Late}.
        gained 3 0 (gains (int (length ess)) c) example_drv t) \<or>
      length ess = MAX_RETRY \<and> es = [] \<and>
        gained 3 0 (gains (int MAX_RETRY - 1) Failure) example_drv t)"
proof -
  obtain t where run: "dispatch calm_server 0 0 (int 3) example_drv = (Inr (), t)"
    using example_dispatch by auto
  from dispatch_counts [OF run] run show ?thesis by simp
qed

text \<open>
  Property C14. The totals are the sums over the threads: a driver that runs alone keeps the
  two sets of counters in agreement, for every server, whatever it draws and however it ends.
\<close>

theorem driver_tallies_agree:
  assumes "tallies_agree s"
  shows "tallies_agree (snd (driver M fuel t_num rounds s))"
proof -
  obtain r t where run: "driver M fuel t_num rounds s = (r, t)" by fastforce
  from keepsD [OF driver_agreeing run] assms run show ?thesis by simp
qed

theorem driver_tallies_agree_witness:
  "tallies_agree (snd (driver calm_server 5 0 7 example_drv))"
  by (rule driver_tallies_agree [OF example_agrees])

text \<open>
  The input of a New-Order is within the ranges that the transaction relies on:
  warehouse, district and customer exist, the order has 5 to 15 lines, every item number is
  valid but possibly that of the last line, which is then \<open>MAXITEMS + 1\<close>. \<open>all_local\<close> is 1
  only if every line is supplied by the home warehouse and, with more than one warehouse,
  exactly then.
\<close>

theorem neword_input_ranges:
  assumes "neword_input fuel t_num s = (Inr (w_id, d_id, c_id, ol_cnt, l), t)"
    and "num_node s = 0" and "1 \<le> num_ware s"
  shows "1 \<le> w_id \<and> w_id \<le> num_ware s \<and> 1 \<le> d_id \<and> d_id \<le> DIST_PER_WARE \<and>
    1 \<le> c_id \<and> c_id \<le> CUST_PER_DIST \<and> 5 \<le> ol_cnt \<and> ol_cnt \<le> int MAX_NUM_ITEMS \<and>
    length (itemid l) = nat ol_cnt \<and> lines_ok w_id (num_ware s) ol_cnt l"
  by (rule neword_input_ok [OF assms])

theorem neword_input_ranges_witness:
  "\<exists>w_id d_id c_id ol_cnt l t.
    neword_input 0 0 example_drv = (Inr (w_id, d_id, c_id, ol_cnt, l), t) \<and>
    1 \<le> w_id \<and> w_id \<le> num_ware example_drv \<and> 1 \<le> d_id \<and> d_id \<le> DIST_PER_WARE \<and>
    1 \<le> c_id \<and> c_id \<le> CUST_PER_DIST \<and> 5 \<le> ol_cnt \<and> ol_cnt \<le> int MAX_NUM_ITEMS \<and>
    length (itemid l) = nat ol_cnt \<and> lines_ok w_id (num_ware example_drv) ol_cnt l"
proof -
  obtain w_id d_id c_id ol_cnt l t where
    run: "neword_input 0 0 example_drv = (Inr (w_id, d_id, c_id, ol_cnt, l), t)"
    using example_input by blast
  from neword_input_ranges [OF run] run show ?thesis by auto
qed

text \<open>
  The search for another warehouse ends with one, in range and different from
  the home warehouse, as soon as the random numbers offer one; with a single warehouse it
  returns the home warehouse at once.
\<close>

theorem other_ware_returns:
  assumes "1 \<le> home_ware" and "home_ware \<le> num_ware s"
    and "num_ware s \<noteq> 1 \<longrightarrow>
      (\<exists>i < fuel. 1 + int (rng s !! i mod 2147483648) mod num_ware s \<noteq> home_ware)"
  shows "\<exists>w t. other_ware fuel home_ware s = (Inr w, t) \<and> 1 \<le> w \<and> w \<le> num_ware s \<and>
    (w = home_ware \<longleftrightarrow> num_ware s = 1)"
proof (cases "num_ware s = 1")
  case True
  with assms(1,2) show ?thesis by (simp add: other_ware_def ret_eq)
next
  case False
  with assms obtain i where "i < fuel" "1 + int (rng s !! i mod 2147483648) mod num_ware s \<noteq> home_ware"
    by blast
  from other_ware_loop_returns [OF _ this] assms(1,2) False obtain w t where
    run: "other_ware fuel home_ware s = (Inr w, t)" by (fastforce simp: other_ware_def)
  from other_ware_ok [OF assms(1,2) run] run False show ?thesis by blast
qed

theorem other_ware_returns_witness:
  "\<exists>w t. other_ware 3 1 (example_drv\<lparr>num_ware := 2, rng := 0 ## 4 ## sconst 5\<rparr>) = (Inr w, t) \<and>
    1 \<le> w \<and> w \<le> num_ware (example_drv\<lparr>num_ware := 2, rng := 0 ## 4 ## sconst 5\<rparr>) \<and>
    (w = 1 \<longleftrightarrow> num_ware (example_drv\<lparr>num_ware := 2, rng := 0 ## 4 ## sconst 5\<rparr>) = 1)"
  by (rule other_ware_returns) (auto intro!: exI [of _ 2] simp: numeral_2_eq_2)

text \<open>
  The rate limit lets a thread go on once the window is old enough: at the latest
  at the first reading of the clock at which the New-Orders counted in the window, per ten
  seconds of its age, are at most a quarter of the limit (the factor covers the rounding of
  the two \<open>double\<close> operations).
\<close>

theorem tarpit_returns:
  assumes "i < fuel" and "0 < f64 (seconds_at s i - rate_last_seconds s)" and "0 \<le> in_window s"
    and "in_window s < 2 ^ 53" and "40 * of_int (in_window s) \<le>
      of_int (num_neword_per_10_sec s) * f64 (seconds_at s i - rate_last_seconds s)"
  shows "\<exists>t. tarpit fuel s = (Inr (), t) \<and> aside s t"
  by (rule tarpit_returns_at [OF assms])

theorem tarpit_returns_witness:
  "\<exists>t. tarpit 1 example_drv = (Inr (), t) \<and> aside example_drv t"
proof (rule tarpit_returns)
  show "0 < f64 (seconds_at example_drv 0 - rate_last_seconds example_drv)"
    by (simp add: example_seconds f64_pos)
  then show "40 * of_int (in_window example_drv) \<le> of_int (num_neword_per_10_sec example_drv) *
      f64 (seconds_at example_drv 0 - rate_last_seconds example_drv)"
    by (simp add: in_window_def)
qed (simp_all add: in_window_def)

text \<open>
  With a limit of 0 (option \<^verbatim>\<open>-n 0\<close>) one New-Order counted in the window is
  enough to hold a thread in the rate limit for ever: no number of iterations ends the loop,
  however far the clock advances. The loop does not test \<open>activate_transaction\<close>, so the main
  thread waits for this thread at the end of the run.
\<close>

theorem tarpit_zero_limit:
  assumes "num_neword_per_10_sec s \<le> 0" and "0 < in_window s"
    and "\<forall>i. rate_last_seconds s \<le> seconds_at s i"
  shows "fst (tarpit fuel s) = Inl OutOfFuel"
  using assms
proof (induction fuel arbitrary: s)
  case (Suc fuel)
  have "dbl_greater (current_tps (seconds_at s 0) s) (of_int (num_neword_per_10_sec s))"
    using Suc.prems by (intro rate_fast) simp_all
  with Suc.IH [of "s\<lparr>tods := stl (tods s)\<rparr>"] Suc.prems show ?case
    unfolding tarpit_Suc by simp
qed (simp add: halt_eq)


theorem tarpit_zero_limit_witness:
  "fst (tarpit 1000 (example_drv\<lparr>num_neword_per_10_sec := 0,
    tally1 := \<lambda>_. [1, 0, 0, 0, 0]\<rparr>)) = Inl OutOfFuel"
  by (rule tarpit_zero_limit) (simp_all add: in_window_def seconds_at_def example_reading)

end
