(* ===== verification/Races.thy ===== *)
theory Races
  imports Driver
begin

text \<open>
  The races on the counters of \<^verbatim>\<open>tpcc-mysql/src/driver.c\<close>. Every thread executes
  \<open>success[i]++; success2[i][t_num]++\<close> without a lock: the first array element is shared by
  all threads, the second belongs to the thread. An increment of the shared element is a
  load and a store, between which the other threads may run.
\<close>

section \<open>Steps of the threads\<close>

text \<open>Where a thread is: before the statement, after the load of the value, after the store.\<close>

datatype pc = Idle | Loaded int | Stored

record counters =
  shared :: int
  own :: "nat \<Rightarrow> int"
  pc :: "nat \<Rightarrow> pc"

inductive step :: "nat \<Rightarrow> counters \<Rightarrow> counters \<Rightarrow> bool" for i where
  load: "pc s i = Idle \<Longrightarrow> step i s (s\<lparr>pc := (pc s)(i := Loaded (shared s))\<rparr>)"
| store: "pc s i = Loaded v \<Longrightarrow> step i s (s\<lparr>shared := v + 1, pc := (pc s)(i := Stored)\<rparr>)"
| own: "pc s i = Stored \<Longrightarrow>
    step i s (s\<lparr>own := (own s)(i := own s i + 1), pc := (pc s)(i := Idle)\<rparr>)"

inductive_cases stepE: "step i s t"

text \<open>The states that \<open>n\<close> threads reach, from counters that are 0.\<close>

inductive reachable :: "nat \<Rightarrow> counters \<Rightarrow> bool" for n where
  start: "reachable n \<lparr>shared = 0, own = (\<lambda>_. 0), pc = (\<lambda>_. Idle)\<rparr>"
| move: "reachable n s \<Longrightarrow> i < n \<Longrightarrow> step i s t \<Longrightarrow> reachable n t"

section \<open>Lemmas\<close>

text \<open>The increments whose store has been executed.\<close>

definition stored :: "counters \<Rightarrow> nat \<Rightarrow> int" where
  "stored s i = own s i + (if pc s i = Stored then 1 else 0)"

definition total_stored :: "nat \<Rightarrow> counters \<Rightarrow> int" where
  "total_stored n s = (\<Sum>i<n. stored s i)"

lemma step_stored:
  assumes "step i s t"
  shows "stored t = (case pc s i of Loaded v \<Rightarrow> (stored s)(i := stored s i + 1) | _ \<Rightarrow> stored s)"
  using assms by (elim stepE) (auto simp: stored_def fun_eq_iff split: if_splits)

lemma sum_bump:
  fixes f :: "nat \<Rightarrow> int"
  assumes "i < n"
  shows "(\<Sum>j<n. (f(i := f i + 1)) j) = (\<Sum>j<n. f j) + 1"
proof -
  have "(\<Sum>j<n. (f(i := f i + 1)) j) = (\<Sum>j<n. f j + (if j = i then 1 else 0))"
    by (rule sum.cong) auto
  also have "\<dots> = (\<Sum>j<n. f j) + 1" using assms by (simp add: sum.distrib)
  finally show ?thesis .
qed

lemma step_total_stored:
  assumes "step i s t" and "i < n"
  shows "total_stored n t = total_stored n s + (case pc s i of Loaded v \<Rightarrow> 1 | _ \<Rightarrow> 0)"
  unfolding total_stored_def step_stored [OF assms(1)]
  using sum_bump [OF assms(2), of "stored s"] by (simp split: pc.split)

text \<open>
  The invariant: neither the shared counter nor a value that a thread has loaded is more than
  the number of stores.
\<close>

definition races_inv :: "nat \<Rightarrow> counters \<Rightarrow> bool" where
  "races_inv n s \<longleftrightarrow> 0 \<le> shared s \<and> shared s \<le> total_stored n s \<and>
     (\<forall>i v. pc s i = Loaded v \<longrightarrow> 0 \<le> v \<and> v \<le> total_stored n s) \<and>
     (0 < total_stored n s \<longrightarrow> 0 < shared s)"

lemma races_inv_step:
  assumes "races_inv n s" and "i < n" and "step i s t"
  shows "races_inv n t"
proof -
  note tot = step_total_stored [OF assms(3,2)]
  from assms(3) show ?thesis
  proof (cases rule: step.cases)
    case load
    with assms(1) tot show ?thesis by (auto simp: races_inv_def)
  next
    case (store v)
    with assms(1) tot show ?thesis by (fastforce simp: races_inv_def)
  next
    case own
    with assms(1) tot show ?thesis by (auto simp: races_inv_def)
  qed
qed

lemma reachable_inv: "reachable n s \<Longrightarrow> races_inv n s"
proof (induction rule: reachable.induct)
  case start
  show ?case by (simp add: races_inv_def total_stored_def stored_def)
next
  case (move s i t)
  then show ?case by (blast intro: races_inv_step)
qed

lemma idle_total: "\<forall>i < n. pc s i = Idle \<Longrightarrow> total_stored n s = (\<Sum>i<n. own s i)"
  unfolding total_stored_def by (rule sum.cong) (simp_all add: stored_def)

text \<open>The counters of the driver as a state of the threads.\<close>

definition counters_of :: "tally \<Rightarrow> nat \<Rightarrow> ('s, 'z) drv_scheme \<Rightarrow> counters" where
  "counters_of c tr s = \<lparr>shared = tally1 s c ! tr, own = (\<lambda>i. tally2 s c ! tr ! i), pc = (\<lambda>_. Idle)\<rparr>"

text \<open>Two threads, each of which counts once; both load the shared counter before a store.\<close>

definition lost_state :: counters where
  "lost_state = \<lparr>shared = 1, own = (\<lambda>i. if i < 2 then 1 else 0), pc = (\<lambda>_. Idle)\<rparr>"

lemma lost_reachable: "reachable 2 lost_state"
proof -
  define s0 :: counters where "s0 = \<lparr>shared = 0, own = (\<lambda>_. 0), pc = (\<lambda>_. Idle)\<rparr>"
  define s1 where "s1 = s0\<lparr>pc := (pc s0)(0 := Loaded (shared s0))\<rparr>"
  define s2 where "s2 = s1\<lparr>pc := (pc s1)(1 := Loaded (shared s1))\<rparr>"
  define s3 where "s3 = s2\<lparr>shared := 0 + 1, pc := (pc s2)(0 := Stored)\<rparr>"
  define s4 where "s4 = s3\<lparr>shared := 0 + 1, pc := (pc s3)(1 := Stored)\<rparr>"
  define s5 where "s5 = s4\<lparr>own := (own s4)(0 := own s4 0 + 1), pc := (pc s4)(0 := Idle)\<rparr>"
  define s6 where "s6 = s5\<lparr>own := (own s5)(1 := own s5 1 + 1), pc := (pc s5)(1 := Idle)\<rparr>"
  note defs = s0_def s1_def s2_def s3_def s4_def s5_def s6_def
  have r0: "reachable 2 s0" unfolding s0_def by (rule start)
  have "step 0 s0 s1" unfolding s1_def by (rule load) (simp add: defs)
  from move [OF r0 _ this] have r1: "reachable 2 s1" by simp
  have "step 1 s1 s2" unfolding s2_def by (rule load) (simp add: defs)
  from move [OF r1 _ this] have r2: "reachable 2 s2" by simp
  have "step 0 s2 s3" unfolding s3_def by (rule store) (simp add: defs)
  from move [OF r2 _ this] have r3: "reachable 2 s3" by simp
  have "step 1 s3 s4" unfolding s4_def by (rule store) (simp add: defs)
  from move [OF r3 _ this] have r4: "reachable 2 s4" by simp
  have "step 0 s4 s5" unfolding s5_def by (rule own) (simp add: defs)
  from move [OF r4 _ this] have r5: "reachable 2 s5" by simp
  have "step 1 s5 s6" unfolding s6_def by (rule own) (simp add: defs)
  from move [OF r5 _ this] have r6: "reachable 2 s6" by simp
  moreover have "s6 = lost_state"
    by (auto simp: defs lost_state_def fun_eq_iff)
  ultimately show ?thesis by simp
qed

section \<open>Properties\<close>

text \<open>
  The increment of theory Driver is the uninterrupted run of its three steps: a
  load, a store and the increment of the thread's own counter.
\<close>

lemma count_three_steps:
  assumes "count c tr t_num 1 s = (Inr (), t)" and "tallies_agree s" and "tr < 5"
  shows "\<exists>s1 s2. step (nat t_num) (counters_of c tr s) s1 \<and> step (nat t_num) s1 s2 \<and>
    step (nat t_num) s2 (counters_of c tr t)"
proof -
  let ?i = "nat t_num" and ?s = "counters_of c tr s"
  let ?s1 = "?s\<lparr>pc := (pc ?s)(?i := Loaded (shared ?s))\<rparr>"
  let ?s2 = "?s1\<lparr>shared := shared ?s + 1, pc := (pc ?s1)(?i := Stored)\<rparr>"
  have t: "0 \<le> t_num" "t_num < num_conn s" and
    eq: "t = s\<lparr>tally1 := (tally1 s)(c := (tally1 s c)[tr := tally1 s c ! tr + 1]),
       tally2 := (tally2 s)(c := (tally2 s c)[tr := (tally2 s c ! tr)
         [?i := tally2 s c ! tr ! ?i + 1]])\<rparr>"
    using assms(1) by (auto simp: count_def split: if_splits)
  have len: "length (tally1 s c) = 5" "length (tally2 s c) = 5"
    "?i < length (tally2 s c ! tr)"
    using assms(2,3) t by (simp_all add: tallies_agree_def)
  have "step ?i ?s ?s1" by (rule load) (simp add: counters_of_def)
  moreover have "step ?i ?s1 ?s2" by (rule store) simp
  moreover have "step ?i ?s2 (?s2\<lparr>own := (own ?s2)(?i := own ?s2 ?i + 1), pc := (pc ?s2)(?i := Idle)\<rparr>)"
    by (rule own) simp
  moreover have "?s2\<lparr>own := (own ?s2)(?i := own ?s2 ?i + 1), pc := (pc ?s2)(?i := Idle)\<rparr> =
      counters_of c tr t"
    using len assms(3) by (auto simp: counters_of_def eq fun_eq_iff nth_list_update)
  ultimately show ?thesis by metis
qed

text \<open>
  The totals may fall short of the sums over the threads, but not exceed them,
  and are not 0 when something was counted: in every state that any number of threads
  reaches, with no statement in progress, \<open>success[i]\<close> is at most the sum of
  \<open>success2[i]\<close>. With one thread they are equal (property of \<open>driver\<close>).
\<close>

theorem total_at_most_sum:
  assumes "reachable n s" and "\<forall>i < n. pc s i = Idle"
  shows "0 \<le> shared s \<and> shared s \<le> (\<Sum>i<n. own s i) \<and> (0 < (\<Sum>i<n. own s i) \<longrightarrow> 0 < shared s)"
  using reachable_inv [OF assms(1)] idle_total [OF assms(2)] by (simp add: races_inv_def)

theorem total_at_most_sum_witness:
  "shared lost_state = 1 \<and> shared lost_state \<le> (\<Sum>i<2. own lost_state i)"
proof -
  have "\<forall>i < 2. pc lost_state i = Idle" by (simp add: lost_state_def)
  from total_at_most_sum [OF lost_reachable this] show ?thesis by (simp add: lost_state_def)
qed

text \<open>
  Updates are lost: two threads that count one transaction each can leave the
  shared counter at 1, since both load it before one of them stores.
\<close>

theorem update_lost:
  "\<exists>s. reachable 2 s \<and> (\<forall>i. pc s i = Idle) \<and> own s 0 = 1 \<and> own s 1 = 1 \<and> shared s = 1"
  by (rule exI [of _ lost_state]) (simp add: lost_reachable, simp add: lost_state_def)

end
