(* ===== verification/CText.thy ===== *)
theory CText
  imports Support
begin

text \<open>
  The text conversions that the two programs apply to their arguments: \<open>strtol\<close> and \<open>atoi\<close> of
  the C library in base 10, on a 64-bit \<open>long\<close> and a 32-bit \<open>int\<close>, and the functions of
  \<^verbatim>\<open>tpcc-mysql/src/parse_port.h\<close>.
\<close>

section \<open>Numbers\<close>

definition c_isspace :: "char \<Rightarrow> bool" where
  "c_isspace c \<longleftrightarrow> c \<in> {CHR '' '', CHR 0x09, CHR 0x0A, CHR 0x0B, CHR 0x0C, CHR 0x0D}"

definition c_isdigit :: "char \<Rightarrow> bool" where
  "c_isdigit c \<longleftrightarrow> 48 \<le> (of_char c :: int) \<and> (of_char c :: int) \<le> 57"

definition digits_value :: "string \<Rightarrow> int" where
  "digits_value ds = foldl (\<lambda>a c. a * 10 + (of_char c - 48)) 0 ds"

definition sign_of :: "string \<Rightarrow> bool \<times> string" where
  "sign_of str = (case str of
       c # cs \<Rightarrow> if c = CHR ''-'' then (True, cs) else if c = CHR ''+'' then (False, cs) else (False, str)
     | [] \<Rightarrow> (False, str))"

definition clamp_long :: "int \<Rightarrow> int" where
  "clamp_long n = max (- (2 ^ 63)) (min (2 ^ 63 - 1) n)"

text \<open>The number and the rest of the text; without digits 0 and the whole text.\<close>

definition strtol :: "string \<Rightarrow> int \<times> string" where
  "strtol str = (case sign_of (dropWhile c_isspace str) of (neg, cs) \<Rightarrow>
     let ds = takeWhile c_isdigit cs in
     if ds = [] then (0, str)
     else (clamp_long (if neg then - digits_value ds else digits_value ds), dropWhile c_isdigit cs))"

definition atoi :: "string \<Rightarrow> int" where
  "atoi str = c_int (fst (strtol str))"

section \<open>Host and port\<close>

text \<open>The text before the last colon, and the text after it if there is one.\<close>

definition rindex_colon :: "string \<Rightarrow> nat option" where
  "rindex_colon str = (if CHR '':'' \<in> set str
     then Some (length str - 1 - length (takeWhile (\<lambda>c. c \<noteq> CHR '':'') (rev str))) else None)"

definition parse_host :: "string \<Rightarrow> string" where
  "parse_host str = (case rindex_colon str of None \<Rightarrow> str | Some i \<Rightarrow> take i str)"

text \<open>\<open>None\<close>: the program prints \<^verbatim>\<open>Incorrect port value\<close> and exits with -1.\<close>

definition parse_port :: "string \<Rightarrow> int option" where
  "parse_port str = (case rindex_colon str of
       None \<Rightarrow> Some 3306
     | Some i \<Rightarrow> (case strtol (drop (Suc i) str) of (n, rest) \<Rightarrow>
         let result = c_int n in
         if rest = [] \<and> 0 \<le> result \<and> result \<le> 0xFFFF then Some result else None))"

section \<open>Lemmas\<close>

text \<open>The decimal notation of a number, as \<^verbatim>\<open>%d\<close> prints it.\<close>

definition digit_char :: "nat \<Rightarrow> char" where
  "digit_char d = char_of (48 + int d)"

fun decimal_nat :: "nat \<Rightarrow> string" where
  "decimal_nat n = (if n < 10 then [digit_char n] else decimal_nat (n div 10) @ [digit_char (n mod 10)])"

declare decimal_nat.simps [simp del]

definition decimal :: "int \<Rightarrow> string" where
  "decimal n = (if n < 0 then CHR ''-'' # decimal_nat (nat (- n)) else decimal_nat (nat n))"

text \<open>\<^verbatim>\<open>%f\<close>: six decimals of the exact value, to nearest with ties to even.\<close>

definition six_digits :: "nat \<Rightarrow> string" where
  "six_digits n = (let ds = decimal_nat n in replicate (6 - length ds) (CHR ''0'') @ ds)"

definition fixed6 :: "rat \<Rightarrow> string" where
  "fixed6 x = (let n = nat (rne (\<bar>x\<bar> * 1000000)) in
     (if x < 0 then ''-'' else '''') @ decimal_nat (n div 1000000) @ ''.'' @ six_digits (n mod 1000000))"

lemma of_digit_char: "d < 10 \<Longrightarrow> (of_char (digit_char d) :: int) = 48 + int d"
  by (simp add: digit_char_def of_char_of)

lemma digit_char_props:
  assumes "d < 10"
  shows "c_isdigit (digit_char d)" and "digit_char d \<noteq> CHR '':''"
proof -
  show "c_isdigit (digit_char d)" using assms by (simp add: c_isdigit_def of_digit_char)
  have "(of_char (CHR '':'') :: int) = 58" by simp
  then show "digit_char d \<noteq> CHR '':''" using of_digit_char [OF assms] assms by auto
qed

lemma digits_value_snoc: "digits_value (ds @ [c]) = digits_value ds * 10 + (of_char c - 48)"
  by (simp add: digits_value_def)

lemma decimal_nat_props:
  "digits_value (decimal_nat n) = int n" "\<forall>c \<in> set (decimal_nat n). c_isdigit c"
  "decimal_nat n \<noteq> []" "CHR '':'' \<notin> set (decimal_nat n)"
proof (induction n rule: decimal_nat.induct)
  case (1 n)
  {
    case 1
    have "int (n div 10) * 10 + int (n mod 10) = int n" by presburger
    with "1.IH"(1) show ?case
      by (subst decimal_nat.simps) (simp add: digits_value_snoc of_digit_char digits_value_def [of "[_]"])
  next
    case 2
    show ?case using "1.IH"(2) by (subst decimal_nat.simps) (auto simp: digit_char_props)
  next
    case 3
    show ?case by (subst decimal_nat.simps) simp
  next
    case 4
    have "CHR '':'' \<noteq> digit_char d" if "d < 10" for d using digit_char_props(2) [OF that] by simp
    with "1.IH"(4) show ?case by (subst decimal_nat.simps) auto
  }
qed

lemma decimal_nat_hd: "\<not> c_isspace (hd (decimal_nat n))" "hd (decimal_nat n) \<noteq> CHR ''-''"
  "hd (decimal_nat n) \<noteq> CHR ''+''"
proof -
  have d: "c_isdigit (hd (decimal_nat n))" using decimal_nat_props(2,3) [of n] by simp
  then show "\<not> c_isspace (hd (decimal_nat n))" by (auto simp: c_isspace_def c_isdigit_def)
  from d show "hd (decimal_nat n) \<noteq> CHR ''-''" "hd (decimal_nat n) \<noteq> CHR ''+''"
    by (auto simp: c_isdigit_def)
qed

lemma strtol_decimal:
  assumes "- (2 ^ 63) \<le> n" and "n < 2 ^ 63"
  shows "strtol (decimal n) = (n, [])"
proof -
  have split: "sign_of (dropWhile c_isspace (decimal n)) = (n < 0, decimal_nat (nat \<bar>n\<bar>))"
  proof (cases "n < 0")
    case True
    then show ?thesis by (simp add: decimal_def sign_of_def c_isspace_def)
  next
    case False
    obtain c cs where c: "decimal_nat (nat n) = c # cs"
      using decimal_nat_props(3) [of "nat n"] by (cases "decimal_nat (nat n)") auto
    with decimal_nat_hd [of "nat n"] False show ?thesis by (simp add: decimal_def sign_of_def)
  qed
  have all: "takeWhile c_isdigit (decimal_nat k) = decimal_nat k"
    "dropWhile c_isdigit (decimal_nat k) = []" for k
    using decimal_nat_props(2) [of k] by (simp_all add: takeWhile_eq_all_conv)
  show ?thesis
    unfolding strtol_def split using assms
    by (simp add: all decimal_nat_props(1,3) clamp_long_def Let_def)
qed

lemma atoi_decimal: "- 2147483648 \<le> n \<Longrightarrow> n < 2147483648 \<Longrightarrow> atoi (decimal n) = n"
  by (simp add: atoi_def strtol_decimal c_int_id)

lemma rindex_colon_last: "CHR '':'' \<notin> set y \<Longrightarrow> rindex_colon (x @ CHR '':'' # y) = Some (length x)"
  by (simp add: rindex_colon_def takeWhile_append)

section \<open>Properties\<close>

text \<open>
  An argument \<^verbatim>\<open>host:port\<close> is taken apart into its host and its port, for every host
  (colons in it included) and every port number in decimal notation up to 65535; a host without a
  colon gets port 3306.
\<close>

theorem host_port_roundtrip:
  assumes "0 \<le> port" and "port \<le> 65535"
  shows "parse_host (host @ '':'' @ decimal port) = host \<and>
    parse_port (host @ '':'' @ decimal port) = Some port \<and>
    (CHR '':'' \<notin> set host \<longrightarrow> parse_host host = host \<and> parse_port host = Some 3306)"
proof -
  have "CHR '':'' \<notin> set (decimal port)"
    using decimal_nat_props(4) assms(1) by (simp add: decimal_def)
  from rindex_colon_last [OF this, of host] assms show ?thesis
    by (auto simp: parse_host_def parse_port_def strtol_decimal c_int_id rindex_colon_def)
qed

theorem host_port_roundtrip_witness:
  "parse_host (''db1'' @ '':'' @ decimal 33060) = ''db1'' \<and>
    parse_port (''db1'' @ '':'' @ decimal 33060) = Some 33060 \<and>
    parse_host ''db1'' = ''db1'' \<and> parse_port ''db1'' = Some 3306"
  using host_port_roundtrip [of 33060 "''db1''"] by simp

end
