(* ===== verification/Start.thy ===== *)
theory Start
  imports Races CText
begin

text \<open>
  \<^verbatim>\<open>tpcc-mysql/src/main.c\<close>, the program that runs the benchmark: its options, the prepared
  statements, the thread function, the handler of the interval timer and the final report.

  What the other threads do while the main thread waits is a parameter of the main program,
  for the ramp-up, every interval and the end (\<open>lampup\<close>, \<open>others\<close>, \<open>join\<close>), and so are the results of \<open>getopt\<close> and of opening a file. Output is modelled
  as values: the interval lines and the checks of the report. Of the option parsing the copies into
  fixed buffers are modelled byte by byte. \<open>num_node\<close> is 0 in this version of the program:
  nothing sets it, and the code for it in \<open>main\<close> is not modelled (the driver has its own).
\<close>

section \<open>Options\<close>

definition BUF_MAX :: nat where
  "BUF_MAX = 128"  \<comment> \<open>\<open>DB_STRING_MAX\<close> of this file\<close>

text \<open>The buffers hold \<open>BUF_MAX\<close> bytes; the numbers are named by their option letters.\<close>

record options =
  connect_buf :: string
  db_buf :: string
  user_buf :: string
  password_buf :: string
  report_buf :: string
  trx_buf :: string
  socket_buf :: string
  opt_w :: int   \<comment> \<open>\<open>num_ware\<close>\<close>
  opt_c :: int   \<comment> \<open>\<open>num_conn\<close>\<close>
  opt_r :: int   \<comment> \<open>\<open>lampup_time\<close>\<close>
  opt_l :: int   \<comment> \<open>\<open>measure_time\<close>\<close>
  opt_i :: int   \<comment> \<open>\<open>PRINT_INTERVAL\<close>\<close>
  opt_P :: int   \<comment> \<open>\<open>port\<close>\<close>
  opt_n :: int   \<comment> \<open>\<open>num_neword_per_10_sec\<close>\<close>

definition fill_buf :: "string \<Rightarrow> string" where
  "fill_buf str = strncpy_bytes BUF_MAX str"

definition default_options :: options where
  "default_options = \<lparr>connect_buf = fill_buf [], db_buf = fill_buf ''tpcc'', user_buf = fill_buf [],
     password_buf = fill_buf [], report_buf = fill_buf [], trx_buf = fill_buf [],
     socket_buf = fill_buf [], opt_w = 1, opt_c = 10, opt_r = 10, opt_l = 20, opt_i = 10,
     opt_P = 3306, opt_n = 10\<rparr>"

text \<open>One result of \<open>getopt\<close>: the letter and the argument. \<open>?\<close> prints the usage and exits with 0.\<close>

definition set_option :: "char \<times> string \<Rightarrow> options \<Rightarrow> ('st, options) cm" where
  "set_option = (\<lambda>(c, arg) opts.
     if c = CHR ''h'' then ret (opts\<lparr>connect_buf := fill_buf arg\<rparr>)
     else if c = CHR ''d'' then ret (opts\<lparr>db_buf := fill_buf arg\<rparr>)
     else if c = CHR ''u'' then ret (opts\<lparr>user_buf := fill_buf arg\<rparr>)
     else if c = CHR ''p'' then ret (opts\<lparr>password_buf := fill_buf arg\<rparr>)
     else if c = CHR ''f'' then ret (opts\<lparr>report_buf := fill_buf arg\<rparr>)
     else if c = CHR ''t'' then ret (opts\<lparr>trx_buf := fill_buf arg\<rparr>)
     else if c = CHR ''w'' then ret (opts\<lparr>opt_w := atoi arg\<rparr>)
     else if c = CHR ''c'' then ret (opts\<lparr>opt_c := atoi arg\<rparr>)
     else if c = CHR ''r'' then ret (opts\<lparr>opt_r := atoi arg\<rparr>)
     else if c = CHR ''l'' then ret (opts\<lparr>opt_l := atoi arg\<rparr>)
     else if c = CHR ''i'' then ret (opts\<lparr>opt_i := atoi arg\<rparr>)
     else if c = CHR ''P'' then ret (opts\<lparr>opt_P := atoi arg\<rparr>)
     else if c = CHR ''S'' then ret (opts\<lparr>socket_buf := fill_buf arg\<rparr>)
     else if c = CHR ''n'' then ret (opts\<lparr>opt_n := atoi arg\<rparr>)
     else if c = CHR ''?'' then halt (Exit 0)
     else ret opts)"

definition get_options :: "(char \<times> string) list \<Rightarrow> ('st, options) cm" where
  "get_options results = cfold results set_option default_options"

text \<open>A buffer read as a C string; without a NUL the reader leaves the buffer.\<close>

definition buf_string :: "string \<Rightarrow> ('st, string) cm" where
  "buf_string buf = (if CHR 0x00 \<in> set buf then ret (cstr buf) else halt OutOfBounds)"

definition is_local :: "options \<Rightarrow> bool" where
  "is_local opts \<longleftrightarrow> cstr (connect_buf opts) = ''localhost''"

section \<open>Threads\<close>

text \<open>The statements, with the length passed to \<open>mysql_stmt_prepare\<close>.\<close>

definition start_sql :: "(string \<times> nat) list" where
  "start_sql =
   [(''SELECT c_discount, c_last, c_credit, w_tax FROM customer, warehouse WHERE w_id = ? AND c_w_id = w_id AND c_d_id = ? AND c_id = ?'', 128),
    (''SELECT d_next_o_id, d_tax FROM district WHERE d_id = ? AND d_w_id = ? FOR UPDATE'', 80),
    (''UPDATE district SET d_next_o_id = ? + 1 WHERE d_id = ? AND d_w_id = ?'', 69),
    (''INSERT INTO orders (o_id, o_d_id, o_w_id, o_c_id, o_entry_d, o_ol_cnt, o_all_local) VALUES(?, ?, ?, ?, ?, ?, ?)'', 111),
    (''INSERT INTO new_orders (no_o_id, no_d_id, no_w_id) VALUES (?,?,?)'', 65),
    (''SELECT i_price, i_name, i_data FROM item WHERE i_id = ?'', 55),
    (''SELECT s_quantity, s_data, s_dist_01, s_dist_02, s_dist_03, s_dist_04, s_dist_05, s_dist_06, s_dist_07, s_dist_08, s_dist_09, s_dist_10 FROM stock WHERE s_i_id = ? AND s_w_id = ? FOR UPDATE'', 189),
    (''UPDATE stock SET s_quantity = ? WHERE s_i_id = ? AND s_w_id = ?'', 63),
    (''INSERT INTO order_line (ol_o_id, ol_d_id, ol_w_id, ol_number, ol_i_id, ol_supply_w_id, ol_quantity, ol_amount, ol_dist_info) VALUES (?, ?, ?, ?, ?, ?, ?, ?, ?)'', 159),
    (''UPDATE warehouse SET w_ytd = w_ytd + ? WHERE w_id = ?'', 53),
    (''SELECT w_street_1, w_street_2, w_city, w_state, w_zip, w_name FROM warehouse WHERE w_id = ?'', 91),
    (''UPDATE district SET d_ytd = d_ytd + ? WHERE d_w_id = ? AND d_id = ?'', 67),
    (''SELECT d_street_1, d_street_2, d_city, d_state, d_zip, d_name FROM district WHERE d_w_id = ? AND d_id = ?'', 105),
    (''SELECT count(c_id) FROM customer WHERE c_w_id = ? AND c_d_id = ? AND c_last = ?'', 79),
    (''SELECT c_id FROM customer WHERE c_w_id = ? AND c_d_id = ? AND c_last = ? ORDER BY c_first'', 89),
    (''SELECT c_first, c_middle, c_last, c_street_1, c_street_2, c_city, c_state, c_zip, c_phone, c_credit, c_credit_lim, c_discount, c_balance, c_since FROM customer WHERE c_w_id = ? AND c_d_id = ? AND c_id = ? FOR UPDATE'', 215),
    (''SELECT c_data FROM customer WHERE c_w_id = ? AND c_d_id = ? AND c_id = ?'', 72),
    (''UPDATE customer SET c_balance = ?, c_data = ? WHERE c_w_id = ? AND c_d_id = ? AND c_id = ?'', 90),
    (''UPDATE customer SET c_balance = ? WHERE c_w_id = ? AND c_d_id = ? AND c_id = ?'', 78),
    (''INSERT INTO history(h_c_d_id, h_c_w_id, h_c_id, h_d_id, h_w_id, h_date, h_amount, h_data) VALUES(?, ?, ?, ?, ?, ?, ?, ?)'', 120),
    (''SELECT count(c_id) FROM customer WHERE c_w_id = ? AND c_d_id = ? AND c_last = ?'', 79),
    (''SELECT c_balance, c_first, c_middle, c_last FROM customer WHERE c_w_id = ? AND c_d_id = ? AND c_last = ? ORDER BY c_first'', 121),
    (''SELECT c_balance, c_first, c_middle, c_last FROM customer WHERE c_w_id = ? AND c_d_id = ? AND c_id = ?'', 102),
    (''SELECT o_id, o_entry_d, COALESCE(o_carrier_id,0) FROM orders WHERE o_w_id = ? AND o_d_id = ? AND o_c_id = ? AND o_id = (SELECT MAX(o_id) FROM orders WHERE o_w_id = ? AND o_d_id = ? AND o_c_id = ?)'', 196),
    (''SELECT ol_i_id, ol_supply_w_id, ol_quantity, ol_amount, ol_delivery_d FROM order_line WHERE ol_w_id = ? AND ol_d_id = ? AND ol_o_id = ?'', 135),
    (''SELECT COALESCE(MIN(no_o_id),0) FROM new_orders WHERE no_d_id = ? AND no_w_id = ?'', 81),
    (''DELETE FROM new_orders WHERE no_o_id = ? AND no_d_id = ? AND no_w_id = ?'', 72),
    (''SELECT o_c_id FROM orders WHERE o_id = ? AND o_d_id = ? AND o_w_id = ?'', 70),
    (''UPDATE orders SET o_carrier_id = ? WHERE o_id = ? AND o_d_id = ? AND o_w_id = ?'', 79),
    (''UPDATE order_line SET ol_delivery_d = ? WHERE ol_o_id = ? AND ol_d_id = ? AND ol_w_id = ?'', 89),
    (''SELECT SUM(ol_amount) FROM order_line WHERE ol_o_id = ? AND ol_d_id = ? AND ol_w_id = ?'', 87),
    (''UPDATE customer SET c_balance = c_balance + ? , c_delivery_cnt = c_delivery_cnt + 1 WHERE c_id = ? AND c_d_id = ? AND c_w_id = ?'', 128),
    (''SELECT d_next_o_id FROM district WHERE d_id = ? AND d_w_id = ?'', 62),
    (''SELECT DISTINCT ol_i_id FROM order_line WHERE ol_w_id = ? AND ol_d_id = ? AND ol_o_id < ? AND ol_o_id >= (? - 20)'', 113),
    (''SELECT count(*) FROM stock WHERE s_w_id = ? AND s_i_id = ? AND s_quantity < ?'', 77)]"

definition uncheck :: "'s server \<Rightarrow> int \<Rightarrow> call \<Rightarrow> (('s, 'z) db_scheme, unit) cm" where
  "uncheck M t_num c = bnd (sql M t_num c) (\<lambda>_. ret ())"

definition thread_connect :: "'s server \<Rightarrow> options \<Rightarrow> int \<Rightarrow> (('s, 'z) db_scheme, unit) cm" where
  "thread_connect M opts t_num =
     bnd (buf_string (user_buf opts)) (\<lambda>user. bnd (buf_string (password_buf opts)) (\<lambda>pass.
     bnd (buf_string (db_buf opts)) (\<lambda>db.
     bnd (if is_local opts
          then bnd (buf_string (socket_buf opts)) (\<lambda>socket.
            sql M t_num (Connect ''localhost'' user pass db 0 (Some socket)))
          else bnd (buf_string (connect_buf opts)) (\<lambda>host.
            sql M t_num (Connect host user pass db (opt_P opts) None))) (\<lambda>(rc, _).
       if rc = 0 then uncheck M t_num Autocommit
       else thn (uncheck M t_num Close) (halt (Goto Sqlerr))))))"

definition thread_main :: "'s server \<Rightarrow> nat \<Rightarrow> nat \<Rightarrow> options \<Rightarrow> int \<Rightarrow>
    (('s, 'z) drv_scheme, int) cm" where
  "thread_main M fuel rounds opts t_num = handle
     (thn (thread_connect M opts t_num)
     (thn (cfor [0..<40] (\<lambda>i. checked M Sqlerr t_num (StmtInit i)))
     (thn (cfor (enumerate 0 start_sql) (\<lambda>(i, text, len). checked M Sqlerr t_num (Prepare i text len)))
     (bnd (driver M fuel t_num rounds) (\<lambda>r.
      thn (checked M Sqlerr t_num Commit)
     (thn (cfor [0..<40] (\<lambda>i. thn (uncheck M t_num (FreeResult i)) (uncheck M t_num (StmtClose i))))
     (thn (uncheck M t_num Close) (ret r))))))))
     (\<lambda>e. if e = Goto Sqlerr
       then thn (emit (Diag ''error at thread_main'' [])) (thn (error t_num) (ret 0)) else halt e)"

section \<open>The interval timer\<close>

text \<open>
  A line of the interval report: the time, and for each transaction the number counted, the
  late ones, the percentile and the maximal response time.
\<close>

record 's mn = "'s drv" +
  prev_s :: "int list"
  prev_l :: "int list"
  intervals :: "(int \<times> (int \<times> int \<times> rat \<times> rat) list) list"

definition interval_line :: "int list \<Rightarrow> int list \<Rightarrow> rat list \<Rightarrow> rat list \<Rightarrow> int list \<Rightarrow> int list \<Rightarrow>
    (int \<times> int \<times> rat \<times> rat) list" where
  "interval_line s l rt90 rt_max ps pl =
     map (\<lambda>i. (s ! i + l ! i - ps ! i - pl ! i, l ! i - pl ! i, rt90 ! i, rt_max ! i)) [0..<5]"

text \<open>The loop that takes \<open>success\<close>, \<open>late\<close> and the percentile, transaction by transaction.\<close>

definition take_count :: "int \<Rightarrow> int list \<times> int list \<times> rat list \<Rightarrow>
    (('s, 'z) mn_scheme, int list \<times> int list \<times> rat list) cm" where
  "take_count i = (\<lambda>(s, l, rt90).
     bnd (gets (\<lambda>st. tally1 st Success)) (\<lambda>succ. bnd (rd succ i) (\<lambda>si.
     bnd (gets (\<lambda>st. tally1 st Late)) (\<lambda>lat. bnd (rd lat i) (\<lambda>li.
     bnd (hist_ckp i) (\<lambda>r. ret (s @ [si], l @ [li], rt90 @ [r])))))))"

definition take_counts :: "(('s, 'z) mn_scheme, int list \<times> int list \<times> rat list) cm" where
  "take_counts = cfold [0..4] take_count ([], [], [])"

definition alarm_handler :: "int \<Rightarrow> (('s, 'z) mn_scheme, unit) cm" where
  "alarm_handler print_interval = bnd take_counts (\<lambda>(s, l, rt90).
     modify (\<lambda>st. st\<lparr>time_count := time_count st + print_interval,
       intervals := intervals st @ [(time_count st + print_interval,
         interval_line s l rt90 (cur_max_rt st) (prev_s st) (prev_l st))],
       prev_s := s, prev_l := l, cur_max_rt := replicate 5 0\<rparr>))"

section \<open>The final report\<close>

text \<open>\<open>f = 100.0 * (float)a / (float)b\<close> for a \<open>float f\<close>, and a comparison of it with a constant.\<close>

definition dbl_f32 :: "dbl \<Rightarrow> dbl" where
  "dbl_f32 x = (case x of Fin q \<Rightarrow> Fin (f32 q) | _ \<Rightarrow> x)"

definition dbl_ge :: "dbl \<Rightarrow> rat \<Rightarrow> bool" where
  "dbl_ge x c = (case x of Fin q \<Rightarrow> q \<ge> c | PInf \<Rightarrow> True | _ \<Rightarrow> False)"

definition percent :: "int \<Rightarrow> int \<Rightarrow> dbl" where
  "percent a b = dbl_f32 (dbl_div (f64 (100 * f32 (of_int a))) (f32 (of_int b)))"

text \<open>The checks: the name, the number printed, and whether it is \<^verbatim>\<open>[OK]\<close>.\<close>

definition mix_checks :: "int list \<Rightarrow> int list \<Rightarrow> (string \<times> dbl \<times> bool) list" where
  "mix_checks succ lat =
     (let j = sum_list (map (\<lambda>i. succ ! i + lat ! i) [0..<5]);
          check = (\<lambda>name i least. let f = percent (succ ! i + lat ! i) j in (name, f, dbl_ge f least)) in
      [check ''Payment'' 1 43, check ''Order-Status'' 2 4, check ''Delivery'' 3 4,
       check ''Stock-Level'' 4 4])"

definition time_checks :: "int list \<Rightarrow> int list \<Rightarrow> (string \<times> dbl \<times> bool) list" where
  "time_checks succ lat =
     (let check = (\<lambda>name i. let f = percent (succ ! i) (succ ! i + lat ! i) in (name, f, dbl_ge f 90)) in
      [check ''New-Order'' 0, check ''Payment'' 1, check ''Order-Status'' 2, check ''Delivery'' 3,
       check ''Stock-Level'' 4])"

definition tpmc :: "int list \<Rightarrow> int list \<Rightarrow> int \<Rightarrow> int \<Rightarrow> ('st, dbl) cm" where
  "tpmc succ lat measure_time print_interval =
     (if print_interval = 0 then halt DivZero
      else ret (dbl_f32 (dbl_div (f64 (f32 (of_int (succ ! 0 + lat ! 0)) * 60))
        (f32 (of_int ((measure_time sdiv print_interval) * print_interval))))))"

text \<open>The sums of the counters of the threads.\<close>

definition sums2 :: "(tally \<Rightarrow> int list list) \<Rightarrow> tally \<Rightarrow> int list" where
  "sums2 tal c = map (\<lambda>i. sum_list (tal c ! i)) [0..<5]"

record report =
  raw_counts :: "tally \<Rightarrow> int list"
  raw2_counts :: "tally \<Rightarrow> int list"
  mix_part :: "(string \<times> dbl \<times> bool) list"
  time_part :: "(string \<times> dbl \<times> bool) list"
  tpmc_part :: dbl

definition final_report :: "options \<Rightarrow> (('s, 'z) mn_scheme, report) cm" where
  "final_report opts =
     bnd (gets tally1) (\<lambda>tal. bnd (gets tally2) (\<lambda>tal2.
     bnd (tpmc (tal Success) (tal Late) (opt_l opts) (opt_i opts)) (\<lambda>f.
       ret \<lparr>raw_counts = tal, raw2_counts = sums2 tal2, mix_part = mix_checks (tal Success) (tal Late),
            time_part = time_checks (tal Success) (tal Late), tpmc_part = f\<rparr>)))"

section \<open>The main program\<close>

text \<open>Printing the parameters reads the buffers.\<close>

definition print_parameters :: "options \<Rightarrow> ('st, unit) cm" where
  "print_parameters opts =
     thn (buf_string (if is_local opts then socket_buf opts else connect_buf opts))
    (thn (buf_string (db_buf opts))
    (thn (buf_string (user_buf opts))
    (thn (buf_string (password_buf opts)) (ret ()))))"

definition open_files :: "options \<Rightarrow> bool \<Rightarrow> bool \<Rightarrow> (('s, 'z) mn_scheme, unit) cm" where
  "open_files opts report_open trx_open =
     bnd (buf_string (report_buf opts)) (\<lambda>report_name. bnd (buf_string (trx_buf opts)) (\<lambda>trx_name.
       modify (\<lambda>s. s\<lparr>freport_file := if report_name \<noteq> [] \<and> report_open then Some [] else None,
         ftrx_file := trx_name \<noteq> [] \<and> trx_open\<rparr>)))"

text \<open>\<open>malloc\<close> of a negative number of elements fails, which is noticed for the threads.\<close>

definition set_counters :: "options \<Rightarrow> (('s, 'z) mn_scheme, unit) cm" where
  "set_counters opts = (if opt_c opts < 0 then halt (Exit 1)
     else modify (\<lambda>s. s\<lparr>tally2 := \<lambda>_. replicate 5 (replicate (nat (opt_c opts)) 0)\<rparr>))"

text \<open>The options are the global variables that the driver reads.\<close>

definition set_globals :: "options \<Rightarrow> (('s, 'z) mn_scheme, unit) cm" where
  "set_globals opts = modify (\<lambda>s. s\<lparr>num_ware := opt_w opts, num_conn := opt_c opts,
     num_node := 0, num_neword_per_10_sec := opt_n opts, time_count := 0\<rparr>)"

definition set_up :: "options \<Rightarrow> bool \<Rightarrow> bool \<Rightarrow> (('s, 'z) mn_scheme, unit) cm" where
  "set_up opts report_open trx_open =
     thn (open_files opts report_open trx_open)
    (thn (print_parameters opts)
    (thn (set_globals opts)
    (thn (seq_init 10 10 1 1 1) (set_counters opts))))"

definition initialize :: "(('s, 'z) mn_scheme, unit) cm" where
  "initialize = thn hist_init (modify (\<lambda>s. s\<lparr>tally1 := \<lambda>_. replicate 5 0,
     prev_s := replicate 5 0, prev_l := replicate 5 0, max_rt := replicate 5 0\<rparr>))"

definition measuring :: "options \<Rightarrow> (int \<Rightarrow> (('s, 'z) mn_scheme, unit) cm) \<Rightarrow>
    (('s, 'z) mn_scheme, unit) cm" where
  "measuring opts others =
     (if opt_i opts = 0 then halt DivZero
      else cfor [0..(opt_l opts sdiv opt_i opts) - 1] (\<lambda>i. thn (others i) (alarm_handler (opt_i opts))))"

definition start_main :: "'s server \<Rightarrow> (char \<times> string) list \<Rightarrow> bool \<Rightarrow> bool \<Rightarrow>
    (('s, 'z) mn_scheme, unit) cm \<Rightarrow> (int \<Rightarrow> (('s, 'z) mn_scheme, unit) cm) \<Rightarrow>
    (('s, 'z) mn_scheme, unit) cm \<Rightarrow> (('s, 'z) mn_scheme, report) cm" where
  "start_main M results report_open trx_open lampup others join =
     thn initialize
    (bnd (get_options results) (\<lambda>opts.
     thn (set_up opts report_open trx_open)
    (thn (handle (cfor [0..opt_c opts - 1] (\<lambda>i. checked M Sqlerr i Init))
       (\<lambda>e. if e = Goto Sqlerr then thn (emit (Diag ''error at main'' [])) (halt (Exit 1)) else halt e))
    (thn lampup (thn (measuring opts others) (thn join (final_report opts)))))))"


section \<open>Lemmas: the interval report\<close>

lemma hist_ckp_keeps: "keeps (\<lambda>s t. aside s t \<and> prev_s t = prev_s s \<and> prev_l t = prev_l s \<and>
    intervals t = intervals s) (hist_ckp i :: (('s, 'z) mn_scheme, rat) cm)"
  by (rule keepsI) (auto simp: hist_ckp_def Let_def aside_def run_simps)

text \<open>What taking the counts leaves alone.\<close>

definition ckp_frame :: "('s, 'z) mn_scheme \<Rightarrow> ('s, 'z) mn_scheme \<Rightarrow> bool" where
  "ckp_frame s t \<longleftrightarrow> tally1 t = tally1 s \<and> time_count t = time_count s \<and> prev_s t = prev_s s \<and>
     prev_l t = prev_l s \<and> intervals t = intervals s \<and> cur_max_rt t = cur_max_rt s"

lemma hist_ckp_frame: "keeps ckp_frame (hist_ckp i)"
  by (rule keepsI) (auto simp: hist_ckp_def Let_def ckp_frame_def run_simps)

lemma take_count_run:
  assumes "take_count i (a, b, c) s = (Inr r, t)"
  shows "ckp_frame s t \<and>
    (\<exists>x. r = (a @ [tally1 s Success ! nat i], b @ [tally1 s Late ! nat i], c @ [x]))"
  using assms by (auto simp: take_count_def bnd_ok rd_ok dest!: keepsD [OF hist_ckp_frame])

lemma take_loop_run:
  assumes "cfold js take_count (a, b, c) s = (Inr (sc, lt, rt90), t)"
  shows "sc = a @ map (\<lambda>i. tally1 s Success ! nat i) js \<and>
    lt = b @ map (\<lambda>i. tally1 s Late ! nat i) js \<and> length rt90 = length c + length js \<and>
    ckp_frame s t"
  using assms
proof (induction js arbitrary: a b c s)
  case Nil
  then show ?case by (simp add: ckp_frame_def)
next
  case (Cons i js)
  then obtain r u where u: "take_count i (a, b, c) s = (Inr r, u)"
    and rest: "cfold js take_count r u = (Inr (sc, lt, rt90), t)"
    by (auto simp: bnd_ok)
  from take_count_run [OF u] obtain x
    where r: "r = (a @ [tally1 s Success ! nat i], b @ [tally1 s Late ! nat i], c @ [x])"
      and f: "ckp_frame s u" by blast
  from f have eqs: "tally1 u = tally1 s" by (simp add: ckp_frame_def)
  from Cons.IH [OF rest [unfolded r]] have "ckp_frame u t" by blast
  with f have "ckp_frame s t" by (simp add: ckp_frame_def)
  with Cons.IH [OF rest [unfolded r]] show ?case by (simp add: eqs)
qed

lemma take_counts_run:
  assumes "take_counts s = (Inr (sc, lt, rt90), t)"
  shows "sc = map ((!) (tally1 s Success)) [0..<5] \<and> lt = map ((!) (tally1 s Late)) [0..<5] \<and>
    ckp_frame s t"
proof -
  have "[0..4::int] = map int [0..<5]" using upto_map_int [of 5] by simp
  with take_loop_run [OF assms [unfolded take_counts_def]] show ?thesis by (simp add: comp_def)
qed

lemma alarm_run:
  assumes "alarm_handler p s = (Inr (), t)"
  shows "tally1 t = tally1 s \<and> time_count t = time_count s + p \<and>
    prev_s t = map ((!) (tally1 s Success)) [0..<5] \<and> prev_l t = map ((!) (tally1 s Late)) [0..<5] \<and>
    (\<exists>rt90. intervals t = intervals s @ [(time_count s + p,
       interval_line (prev_s t) (prev_l t) rt90 (cur_max_rt s) (prev_s s) (prev_l s))])"
proof -
  from assms obtain sc lt rt90 u where u: "take_counts s = (Inr (sc, lt, rt90), u)"
    and t: "t = u\<lparr>time_count := time_count u + p, intervals := intervals u @ [(time_count u + p,
      interval_line sc lt rt90 (cur_max_rt u) (prev_s u) (prev_l u))],
      prev_s := sc, prev_l := lt, cur_max_rt := replicate 5 0\<rparr>"
    by (auto simp: alarm_handler_def bnd_ok)
  from take_counts_run [OF u] show ?thesis unfolding t ckp_frame_def by auto
qed

text \<open>The sums of a column over the lines printed.\<close>

definition printed :: "nat \<Rightarrow> ('s, 'z) mn_scheme \<Rightarrow> int" where
  "printed k s = (\<Sum>(_, line)\<leftarrow>intervals s. fst (line ! k))"

definition printed_late :: "nat \<Rightarrow> ('s, 'z) mn_scheme \<Rightarrow> int" where
  "printed_late k s = (\<Sum>(_, line)\<leftarrow>intervals s. fst (snd (line ! k)))"

text \<open>After \<open>n\<close> intervals the lines printed add up to the last counts taken.\<close>

definition lines_add_up :: "int \<Rightarrow> int \<Rightarrow> nat \<Rightarrow> ('s, 'z) mn_scheme \<Rightarrow> bool" where
  "lines_add_up t0 p n s \<longleftrightarrow> time_count s = t0 + p * int n \<and>
     map fst (intervals s) = map (\<lambda>j. t0 + p * int (Suc j)) [0..<n] \<and>
     (\<forall>k<5. printed k s = prev_s s ! k + prev_l s ! k \<and> printed_late k s = prev_l s ! k)"

lemma alarm_adds_up:
  assumes "alarm_handler p s = (Inr (), t)" and inv: "lines_add_up t0 p n s"
  shows "lines_add_up t0 p (Suc n) t"
proof -
  from alarm_run [OF assms(1)] obtain rt90 where
    t: "time_count t = time_count s + p" and
    pr: "intervals t = intervals s @ [(time_count s + p,
       interval_line (prev_s t) (prev_l t) rt90 (cur_max_rt s) (prev_s s) (prev_l s))]" by blast
  from inv have ts: "time_count s = t0 + p * int n" by (simp add: lines_add_up_def)
  have "printed k t = prev_s t ! k + prev_l t ! k \<and> printed_late k t = prev_l t ! k" if "k < 5" for k
    using inv that
    by (simp add: lines_add_up_def printed_def printed_late_def pr interval_line_def)
  with inv show ?thesis
    by (simp add: lines_add_up_def pr t ts distrib_left)
qed

text \<open>The rounds of the driver that the threads run meanwhile leave the report alone.\<close>

lemma mn_more:
  fixes s t :: "('s, 'z) mn_scheme"
  assumes "drv.more t = drv.more s"
  shows "prev_s t = prev_s s \<and> prev_l t = prev_l s \<and> intervals t = intervals s"
  using assms by (cases s, cases t) simp

lemma rounds_keep_lines:
  fixes s t :: "('s, 'z) mn_scheme"
  assumes "cfor ts (drive_once M fuel) s = (Inr u, t)" and "lines_add_up t0 p n s"
  shows "lines_add_up t0 p n t"
proof -
  have "keeps (\<lambda>s t :: ('s, 'z) mn_scheme. time_count t = time_count s \<and> drv.more t = drv.more s)
      (cfor ts (drive_once M fuel))"
    by (intro mdr.cfor_keeps mdr.drive_once_R)
  from keepsD [OF this assms(1)] have "time_count t = time_count s \<and> prev_s t = prev_s s \<and>
      prev_l t = prev_l s \<and> intervals t = intervals s"
    using mn_more [of t s] by blast
  with assms(2) show ?thesis by (simp add: lines_add_up_def printed_def printed_late_def)
qed

section \<open>The interval report accounts for every transaction counted\<close>

text \<open>
  Property C10. The interval lines of a run of at least one interval: their times are the multiples
  of the interval, and for each transaction the numbers printed add up to the counters as the
  last line found them, whichever rounds of whichever threads run between the lines.
\<close>

theorem intervals_account:
  fixes s t :: "('s, 'z) mn_scheme"
  assumes "measuring opts (\<lambda>i. cfor (sched i) (drive_once M fuel)) s = (Inr (), t)"
    and "intervals s = []" and "prev_s s = replicate 5 0" and "prev_l s = replicate 5 0"
    and "0 < opt_i opts" and "opt_i opts \<le> opt_l opts"
  shows "map fst (intervals t) = map (\<lambda>j. time_count s + opt_i opts * int (Suc j))
      [0..<nat (opt_l opts div opt_i opts)] \<and>
    (\<forall>k<5. printed k t = tally1 t Success ! k + tally1 t Late ! k \<and>
      printed_late k t = tally1 t Late ! k)"
proof -
  let ?p = "opt_i opts" and ?n = "nat (opt_l opts div opt_i opts)"
  let ?I = "\<lambda>n (s' :: ('s, 'z) mn_scheme). lines_add_up (time_count s) ?p n s' \<and> (0 < n \<longrightarrow>
    prev_s s' = map ((!) (tally1 s' Success)) [0..<5] \<and> prev_l s' = map ((!) (tally1 s' Late)) [0..<5])"
  have "opt_l opts sdiv ?p = opt_l opts div ?p" using assms(5,6) by (simp add: signed_divide_int_def)
  with assms(1,5) have run: "cfor [0..opt_l opts div ?p - 1] (\<lambda>i. thn (cfor (sched i) (drive_once M fuel))
      (alarm_handler ?p)) s = (Inr (), t)"
    by (simp add: measuring_def)
  have start: "?I 0 s" using assms(2-4) by (simp add: lines_add_up_def printed_def printed_late_def)
  have step: "?I (Suc n) v" if run: "thn (cfor (sched i) (drive_once M fuel)) (alarm_handler ?p) u = (Inr (), v)"
    and inv: "?I n u" for i n u v
  proof -
    from run obtain w where w: "cfor (sched i) (drive_once M fuel) u = (Inr (), w)"
      and v: "alarm_handler ?p w = (Inr (), v)" by (auto simp: thn_ok)
    from rounds_keep_lines [OF w] inv have "lines_add_up (time_count s) ?p n w" by blast
    from alarm_adds_up [OF v this] alarm_run [OF v] show ?thesis by auto
  qed
  from cfor_counting [where I = ?I, OF run start step]
  have "?I (0 + length [0..opt_l opts div ?p - 1]) t" .
  moreover have "0 < ?n" using assms(5,6) by (simp add: pos_imp_zdiv_pos_iff)
  ultimately show ?thesis by (auto simp: lines_add_up_def)
qed

text \<open>The handler of the timer does its work in every state that \<open>initialize\<close> sets up.\<close>

definition alarm_ready :: "('s, 'z) mn_scheme \<Rightarrow> bool" where
  "alarm_ready s \<longleftrightarrow> hist_ok s \<and> (\<forall>c. length (tally1 s c) = 5)"

lemma hist_ckp_ready:
  fixes s :: "('s, 'z) mn_scheme"
  assumes "alarm_ready s" and "0 \<le> tr" and "tr < 5"
  shows "\<exists>r t. hist_ckp tr s = (Inr r, t) \<and> alarm_ready t"
proof -
  have ok: "hist_ok s" using assms(1) by (simp add: alarm_ready_def)
  note run = hist_ckp_run [OF ok assms(2,3)]
  have tr: "nat tr < 5" using assms(2,3) by linarith
  then have rows: "length (total_hist s ! nat tr) = buckets" "length (cur_hist s ! nat tr) = buckets"
    using ok by (auto simp: hist_ok_def)
  have "alarm_ready (snd (hist_ckp tr s))"
    unfolding run using assms(1) rows
    by (auto simp: alarm_ready_def hist_ok_def dest!: set_update_subset_insert [THEN subsetD])
  with run show ?thesis by (metis snd_conv)
qed

lemma take_counts_returns:
  "returns alarm_ready (take_counts :: (('s, 'z) mn_scheme, _) cm) (\<lambda>_. alarm_ready)"
proof -
  have step: "returns alarm_ready (take_count i acc :: (('s, 'z) mn_scheme, _) cm) (\<lambda>_. alarm_ready)"
    if i: "0 \<le> i" "i < 5" for i acc
  proof (rule returnsI)
    fix s :: "('s, 'z) mn_scheme"
    assume s: "alarm_ready s"
    obtain a b c where acc: "acc = (a, b, c)" by (cases acc)
    obtain r t where "hist_ckp i s = (Inr r, t)" "alarm_ready t"
      using hist_ckp_ready [OF s i] by blast
    with s i show "\<exists>x t. take_count i acc s = (Inr x, t) \<and> alarm_ready t"
      by (simp add: acc take_count_def run_simps alarm_ready_def)
  qed
  have "returns alarm_ready (cfold js take_count acc :: (('s, 'z) mn_scheme, _) cm) (\<lambda>_. alarm_ready)"
    if "\<forall>i\<in>set js. 0 \<le> i \<and> i < 5" for js acc
    using that by (induction js arbitrary: acc) (auto intro!: returns_ret returns_bnd [OF step])
  then show ?thesis unfolding take_counts_def by simp
qed

lemma alarm_returns:
  "returns alarm_ready (alarm_handler p :: (('s, 'z) mn_scheme, unit) cm) (\<lambda>_. alarm_ready)"
  unfolding alarm_handler_def case_prod_beta
  by (intro returns_bnd [OF take_counts_returns] returns_modify) (simp add: alarm_ready_def hist_ok_def)

definition example_options :: options where
  "example_options = default_options\<lparr>opt_w := 2\<rparr>"

definition example_mn :: "nat mn" where
  "example_mn = drv.extend example_drv
     \<lparr>prev_s = replicate 5 0, prev_l = replicate 5 0, intervals = []\<rparr>"

lemma example_mn_simps [simp]: "prev_s example_mn = replicate 5 0" "prev_l example_mn = replicate 5 0"
  "intervals example_mn = []"
  by (simp_all add: example_mn_def drv.defs)

lemma example_mn_time [simp]: "time_count example_mn = 0"
  using example_drv_simps by (simp add: example_mn_def drv.defs)

lemma example_mn_ready: "alarm_ready example_mn"
  using example_hist_part by (simp add: alarm_ready_def hist_ok_def example_mn_def drv.defs)

text \<open>The same with a Delivery as the next transaction of the sequence.\<close>

definition delivery_next :: "nat mn" where
  "delivery_next = example_mn\<lparr>seq_arr := [3], seq_total := 1, seq_next := 0\<rparr>"

lemma delivery_next_simps [simp]: "num_ware delivery_next = 1" "num_node delivery_next = 0"
  "num_conn delivery_next = 4" "clocks delivery_next = sconst (0, 0)"
  "stamps delivery_next = sconst (Some ''2014-11-01 00:00:00'')" "counting_on delivery_next = always_on"
  "tally1 delivery_next = (\<lambda>_. replicate 5 0)" "rate_last_transactions delivery_next = 0"
  "num_neword_per_10_sec delivery_next = 100" "tods delivery_next = sconst (1400000010, 0)"
  "rate_last_seconds delivery_next = 1400000000" "seq_next delivery_next = 0" "seq_total delivery_next = 1"
  "seq_arr delivery_next = [3]"
  by (simp_all add: delivery_next_def example_mn_def drv.defs)

text \<open>Thread 1 runs a round in the first interval and none in the second.\<close>

theorem intervals_account_witness:
  "\<exists>t. measuring example_options (\<lambda>i. cfor (if i = 0 then [1] else []) (drive_once calm_server 1)) delivery_next = (Inr (), t) \<and>
    map fst (intervals t) = [10, 20] \<and> printed 3 t = 1 \<and> printed 0 t = 0"
proof -
  let ?sched = "\<lambda>i :: int. if i = 0 then [1 :: int] else []"
  have opts: "opt_i example_options = 10" "opt_l example_options = 20"
    by (simp_all add: example_options_def default_options_def)
  have start: "alarm_ready delivery_next" using example_mn_ready by (simp add: delivery_next_def alarm_ready_def hist_ok_def)
  obtain u where u: "drive_once calm_server (Suc 0) 1 delivery_next = (Inr (), u)" "hist_ok u"
    "tally1 u = (\<lambda>_. replicate 5 0)(Success := (replicate 5 0)[3 := 1])"
    using calm_round [of delivery_next 1 "''2014-11-01 00:00:00''" 1400000010 0] start example_reading
    by (auto simp: alarm_ready_def)
  then have ready: "alarm_ready u" by (simp add: alarm_ready_def)
  obtain v where v: "alarm_handler 10 u = (Inr (), v)" "alarm_ready v"
    using returnsD [OF alarm_returns [of 10] ready] by auto
  obtain t where t: "alarm_handler 10 v = (Inr (), t)" using returnsD [OF alarm_returns [of 10] v(2)] by auto
  have run: "measuring example_options (\<lambda>i. cfor (?sched i) (drive_once calm_server 1)) delivery_next = (Inr (), t)"
    using u(1) v(1) t by (simp add: measuring_def opts upto.simps thn_def bnd_def ret_eq)
  have "tally1 t = (\<lambda>_. replicate 5 0)(Success := (replicate 5 0)[3 := 1])"
    using alarm_run [OF v(1)] alarm_run [OF t] u(3) by simp
  with intervals_account [OF run] run show ?thesis
    by (auto simp: opts numeral_eq_Suc delivery_next_def)
qed

section \<open>Lemmas: percentages\<close>

lemma dbl_f32_div:
  assumes "0 < y"
  shows "dbl_f32 (dbl_div x y) = Fin (f32 (f64 (x / y)))"
  using assms by (simp add: dbl_f32_def dbl_div_def)

text \<open>
  The two roundings of a percentage do not cross an integer, as long as the whole is less than
  \<open>2 ^ 18\<close>: the next smaller quotient is further away than half a unit in the last place.
\<close>

lemma rounded_below:
  fixes m :: int
  assumes "0 < x" and "x \<le> of_int m - 1 / 262143" and "m \<le> 100"
  shows "f32 (f64 x) < of_int m"
proof -
  have "of_int m \<le> (100 :: rat)" using assms(3) by simp
  then have x: "x < 2 powi (6 + 1)" and x1: "x < 101" using assms(2) by simp_all
  have 1: "\<bar>f64 x - x\<bar> \<le> 2 powi (6 - 52) / 2"
    using fl_error [OF assms(1) x, of 53] by (simp add: f64_def)
  have small: "(2 :: rat) powi (6 - 52) = 1 / 70368744177664" "(2 :: rat) powi (6 - 23) = 1 / 131072"
    by (simp_all add: power_int_def power_divide)
  have "\<bar>f64 x - x\<bar> \<le> 1" using 1 unfolding small by linarith
  with x1 have x': "f64 x < 2 powi (6 + 1)" by (simp add: abs_le_iff)
  have "\<bar>f32 (f64 x) - f64 x\<bar> \<le> 2 powi (6 - 23) / 2"
    using fl_error [OF f64_pos [OF assms(1)] x', of 24] by (simp add: f32_def)
  moreover have "(1 :: rat) / 70368744177664 / 2 + 1 / 131072 / 2 < 1 / 262143" by simp
  ultimately show ?thesis using 1 assms(2) unfolding small by linarith
qed

lemma rounded_above:
  assumes "0 < m" and "of_int m \<le> x" and "m \<le> 100"
  shows "of_int m \<le> f32 (f64 x)"
proof -
  have "of_int m \<le> f64 x" unfolding f64_def by (rule fl_ge_int [OF assms(1,2)]) (use assms(3) in simp_all)
  then show ?thesis unfolding f32_def by (rule fl_ge_int [OF assms(1)]) (use assms(3) in simp_all)
qed

lemma percent_exact:
  assumes "0 \<le> a" and "a \<le> b" and "b < 262144" and "0 < m" and "m \<le> 100"
  shows "dbl_ge (percent a b) (of_int m) \<longleftrightarrow> 0 < b \<and> m * b \<le> 100 * a"
proof (cases "b = 0")
  case True
  with assms(1,2) show ?thesis by (simp add: percent_def dbl_div_def dbl_f32_def dbl_ge_def)
next
  case False
  with assms have b: "0 < b" by simp
  have "f64 (100 * f32 (of_int a)) = of_int (100 * a)"
    using assms f64_of_int [of "100 * a"] by (simp add: f32_of_int)
  with b assms(3) have p: "percent a b = Fin (f32 (f64 (of_int (100 * a) / of_int b)))"
    by (simp add: percent_def dbl_f32_div f32_of_int)
  let ?x = "of_int (100 * a) / of_int b :: rat"
  show ?thesis
  proof (cases "m * b \<le> 100 * a")
    case True
    then have "(of_int (m * b) :: rat) \<le> of_int (100 * a)" by (simp only: of_int_le_iff)
    then have "of_int m \<le> ?x" using b by (simp add: le_divide_eq)
    from rounded_above [OF assms(4) this assms(5)] True b show ?thesis by (simp add: p dbl_ge_def)
  next
    case no: False
    then have less: "100 * a + 1 \<le> m * b" by simp
    show ?thesis
    proof (cases "a = 0")
      case True
      then have "percent a b = Fin 0" unfolding p by simp
      with no True assms(4) show ?thesis by (simp add: dbl_ge_def)
    next
      case False
      with assms(1) b have "0 < ?x" by simp
      moreover have "?x \<le> of_int m - 1 / 262143"
      proof -
        have "(of_int (100 * a + 1) :: rat) \<le> of_int (m * b)" using less by (simp only: of_int_le_iff)
        then have "?x + 1 / of_int b \<le> of_int m"
          using b by (simp add: divide_le_eq add_divide_distrib [symmetric])
        moreover have "of_int b \<le> (262143 :: rat)" using assms(3) by simp
        then have "1 / 262143 \<le> (1 / of_int b :: rat)" using b by (intro divide_left_mono) simp_all
        ultimately show ?thesis by linarith
      qed
      ultimately have "f32 (f64 ?x) < of_int m" by (rule rounded_below [OF _ _ assms(5)])
      with no show ?thesis by (simp add: p dbl_ge_def)
    qed
  qed
qed

lemma sum_of_five:
  fixes n :: "nat \<Rightarrow> int"
  assumes "\<And>i. i < 5 \<Longrightarrow> 0 \<le> n i" and "k < 5"
  shows "0 \<le> n k \<and> n k \<le> sum_list (map n [0..<5])"
  using assms by (auto intro!: member_le_sum_list)

section \<open>The checks of the final report\<close>

text \<open>
  Property C20. The checks of the final report, computed in \<open>float\<close>, are those of the exact numbers
  as long as fewer than \<open>2 ^ 18\<close> transactions were counted: a percentage is \<^verbatim>\<open>[OK]\<close> exactly when
  the part is the required share of the whole, and never when nothing was counted.
\<close>

theorem report_checks_exact:
  fixes succ lat :: "int list"
  defines "n \<equiv> \<lambda>i. succ ! i + lat ! i"
  defines "j \<equiv> sum_list (map n [0..<5])"
  assumes "\<forall>i<5. 0 \<le> succ ! i \<and> 0 \<le> lat ! i" and "j < 262144"
  shows "map (\<lambda>(name, f, ok). (name, ok)) (mix_checks succ lat) =
      map (\<lambda>(name, i, least). (name, 0 < j \<and> least * j \<le> 100 * n i))
        [(''Payment'', 1, 43), (''Order-Status'', 2, 4), (''Delivery'', 3, 4), (''Stock-Level'', 4, 4)] \<and>
    map (\<lambda>(name, f, ok). (name, ok)) (time_checks succ lat) =
      map (\<lambda>(name, i). (name, 0 < n i \<and> 90 * n i \<le> 100 * succ ! i))
        [(''New-Order'', 0), (''Payment'', 1), (''Order-Status'', 2), (''Delivery'', 3), (''Stock-Level'', 4)]"
proof -
  have n: "0 \<le> n k \<and> n k \<le> j" if "k < 5" for k
    unfolding j_def by (rule sum_of_five [OF _ that]) (use assms(3) in \<open>simp add: n_def\<close>)
  have m: "dbl_ge (percent (n k) j) (of_int m) \<longleftrightarrow> 0 < j \<and> m * j \<le> 100 * n k"
    if "k < 5" "0 < m" "m \<le> 100" for k m
    by (rule percent_exact) (use n [OF that(1)] that assms(4) in auto)
  have s: "dbl_ge (percent (succ ! k) (n k)) (of_int 90) \<longleftrightarrow> 0 < n k \<and> 90 * n k \<le> 100 * succ ! k"
    if "k < 5" for k
    by (rule percent_exact) (use n [OF that] that assms(3,4) in \<open>auto simp: n_def\<close>)
  have n_eq: "succ ! i + lat ! i = n i" for i by (simp add: n_def)
  have "map (\<lambda>(name, f, ok). (name, ok)) (mix_checks succ lat) =
      map (\<lambda>(name, i, least). (name, 0 < j \<and> least * j \<le> 100 * n i))
        [(''Payment'', 1, 43), (''Order-Status'', 2, 4), (''Delivery'', 3, 4), (''Stock-Level'', 4, 4)]"
    using m [of 1 43] m [of 2 4] m [of 3 4] m [of 4 4]
    by (simp add: mix_checks_def Let_def n_eq j_def [symmetric])
  moreover have "map (\<lambda>(name, f, ok). (name, ok)) (time_checks succ lat) =
      map (\<lambda>(name, i). (name, 0 < n i \<and> 90 * n i \<le> 100 * succ ! i))
        [(''New-Order'', 0), (''Payment'', 1), (''Order-Status'', 2), (''Delivery'', 3), (''Stock-Level'', 4)]"
    using s [of 0] s [of 1] s [of 2] s [of 3] s [of 4]
    by (simp add: time_checks_def Let_def n_eq)
  ultimately show ?thesis ..
qed

text \<open>Twenty complete rounds of the mix, with a tenth of the New-Orders late.\<close>

theorem report_checks_exact_witness:
  "map (\<lambda>(name, f, ok). (name, ok)) (mix_checks [180, 200, 20, 20, 20] [20, 0, 0, 0, 0]) =
     [(''Payment'', True), (''Order-Status'', True), (''Delivery'', True), (''Stock-Level'', True)] \<and>
   map (\<lambda>(name, f, ok). (name, ok)) (time_checks [180, 200, 20, 20, 20] [20, 0, 0, 0, 0]) =
     [(''New-Order'', True), (''Payment'', True), (''Order-Status'', True), (''Delivery'', True),
      (''Stock-Level'', True)]"
  using report_checks_exact [of "[180, 200, 20, 20, 20]" "[20, 0, 0, 0, 0]"]
  by (simp add: less_Suc_eq numeral_eq_Suc upt_rec)

section \<open>Options that do not fit\<close>

lemma fill_buf_string:
  "CHR 0x00 \<notin> set arg \<Longrightarrow> buf_string (fill_buf arg) =
     (if length arg < BUF_MAX then ret arg else halt OutOfBounds)"
  by (auto simp: buf_string_def fill_buf_def strncpy_bytes_def cstr_def takeWhile_append
      dest: in_set_takeD intro: takeWhile_eq_all_conv [THEN iffD2])

lemma long_not_local:
  "CHR 0x00 \<notin> set arg \<Longrightarrow> BUF_MAX \<le> length arg \<Longrightarrow> cstr (fill_buf arg) \<noteq> ''localhost''"
proof
  assume a: "CHR 0x00 \<notin> set arg" "BUF_MAX \<le> length arg" and l: "cstr (fill_buf arg) = ''localhost''"
  from a have "cstr (fill_buf arg) = take BUF_MAX arg"
    by (auto simp: cstr_def fill_buf_def strncpy_bytes_def dest: in_set_takeD
        intro!: takeWhile_eq_all_conv [THEN iffD2])
  with l have "length (take BUF_MAX arg) = 9" by simp
  with a(2) show False by (simp add: BUF_MAX_def)
qed

lemma set_up_ends:
  fixes s :: "('s, 'z) mn_scheme"
  shows "fst (thn (seq_init 10 10 1 1 1) (modify g) s) \<noteq> Inl OutOfBounds"
proof -
  obtain t where "seq_init 10 10 1 1 1 s = (Inr (), t)"
    using seq_init_returns [of 10 10 1 1 1 s] by auto
  then show ?thesis by (simp add: thn_def bnd_def)
qed

text \<open>
  The options with a string are copied without a check of their length: the program
  reads past the end of a buffer before it connects exactly when the argument of one of them has
  at least 128 bytes. Such an argument fills its buffer without a terminating NUL.
\<close>

theorem long_option_overruns:
  assumes "CHR 0x00 \<notin> set arg" and "c \<in> set ''hdupft''"
  shows "fst (bnd (get_options [(c, arg)]) (\<lambda>opts. set_up opts report_open trx_open)
    (s :: ('s, 'z) mn_scheme)) = Inl OutOfBounds \<longleftrightarrow> 128 \<le> length arg"
proof -
  have step: "thn (\<lambda>x. (Inr (), f x)) k u = k (f u)" for f :: "('s, 'z) mn_scheme \<Rightarrow> ('s, 'z) mn_scheme"
    and k :: "(('s, 'z) mn_scheme, unit) cm" and u by (simp add: thn_def bnd_def)
  have stop: "thn (Pair (Inl e)) k u = (Inl e, u)" for e and u :: "('s, 'z) mn_scheme"
    and k :: "(('s, 'z) mn_scheme, unit) cm" by (simp add: thn_def bnd_def)
  have local0: "cstr (fill_buf []) \<noteq> ''localhost''"
    by (simp add: fill_buf_def strncpy_bytes_def cstr_def BUF_MAX_def)
  have big: "128 \<le> length arg \<longleftrightarrow> \<not> length arg < BUF_MAX" by (simp add: BUF_MAX_def not_less)
  note buf = fill_buf_string [OF assms(1)] fill_buf_string [of "[]"] fill_buf_string [of "''tpcc''"]
  note parts = get_options_def set_option_def set_up_def print_parameters_def is_local_def
    default_options_def open_files_def set_globals_def set_counters_def
  from assms(2) consider "c = CHR ''h''" | "c = CHR ''d''" | "c = CHR ''u''" | "c = CHR ''p''"
    | "c = CHR ''f''" | "c = CHR ''t''" by auto
  then show ?thesis
  proof cases
    case 1
    then show ?thesis
      using long_not_local [OF assms(1)] local0
      by (cases "length arg < BUF_MAX") (simp_all add: parts big buf set_up_ends BUF_MAX_def halt_eq step stop)
  qed (use local0 in \<open>simp_all add: parts big buf set_up_ends BUF_MAX_def halt_eq step stop\<close>)
qed

theorem long_option_overruns_witness:
  "fst (bnd (get_options [(CHR ''h'', replicate 128 (CHR ''x''))]) (\<lambda>opts. set_up opts True True)
     example_mn) = Inl OutOfBounds"
  using long_option_overruns [of "replicate 128 (CHR ''x'')" "CHR ''h''" True True example_mn] by simp

end
