(* ===== verification/Statements.thy ===== *)
theory Statements
  imports Start
begin

text \<open>
  The prepared statements of \<^verbatim>\<open>main.c\<close> against the transactions that use them: the number of
  parameters that a transaction binds to a statement is the number of markers in its text, and
  the number of result buffers is the number of columns that it selects. The client library
  takes both numbers from the text: with fewer, it reads past the array of \<open>MYSQL_BIND\<close>.
\<close>

section \<open>What the text of a statement asks for\<close>

definition markers :: "string \<Rightarrow> nat" where
  "markers text = length (filter (\<lambda>c. c = CHR ''?'') text)"

text \<open>
  The columns of a SELECT: the commas outside parentheses before \<open>FROM\<close>, and one more.
\<close>

fun commas :: "nat \<Rightarrow> string \<Rightarrow> nat" where
  "commas depth [] = 0"
| "commas depth (c # cs) =
     (if depth = 0 \<and> take 6 (c # cs) = '' FROM '' then 0
      else if c = CHR ''('' then commas (depth + 1) cs
      else if c = CHR '')'' then commas (depth - 1) cs
      else (if c = CHR '','' \<and> depth = 0 then 1 else 0) + commas depth cs)"

definition columns :: "string \<Rightarrow> nat" where
  "columns text = (if take 7 text = ''SELECT '' then Suc (commas 0 text) else 0)"

text \<open>A call that fits the statement it names.\<close>

fun fits :: "event \<Rightarrow> bool" where
  "fits (Call t (BindParam k ps) rc r) \<longleftrightarrow>
     k < length start_sql \<and> length ps = markers (fst (start_sql ! k))"
| "fits (Call t (BindResult k cols) rc r) \<longleftrightarrow>
     k < length start_sql \<and> length cols = columns (fst (start_sql ! k))"
| "fits (Call t (Execute k) rc r) \<longleftrightarrow> k < length start_sql"
| "fits (Call t (Prepare k text len) rc r) \<longleftrightarrow>
     k < length start_sql \<and> (text, len) = start_sql ! k \<and> len = length text"
| "fits ev \<longleftrightarrow> True"

section \<open>Lemmas\<close>

lemma start_sql_markers: "map (\<lambda>(text, len). markers text) start_sql =
  [3, 2, 3, 7, 3, 1, 2, 3, 9, 2, 1, 3, 2, 3, 3, 3, 3, 5, 4, 8, 3, 3, 3, 6, 3, 2, 3, 3, 4, 4, 3, 4, 2,
   4, 3]"
  by code_simp

lemma start_sql_columns: "map (\<lambda>(text, len). columns text) start_sql =
  [4, 2, 0, 0, 0, 3, 12, 0, 0, 0, 6, 0, 6, 1, 1, 14, 1, 0, 0, 0, 1, 4, 4, 3, 5, 1, 0, 1, 0, 0, 1, 0,
   1, 1, 1]"
  by code_simp

lemma start_sql_lengths: "list_all (\<lambda>(text, len). len = length text) start_sql"
  by code_simp

lemma start_sql_length: "length start_sql = 35"
  by (simp add: start_sql_def)

text \<open>The two tables, read by the number of a statement.\<close>

lemma fits_calls:
  assumes "k < 35"
  shows "fits (Call t (BindParam k ps) rc r) \<longleftrightarrow>
      length ps = map (\<lambda>(text, len). markers text) start_sql ! k"
    and "fits (Call t (BindResult k cols) rc r) \<longleftrightarrow>
      length cols = map (\<lambda>(text, len). columns text) start_sql ! k"
    and "fits (Call t (Execute k) rc r)"
  using assms by (simp_all add: start_sql_length case_prod_beta)

text \<open>Nothing but the log grows, by events with a property.\<close>

definition extends :: "(event \<Rightarrow> bool) \<Rightarrow> ('s, 'z) db_scheme \<Rightarrow> ('s, 'z) db_scheme \<Rightarrow> bool" where
  "extends Q s t \<longleftrightarrow> (\<exists>es. log t = log s @ es \<and> list_all Q es)"

interpretation ext: state_relation "extends Q" for Q
proof
  show "extends Q s s" for s :: "('a, 'b) db_scheme"
    by (auto simp: extends_def)
  show "extends Q s u" if "extends Q s t" "extends Q t u" for s t u :: "('a, 'b) db_scheme"
    using that by (force simp: extends_def)
qed

lemma extends_same: "log t = log s \<Longrightarrow> extends Q s t"
  by (simp add: extends_def)

lemma quiet_extends [keeps_intros]:
  "keeps (extends Q) (set_proceed n)" "keeps (extends Q) clock_gettime"
  "keeps (extends Q) (gettimestamp :: (('s, 'z) db_scheme, string) cm)"
  by (auto simp: keeps_def set_proceed_def clock_gettime_def gettimestamp_def extends_same
      split: option.split)

lemma emit_extends: "Q ev \<Longrightarrow> keeps (extends Q) (emit ev)"
  by (simp add: keeps_def emit_def extends_def)

lemma sql_extends: "(\<And>rc r. Q (Call t_num c rc r)) \<Longrightarrow> keeps (extends Q) (sql M t_num c)"
  by (simp add: keeps_def sql_def extends_def split: prod.split)

abbreviation fitting :: "(('s, 'z) db_scheme, 'a) cm \<Rightarrow> bool" where
  "fitting \<equiv> keeps (extends fits)"

lemma checked_fitting: "(\<And>rc r. fits (Call t_num c rc r)) \<Longrightarrow> fitting (checked M err t_num c)"
  unfolding checked_def case_prod_beta by (intro ext.bnd_keeps ext.if_keeps ext.halt_keeps
      ext.ret_keeps sql_extends)

lemma emit_fitting [keeps_intros]: "fitting (emit (Diag str xs))" "fitting (emit (MysqlError n))"
  "fitting (emit (Trx n a b))"
  by (simp_all add: emit_extends)

lemma sql_exec_fitting:
  "k < 35 \<Longrightarrow> length ps = map (\<lambda>(text, len). markers text) start_sql ! k \<Longrightarrow>
   fitting (sql_exec M err t_num k ps)"
  unfolding sql_exec_def
  by (intro ext.thn_keeps checked_fitting) (simp_all only: fits_calls)

lemma open_result_fitting:
  "k < 35 \<Longrightarrow> length cols = map (\<lambda>(text, len). columns text) start_sql ! k \<Longrightarrow>
   fitting (open_result M err t_num k cols)"
  unfolding open_result_def
  by (intro ext.thn_keeps checked_fitting) (simp_all add: start_sql_length case_prod_beta)

lemma free_result_fitting [keeps_intros]: "fitting (free_result M t_num k)"
  unfolding free_result_def by (intro ext.bnd_keeps ext.ret_keeps sql_extends) simp

lemma fetch_row_fitting [keeps_intros]: "fitting (fetch_row M lbl t_num k oks)"
  unfolding fetch_row_def case_prod_beta
  by (intro keeps_intros sql_extends) simp

lemma query1_fitting:
  "k < 35 \<Longrightarrow> length ps = map (\<lambda>(text, len). markers text) start_sql ! k \<Longrightarrow>
   length cols = map (\<lambda>(text, len). columns text) start_sql ! k \<Longrightarrow>
   fitting (query1 M err t_num k ps cols oks)"
  unfolding query1_def by (intro keeps_intros sql_exec_fitting open_result_fitting)

lemma commit_fitting [keeps_intros]:
  "fitting (checked M err t_num Commit)" "fitting (sql M t_num Rollback)" "fitting (sql M t_num Close)"
  by (auto intro!: checked_fitting sql_extends)

lemma sqlerr_fitting [keeps_intros]: "fitting (sqlerr M fn t_num)" "fitting (error t_num)"
  unfolding sqlerr_def error_def by (intro keeps_intros)+

lemmas fitting_intros = keeps_intros sql_exec_fitting open_result_fitting query1_fitting

lemma neword_fitting: "fitting (neword M t_num w_id d_id c_id o_ol_cnt o_all_local its sws qs)"
  unfolding neword_def neword_body_def neword_parts case_prod_beta trx_line_def
  by (intro fitting_intros) (simp_all add: start_sql_markers start_sql_columns)

lemma payment_fitting:
  "fitting (payment M t_num w_id d_id byname c_w_id c_d_id c_id c_last h_amount)"
  unfolding payment_def payment_body_def payment_parts case_prod_beta
  by (intro fitting_intros) (simp_all add: start_sql_markers start_sql_columns)

lemma fetch_items_fitting: "fitting (fetch_items M t_num fuel)"
  by (induction fuel) (auto simp: case_prod_beta intro!: keeps_intros sql_extends)

lemma ordstat_fitting: "fitting (ordstat M fuel t_num w_id d_id byname c_id c_last)"
  unfolding ordstat_def ordstat_body_def ordstat_parts case_prod_beta
  by (intro fitting_intros fetch_items_fitting) (simp_all add: start_sql_markers start_sql_columns)

lemma delivery_fitting: "fitting (delivery M t_num w_id o_carrier_id)"
  unfolding delivery_def delivery_body_def delivery_district_def delivery_order_def
    delivery_statements case_prod_beta Let_def
  by (intro fitting_intros) (simp_all add: start_sql_markers start_sql_columns)

lemma sl_loop_fitting: "fitting (sl_loop M t_num w_id level fuel)"
  unfolding sl_count_def
  by (induction fuel)
    (auto simp: case_prod_beta sl_count_def start_sql_markers start_sql_columns
      intro!: fitting_intros sql_extends)

lemma slev_fitting: "fitting (slev M fuel t_num w_id d_id level)"
  unfolding slev_def slev_body_def slev_work_def sl_district_def sl_items_def slev_sqlerr_def
    slev_sqlerr2_def case_prod_beta
  by (intro fitting_intros sl_loop_fitting) (simp_all add: start_sql_markers start_sql_columns)

interpretation dfit: driver_relation "extends fits"
proof unfold_locales
  show "extends fits s t" if "aside s t" for s t :: "('s, 'z) drv_scheme"
    using that by (simp add: aside_def extends_same)
  show "extends fits s t" if "seq_frame s t" for s t :: "('s, 'z) drv_scheme"
    using that by (cases s, cases t) (simp add: seq_frame_def extends_same)
  show "fitting (count tal tr t_num diff)" for tal tr t_num diff
    by (simp add: keeps_def count_def extends_same)
qed (rule neword_fitting payment_fitting ordstat_fitting delivery_fitting slev_fitting emit_fitting
    | simp add: extends_same)+

section \<open>The order of the calls of a thread\<close>

text \<open>A statement is used after it has been prepared: \<open>S\<close> are the numbers prepared before.\<close>

fun prepares :: "event \<Rightarrow> nat set" where
  "prepares (Call t (Prepare k text len) rc r) = (if rc = 0 then {k} else {})"
| "prepares ev = {}"

fun uses :: "event \<Rightarrow> nat set" where
  "uses (Call t (BindParam k ps) rc r) = {k}"
| "uses (Call t (Execute k) rc r) = {k}"
| "uses (Call t (BindResult k cols) rc r) = {k}"
| "uses ev = {}"

fun prepared_first :: "nat set \<Rightarrow> event list \<Rightarrow> bool" where
  "prepared_first S [] \<longleftrightarrow> True"
| "prepared_first S (ev # es) \<longleftrightarrow> uses ev \<subseteq> S \<and> prepared_first (S \<union> prepares ev) es"

lemma prepared_first_mono: "prepared_first S es \<Longrightarrow> S \<subseteq> S' \<Longrightarrow> prepared_first S' es"
proof (induction es arbitrary: S S')
  case (Cons ev es)
  from Cons.prems Cons.IH [of "S \<union> prepares ev" "S' \<union> prepares ev"] show ?case by auto
qed simp

lemma prepared_first_append:
  "prepared_first S (es @ es') \<longleftrightarrow>
   prepared_first S es \<and> prepared_first (S \<union> \<Union> (prepares ` set es)) es'"
  by (induction es arbitrary: S) (simp_all add: Un_ac)

lemma prepared_first_all:
  "{..<35} \<subseteq> S \<Longrightarrow> list_all fits es \<Longrightarrow> prepared_first S es"
proof (induction es arbitrary: S)
  case (Cons ev es)
  have "uses ev \<subseteq> {..<35}"
    using Cons.prems(2) by (cases ev rule: uses.cases) (auto simp: start_sql_length)
  with Cons.prems Cons.IH [of "S \<union> prepares ev"] show ?case by (auto simp: Un_upper1 le_supI1)
qed simp

text \<open>The calls before the first transaction: they use no statement.\<close>

definition early :: "event \<Rightarrow> bool" where
  "early ev \<longleftrightarrow> fits ev \<and> uses ev = {}"

lemma prepared_first_early: "list_all early es \<Longrightarrow> prepared_first S es"
  by (induction es arbitrary: S) (simp_all add: early_def)

lemma checked_early:
  "(\<And>rc r. early (Call t_num c rc r)) \<Longrightarrow> keeps (extends early) (checked M err t_num c)"
  unfolding checked_def case_prod_beta by (intro ext.bnd_keeps ext.if_keeps ext.halt_keeps
      ext.ret_keeps sql_extends)

lemma buf_string_extends [keeps_intros]: "keeps (extends Q) (buf_string buf)"
  unfolding buf_string_def by (intro keeps_intros)

lemma uncheck_extends: "(\<And>rc r. Q (Call t_num c rc r)) \<Longrightarrow> keeps (extends Q) (uncheck M t_num c)"
  unfolding uncheck_def by (intro ext.bnd_keeps ext.ret_keeps sql_extends)

lemma connect_early: "keeps (extends early) (thread_connect M opts t_num)"
  unfolding thread_connect_def case_prod_beta
  by (intro keeps_intros sql_extends uncheck_extends) (simp_all add: early_def)

text \<open>Preparing the statements succeeds only if each of them was prepared.\<close>

lemma prepare_loop:
  assumes "cfor js (\<lambda>(i, text, len). checked M err t_num (Prepare i text len)) s = (Inr u, t)"
    and "\<forall>(i, text, len)\<in>set js. i < 35 \<and> (text, len) = start_sql ! i"
  shows "\<exists>es. log t = log s @ es \<and> list_all early es \<and> fst ` set js \<subseteq> \<Union> (prepares ` set es)"
  using assms
proof (induction js arbitrary: s)
  case Nil
  then show ?case by simp
next
  case (Cons j js)
  obtain i str len where j: "j = (i, str, len)" by (cases j)
  from Cons.prems(1) obtain s1 where one: "checked M err t_num (Prepare i str len) s = (Inr (), s1)"
    and rest: "cfor js (\<lambda>(i, text, len). checked M err t_num (Prepare i text len)) s1 = (Inr u, t)"
    by (auto simp: thn_ok j)
  from one obtain r where "log s1 = log s @ [Call t_num (Prepare i str len) 0 r]"
    by (auto simp: checked_def bnd_ok sql_def split: prod.splits if_splits)
  moreover from Cons.IH [OF rest] Cons.prems(2) obtain es where
    "log t = log s1 @ es" "list_all early es" "fst ` set js \<subseteq> \<Union> (prepares ` set es)" by auto
  moreover have "early (Call t_num (Prepare i str len) 0 r)"
  proof -
    from Cons.prems(2) j have i: "i < 35" "(str, len) = start_sql ! i" by auto
    with start_sql_lengths have "len = length str"
      by (metis (mono_tags) case_prod_conv list_all_length start_sql_length)
    with i show ?thesis by (simp add: early_def start_sql_length)
  qed
  ultimately show ?case by (intro exI [of _ "Call t_num (Prepare i str len) 0 r # es"]) (auto simp: j)
qed

definition orderly :: "(('s, 'z) db_scheme, 'a) cm \<Rightarrow> ('s, 'z) db_scheme \<Rightarrow> bool" where
  "orderly m s \<longleftrightarrow> (\<exists>es. log (snd (m s)) = log s @ es \<and> list_all fits es \<and> prepared_first {} es)"

lemma earlyD: "list_all early es \<Longrightarrow> list_all fits es \<and> prepared_first S es"
  by (simp add: prepared_first_early early_def list_all_iff)

lemma orderly_early: "keeps (extends early) m \<Longrightarrow> orderly m s"
  using earlyD by (fastforce simp: keeps_def extends_def orderly_def)

lemma orderly_thn:
  assumes "keeps (extends early) m" and "\<And>t. orderly k t"
  shows "orderly (thn m k) s"
proof (cases "m s")
  case (Pair r t)
  with assms(1) obtain es where es: "log t = log s @ es" "list_all early es"
    by (auto dest!: keepsD simp: extends_def)
  show ?thesis
  proof (cases r)
    case (Inl e)
    with Pair es earlyD [OF es(2)] show ?thesis by (auto simp: orderly_def thn_def bnd_def)
  next
    case (Inr a)
    from assms(2) [of t] obtain es' where
      "log (snd (k t)) = log t @ es'" "list_all fits es'" "prepared_first {} es'"
      by (auto simp: orderly_def)
    with Pair Inr es earlyD [OF es(2)]
      prepared_first_mono [of "{}" es'] show ?thesis
      by (intro exI [of _ "es @ es'"] iffD2 [OF orderly_def]) (simp add: thn_def bnd_def prepared_first_append)
  qed
qed

lemma orderly_handle:
  assumes "orderly m s" and "\<And>e. keeps (extends early) (h e)"
  shows "orderly (handle m h) s"
proof (cases "m s")
  case (Pair r t)
  with assms(1) obtain es where es: "log t = log s @ es" "list_all fits es" "prepared_first {} es"
    by (auto simp: orderly_def)
  show ?thesis
  proof (cases r)
    case (Inl e)
    from assms(2) [of e] obtain es' where es': "log (snd (h e t)) = log t @ es'" "list_all early es'"
      by (auto simp: keeps_def extends_def)
    with Pair Inl es earlyD [OF es'(2)] show ?thesis
      by (intro exI [of _ "es @ es'"] iffD2 [OF orderly_def])
        (simp add: handle_def prepared_first_append)
  next
    case (Inr a)
    with Pair es show ?thesis by (auto simp: orderly_def handle_def)
  qed
qed

text \<open>The thread, in three parts: before the statements are prepared, preparing them, the rest.\<close>

definition prepare_all :: "'s server \<Rightarrow> int \<Rightarrow> (('s, 'z) db_scheme, unit) cm" where
  "prepare_all M t_num = cfor (enumerate 0 start_sql)
     (\<lambda>(i, text, len). checked M Sqlerr t_num (Prepare i text len))"

lemma enumerate_start_sql:
  "\<forall>(i, text, len)\<in>set (enumerate 0 start_sql). i < 35 \<and> (text, len) = start_sql ! i"
  by (auto simp: in_set_enumerate_eq start_sql_length)

lemma prepare_all_early: "keeps (extends early) (prepare_all M t_num)"
  unfolding prepare_all_def
proof (rule ext.cfor_keeps)
  fix x assume x: "x \<in> set (enumerate 0 start_sql)"
  obtain i str len where j: "x = (i, str, len)" by (cases x)
  with x enumerate_start_sql have i: "i < 35" "(str, len) = start_sql ! i" by auto
  with start_sql_lengths have "len = length str"
    by (metis (mono_tags) case_prod_conv list_all_length start_sql_length)
  with i have "early (Call t_num (Prepare i str len) rc r)" for rc r
    by (simp add: early_def start_sql_length)
  then show "keeps (extends early) (case x of (i, text, len) \<Rightarrow> checked M Sqlerr t_num (Prepare i text len))"
    by (simp add: j checked_early)
qed

lemma orderly_prepared:
  assumes "fitting k"
  shows "orderly (thn (prepare_all M t_num) k) s"
proof (cases "prepare_all M t_num s")
  case (Pair r t)
  show ?thesis
  proof (cases r)
    case (Inl e)
    from keepsD [OF prepare_all_early Pair] obtain es where "log t = log s @ es" "list_all early es"
      by (auto simp: extends_def)
    with Pair Inl earlyD show ?thesis by (fastforce simp: orderly_def thn_def bnd_def)
  next
    case (Inr a)
    from Pair Inr prepare_loop [OF _ enumerate_start_sql, of M Sqlerr t_num s a t] obtain es
      where es: "log t = log s @ es" "list_all early es"
        "fst ` set (enumerate 0 start_sql) \<subseteq> \<Union> (prepares ` set es)"
      by (auto simp: prepare_all_def)
    moreover have "fst ` set (enumerate 0 start_sql) = {..<35}"
      by (simp flip: set_map add: start_sql_length lessThan_atLeast0)
    moreover obtain es' where "log (snd (k t)) = log t @ es'" "list_all fits es'"
      using assms by (auto simp: keeps_def extends_def)
    ultimately show ?thesis using Pair Inr earlyD [OF es(2)] prepared_first_all [of "\<Union> (prepares ` set es)" es']
      by (intro exI [of _ "es @ es'"] iffD2 [OF orderly_def])
        (simp add: thn_def bnd_def prepared_first_append)
  qed
qed

lemma thread_end_fitting:
  "fitting (bnd (driver M fuel t_num rounds) (\<lambda>r. thn (checked M Sqlerr t_num Commit)
     (thn (cfor [0..<40] (\<lambda>i. thn (uncheck M t_num (FreeResult i)) (uncheck M t_num (StmtClose i))))
     (thn (uncheck M t_num Close) (ret r)))))"
  by (intro keeps_intros dfit.driver_R uncheck_extends) simp_all

section \<open>A thread prepares what it uses, and binds what it prepared\<close>

text \<open>
  Property C11. Whatever the server answers, a thread binds to every statement as many parameters
  as its text has markers and as many result buffers as it selects columns; it prepares each text
  with its right length; and it binds or executes no statement that it has not prepared before
  with success.
\<close>

theorem thread_statements:
  "\<exists>es. log (snd (thread_main M fuel rounds opts t_num s)) = log s @ es \<and>
     list_all fits es \<and> prepared_first {} es"
proof -
  have "keeps (extends early) (cfor [0..<40] (\<lambda>i. checked M Sqlerr t_num (StmtInit i)))"
    by (intro ext.cfor_keeps checked_early) (simp add: early_def)
  then have "orderly (thread_main M fuel rounds opts t_num) s"
    unfolding thread_main_def prepare_all_def [symmetric]
    by (intro orderly_handle orderly_thn connect_early orderly_prepared thread_end_fitting
        ext.if_keeps ext.thn_keeps ext.ret_keeps ext.halt_keeps emit_extends)
      (simp_all add: early_def error_def ext.thn_keeps ext.ret_keeps emit_extends)
  then show ?thesis by (simp add: orderly_def)
qed

end
