(* ===== verification/Content.thy ===== *)
theory Content
  imports Db
begin

text \<open>
  What the calls of a program leave in the database, as an abstract specification of the
  loader: a connection without autocommit has rows that are committed and rows that are
  inserted since the last commit; a rollback drops the latter. The specification is
  computed from the log of the calls, so it holds for every behaviour of the server.

  \<open>does\<close> and \<open>saves\<close> say of an operation which statements it adds and which it leaves
  committed, whatever the server answers, and that it stops in the known ways only: it
  never leaves an array and never aborts.
\<close>

section \<open>The contents of the database\<close>

type_synonym stmts = "(nat \<times> param list) list"

text \<open>Committed, not yet committed, and the parameters bound to each statement.\<close>

type_synonym content = "stmts \<times> stmts \<times> (nat \<Rightarrow> param list)"

fun perform :: "content \<Rightarrow> event \<Rightarrow> content" where
  "perform (c, p, b) (Call t (BindParam k ps) rc r) = (c, p, if rc = 0 then b(k := ps) else b)"
| "perform (c, p, b) (Call t (Execute k) rc r) = (c, if rc = 0 then p @ [(k, b k)] else p, b)"
| "perform (c, p, b) (Call t Commit rc r) = (if rc = 0 then (c @ p, [], b) else (c, p, b))"
| "perform (c, p, b) (Call t Rollback rc r) = (c, [], b)"
| "perform (c, p, b) ev = (c, p, b)"

definition after_log :: "event list \<Rightarrow> content \<Rightarrow> content" where
  "after_log es cont = foldl perform cont es"

text \<open>The rows that are in the database after a log that starts with an empty one.\<close>

definition committed_rows :: "event list \<Rightarrow> stmts" where
  "committed_rows es = fst (after_log es ([], [], \<lambda>_. []))"

lemma after_log_simps [simp]:
  "after_log [] cont = cont"
  "after_log (ev # es) cont = after_log es (perform cont ev)"
  "after_log (es @ es') cont = after_log es' (after_log es cont)"
  by (simp_all add: after_log_def)

text \<open>
  What a sequence of events does: it adds statements, it drops what was not committed, it
  commits nothing, it adds statements and commits them (from and to a state where all is
  committed), or it commits some statements and leaves the rest open.
\<close>

definition adds :: "stmts \<Rightarrow> event list \<Rightarrow> bool" where
  "adds sts es \<longleftrightarrow> (\<forall>c p b. \<exists>b'. after_log es (c, p, b) = (c, p @ sts, b'))"

definition drops :: "event list \<Rightarrow> bool" where
  "drops es \<longleftrightarrow> (\<forall>c p b. \<exists>b'. after_log es (c, p, b) = (c, [], b'))"

definition keeps_rows :: "event list \<Rightarrow> bool" where
  "keeps_rows es \<longleftrightarrow> (\<forall>c p b. \<exists>p' b'. after_log es (c, p, b) = (c, p', b'))"

definition lands :: "stmts \<Rightarrow> event list \<Rightarrow> bool" where
  "lands sts es \<longleftrightarrow> (\<forall>c b. \<exists>b'. after_log es (c, [], b) = (c @ sts, [], b'))"

definition leaves :: "stmts \<Rightarrow> event list \<Rightarrow> bool" where
  "leaves sts es \<longleftrightarrow> (\<forall>c b. \<exists>p' b'. after_log es (c, [], b) = (c @ sts, p', b'))"

lemma adds_Nil [simp]: "adds [] []"
  by (simp add: adds_def)

lemma lands_Nil [simp]: "lands [] []"
  by (simp add: lands_def)

lemma adds_append: "adds sts es \<Longrightarrow> adds sts' es' \<Longrightarrow> adds (sts @ sts') (es @ es')"
  unfolding adds_def by (metis after_log_simps(3) append.assoc)

lemma adds_drops: "adds sts es \<Longrightarrow> drops es' \<Longrightarrow> drops (es @ es')"
  unfolding adds_def drops_def by (metis after_log_simps(3))

lemma adds_keeps: "adds sts es \<Longrightarrow> keeps_rows es' \<Longrightarrow> keeps_rows (es @ es')"
  unfolding adds_def keeps_rows_def by (metis after_log_simps(3))

lemma adds_keeps_rows: "adds sts es \<Longrightarrow> keeps_rows es"
  unfolding adds_def keeps_rows_def by metis

lemma lands_append: "lands sts es \<Longrightarrow> lands sts' es' \<Longrightarrow> lands (sts @ sts') (es @ es')"
  unfolding lands_def by (metis after_log_simps(3) append.assoc)

lemma lands_leaves: "lands sts es \<Longrightarrow> leaves sts' es' \<Longrightarrow> leaves (sts @ sts') (es @ es')"
  unfolding lands_def leaves_def by (metis after_log_simps(3) append.assoc)

lemma lands_is_leaves: "lands sts es \<Longrightarrow> leaves sts es"
  unfolding lands_def leaves_def by metis

lemma drops_lands: "drops es \<Longrightarrow> lands [] es"
  unfolding drops_def lands_def by simp

lemma keeps_rows_leaves: "keeps_rows es \<Longrightarrow> leaves [] es"
  unfolding keeps_rows_def leaves_def by simp

lemma leaves_keeps: "leaves sts es \<Longrightarrow> keeps_rows es' \<Longrightarrow> leaves sts (es @ es')"
  unfolding leaves_def keeps_rows_def by (metis after_log_simps(3))

lemma adds_commit: "adds sts es \<Longrightarrow> lands sts (es @ [Call t Commit 0 r])"
  unfolding adds_def lands_def by (metis after_log_simps append.left_neutral perform.simps(3))

lemma lands_rows: "lands sts es \<Longrightarrow> committed_rows es = sts"
  unfolding lands_def committed_rows_def by (metis append_Nil fst_conv)

lemma leaves_rows: "leaves sts es \<Longrightarrow> committed_rows es = sts"
  unfolding leaves_def committed_rows_def by (metis append_Nil fst_conv)

section \<open>Operations that insert\<close>

text \<open>
  \<open>stopped\<close>: how an operation ends otherwise than by returning or by a jump to \<open>retry\<close>; the
  program exits only after it has rolled back and closed the connection.
\<close>

definition closed_down :: "event list \<Rightarrow> bool" where
  "closed_down es \<longleftrightarrow> (\<exists>pre rc r rc' r'.
     es = pre @ [MysqlError 0, Call 0 Rollback rc r, Call 0 Close rc' r'])"

definition stopped :: "stop \<Rightarrow> event list \<Rightarrow> bool" where
  "stopped e es \<longleftrightarrow> e = Goto Sqlerr \<or> e = OutOfFuel \<or> e = Exit (- 1) \<and> closed_down es"

lemma closed_down_append: "closed_down es' \<Longrightarrow> closed_down (es @ es')"
  unfolding closed_down_def by (metis append.assoc)

lemma stopped_append: "stopped e es' \<Longrightarrow> stopped e (es @ es')"
  by (auto simp: stopped_def intro: closed_down_append)

lemma not_stopped [simp]: "\<not> stopped (Goto Retry) es" "\<not> stopped OutOfBounds es" "\<not> stopped Abort es"
  "\<not> stopped DivZero es"
  by (simp_all add: stopped_def)

lemma stopped_simps [simp]: "stopped (Goto Sqlerr) es" "stopped OutOfFuel es"
  by (simp_all add: stopped_def)

text \<open>
  \<open>does P m Q\<close>: from a state with \<open>P\<close>, \<open>m\<close> either returns with some statements added, which
  \<open>Q\<close> relates to the result and the final state, or jumps to \<open>retry\<close> with everything rolled
  back, or stops with nothing committed. The fields that
  extend the connection do not change.
\<close>

definition ended :: "('a \<Rightarrow> stmts \<Rightarrow> bool) \<Rightarrow> stop + 'a \<Rightarrow> event list \<Rightarrow> bool" where
  "ended Q r es \<longleftrightarrow> (case r of
       Inr a \<Rightarrow> \<exists>sts. adds sts es \<and> Q a sts
     | Inl e \<Rightarrow> e = Goto Retry \<and> drops es \<or> stopped e es \<and> keeps_rows es)"

definition does :: "(('s, 'z) db_scheme \<Rightarrow> bool) \<Rightarrow> (('s, 'z) db_scheme, 'a) cm \<Rightarrow>
    ('a \<Rightarrow> stmts \<Rightarrow> ('s, 'z) db_scheme \<Rightarrow> bool) \<Rightarrow> bool" where
  "does P m Q \<longleftrightarrow> (\<forall>s. P s \<longrightarrow> (\<exists>r t es. m s = (r, t) \<and> db.more t = db.more s \<and>
     log t = log s @ es \<and> ended (\<lambda>a sts. Q a sts t) r es))"

lemma ended_simps [simp]:
  "ended Q (Inr a) es \<longleftrightarrow> (\<exists>sts. adds sts es \<and> Q a sts)"
  "ended Q (Inl e) es \<longleftrightarrow>
     e = Goto Retry \<and> drops es \<or> stopped e es \<and> keeps_rows es"
  by (simp_all add: ended_def)

lemma doesI:
  assumes "\<And>s. P s \<Longrightarrow> \<exists>r t es. m s = (r, t) \<and> db.more t = db.more s \<and> log t = log s @ es \<and>
    ended (\<lambda>a sts. Q a sts t) r es"
  shows "does P m Q"
  unfolding does_def using assms by blast

lemma does_run:
  assumes "does P m Q" and "P s" and "m s = (r, t)"
  obtains es where "db.more t = db.more s" "log t = log s @ es" "ended (\<lambda>a sts. Q a sts t) r es"
proof -
  from assms(1,2) obtain r' t' es where "m s = (r', t')" "db.more t' = db.more s"
    "log t' = log s @ es" "ended (\<lambda>a sts. Q a sts t') r' es"
    unfolding does_def by blast
  with assms(3) that show thesis by auto
qed

lemma ended_mono: "ended Q r es \<Longrightarrow> (\<And>a sts. Q a sts \<Longrightarrow> Q' a sts) \<Longrightarrow> ended Q' r es"
  unfolding ended_def by (auto split: sum.splits)

lemma does_conseq:
  assumes "does P m Q" and "\<And>s. P' s \<Longrightarrow> P s" and "\<And>a sts s. Q a sts s \<Longrightarrow> Q' a sts s"
  shows "does P' m Q'"
proof (rule doesI)
  fix s assume "P' s"
  obtain r t where r: "m s = (r, t)" by (cases "m s")
  from does_run [OF assms(1) assms(2) [OF \<open>P' s\<close>] r] obtain es where
    "db.more t = db.more s" "log t = log s @ es" "ended (\<lambda>a sts. Q a sts t) r es" .
  with r assms(3) show "\<exists>r t es. m s = (r, t) \<and> db.more t = db.more s \<and> log t = log s @ es \<and>
    ended (\<lambda>a sts. Q' a sts t) r es"
    by (metis (mono_tags, lifting) ended_mono)
qed

lemma does_pure: "(b \<Longrightarrow> does P m Q) \<Longrightarrow> does (\<lambda>s. b \<and> P s) m Q"
  unfolding does_def by blast

lemma does_ret: "(\<And>s. P s \<Longrightarrow> Q a [] s) \<Longrightarrow> does P (ret a) Q"
  by (rule doesI) (auto simp: ret_eq intro: exI [of _ "[]"])

lemma does_bnd:
  assumes "does P m Q" and "\<And>a sts. does (Q a sts) (f a) (\<lambda>b sts' t. W b (sts @ sts') t)"
  shows "does P (bnd m f) W"
proof (rule doesI)
  fix s assume P: "P s"
  obtain r t where r: "m s = (r, t)" by (cases "m s")
  from does_run [OF assms(1) P r] obtain es where
    1: "db.more t = db.more s" "log t = log s @ es" "ended (\<lambda>a sts. Q a sts t) r es" .
  show "\<exists>r t es. bnd m f s = (r, t) \<and> db.more t = db.more s \<and> log t = log s @ es \<and>
    ended (\<lambda>b sts. W b sts t) r es"
  proof (cases r)
    case (Inl e)
    with 1 r show ?thesis by (intro exI [of _ "Inl e"] exI [of _ t] exI [of _ es]) (simp add: bnd_def)
  next
    case (Inr a)
    with 1 obtain sts where sts: "adds sts es" "Q a sts t" by auto
    obtain r' t' where r': "f a t = (r', t')" by (cases "f a t")
    from does_run [OF assms(2) sts(2) r'] obtain es' where
      2: "db.more t' = db.more t" "log t' = log t @ es'" "ended (\<lambda>b sts'. W b (sts @ sts') t') r' es'" .
    have "ended (\<lambda>b sts. W b sts t') r' (es @ es')"
      using 2(3) sts(1) adds_append adds_drops adds_keeps stopped_append unfolding ended_def
      by (cases r') fastforce+
    with 1 2 r r' Inr show ?thesis
      by (intro exI [of _ r'] exI [of _ t'] exI [of _ "es @ es'"]) (simp add: bnd_def)
  qed
qed

lemma does_thn:
  "does P m (\<lambda>_. Q) \<Longrightarrow> (\<And>sts. does (Q sts) k (\<lambda>b sts' t. W b (sts @ sts') t)) \<Longrightarrow> does P (thn m k) W"
  unfolding thn_def by (rule does_bnd)

text \<open>An operation that makes no call and returns.\<close>

lemma does_returns:
  assumes "\<And>l z. returns (\<lambda>s. P s \<and> log s = l \<and> db.more s = z) m
    (\<lambda>a s. Q a s \<and> log s = l \<and> db.more s = z)"
  shows "does P m (\<lambda>a sts s. sts = [] \<and> Q a s)"
proof (rule doesI)
  fix s assume "P s"
  then obtain a t where "m s = (Inr a, t)" "Q a t" "log t = log s" "db.more t = db.more s"
    using returnsD [OF assms [of "log s" "db.more s"], of s] by auto
  then show "\<exists>r t es. m s = (r, t) \<and> db.more t = db.more s \<and> log t = log s @ es \<and>
    ended (\<lambda>a sts. sts = [] \<and> Q a t) r es"
    by (intro exI [of _ "Inr a"] exI [of _ t] exI [of _ "[]"]) simp
qed

text \<open>The statements of a loop, index by index.\<close>

definition each :: "('i \<Rightarrow> stmts \<Rightarrow> bool) \<Rightarrow> 'i list \<Rightarrow> stmts \<Rightarrow> bool" where
  "each W js sts \<longleftrightarrow> (\<exists>stss. sts = concat stss \<and> list_all2 W js stss)"

lemma each_Nil [simp]: "each W [] sts \<longleftrightarrow> sts = []"
  by (auto simp: each_def)

lemma each_Cons: "W j sts \<Longrightarrow> each W js sts' \<Longrightarrow> each W (j # js) (sts @ sts')"
  unfolding each_def by (metis concat.simps(2) list_all2_Cons)

lemma each_mono:
  "each W js sts \<Longrightarrow> (\<And>j x. j \<in> set js \<Longrightarrow> W j x \<Longrightarrow> W' j x) \<Longrightarrow> each W' js sts"
  unfolding each_def by (metis list.rel_mono_strong)

lemma does_cfor:
  assumes "\<And>j. j \<in> set js \<Longrightarrow> does P (body j) (\<lambda>_ sts s. W j sts \<and> P s)"
  shows "does P (cfor js body) (\<lambda>_ sts s. each W js sts \<and> P s)"
  using assms
proof (induction js)
  case Nil
  show ?case by (simp add: does_ret)
next
  case (Cons j js)
  have IH: "does P (cfor js body) (\<lambda>_ sts s. each W js sts \<and> P s)"
    by (rule Cons.IH) (simp add: Cons.prems)
  have "does P (body j) (\<lambda>_ sts s. W j sts \<and> P s)" by (rule Cons.prems) simp
  then show ?case
    unfolding cfor.simps
    by (rule does_thn) (rule does_pure, rule does_conseq [OF IH], auto intro: each_Cons)
qed

text \<open>
  \<open>saves z m Q E\<close>: with everything committed, \<open>m\<close> returns with everything committed and
  the statements \<open>Q\<close> added, or stops, and then the statements \<open>E\<close> have been committed. \<open>z\<close> is
  the value of the fields that extend the connection.
\<close>

definition settled :: "('a \<Rightarrow> stmts \<Rightarrow> bool) \<Rightarrow> (stmts \<Rightarrow> bool) \<Rightarrow> stop + 'a \<Rightarrow> event list \<Rightarrow> bool" where
  "settled Q E r es \<longleftrightarrow> (case r of
       Inr a \<Rightarrow> \<exists>sts. lands sts es \<and> Q a sts
     | Inl e \<Rightarrow> stopped e es \<and> (\<exists>sts. leaves sts es \<and> E sts))"

definition saves :: "'z \<Rightarrow> (('s, 'z) db_scheme, 'a) cm \<Rightarrow> ('a \<Rightarrow> stmts \<Rightarrow> bool) \<Rightarrow>
    (stmts \<Rightarrow> bool) \<Rightarrow> bool" where
  "saves z m Q E \<longleftrightarrow> (\<forall>s. db.more s = z \<longrightarrow> (\<exists>r t es. m s = (r, t) \<and> db.more t = z \<and>
     log t = log s @ es \<and> settled Q E r es))"

lemma settled_simps [simp]:
  "settled Q E (Inr a) es \<longleftrightarrow> (\<exists>sts. lands sts es \<and> Q a sts)"
  "settled Q E (Inl e) es \<longleftrightarrow> stopped e es \<and> (\<exists>sts. leaves sts es \<and> E sts)"
  by (simp_all add: settled_def)

lemma savesI:
  assumes "\<And>s. db.more s = z \<Longrightarrow> \<exists>r t es. m s = (r, t) \<and> db.more t = z \<and>
    log t = log s @ es \<and> settled Q E r es"
  shows "saves z m Q E"
  unfolding saves_def using assms by blast

lemma saves_run:
  assumes "saves z m Q E" and "db.more s = z" and "m s = (r, t)"
  obtains es where "db.more t = z" "log t = log s @ es" "settled Q E r es"
proof -
  from assms(1,2) obtain r' t' es where "m s = (r', t')" "db.more t' = z"
    "log t' = log s @ es" "settled Q E r' es" unfolding saves_def by blast
  with assms(3) that show thesis by auto
qed

lemma settled_mono:
  "settled Q E r es \<Longrightarrow> (\<And>a sts. Q a sts \<Longrightarrow> Q' a sts) \<Longrightarrow> (\<And>sts. E sts \<Longrightarrow> E' sts) \<Longrightarrow> settled Q' E' r es"
  unfolding settled_def by (auto split: sum.splits)

lemma saves_conseq:
  fixes m :: "(('s, 'z) db_scheme, 'a) cm"
  assumes "saves z m Q E" and "\<And>a sts. Q a sts \<Longrightarrow> Q' a sts" and "\<And>sts. E sts \<Longrightarrow> E' sts"
  shows "saves z m Q' E'"
proof (rule savesI)
  fix s :: "('s, 'z) db_scheme"
  assume z: "db.more s = z"
  obtain r t where r: "m s = (r, t)" by (cases "m s")
  from saves_run [OF assms(1) z r] obtain es where
    "db.more t = z" "log t = log s @ es" "settled Q E r es" .
  with r settled_mono [of Q E r es Q' E'] assms(2,3)
  show "\<exists>r t es. m s = (r, t) \<and> db.more t = z \<and> log t = log s @ es \<and> settled Q' E' r es"
    by blast
qed

lemma saves_ret: "Q a [] \<Longrightarrow> saves z (ret a) Q E"
  by (rule savesI) (auto simp: ret_eq intro: exI [of _ "[]"])

lemma saves_bnd_gets: "(\<And>s. db.more s = z \<Longrightarrow> saves z (f (g s)) Q E) \<Longrightarrow> saves z (bnd (gets g) f) Q E"
  unfolding saves_def by simp

lemma saves_thn:
  fixes m :: "(('s, 'z) db_scheme, 'a) cm"
  assumes "saves z m (\<lambda>_. Q) E" and "saves z k Q' E'"
  shows "saves z (thn m k) (\<lambda>b sts. \<exists>sts1 sts2. sts = sts1 @ sts2 \<and> Q sts1 \<and> Q' b sts2)
    (\<lambda>sts. E sts \<or> (\<exists>sts1 sts2. sts = sts1 @ sts2 \<and> Q sts1 \<and> E' sts2))"
proof (rule savesI)
  fix s :: "('s, 'z) db_scheme"
  assume z: "db.more s = z"
  let ?Q = "\<lambda>b sts. \<exists>sts1 sts2. sts = sts1 @ sts2 \<and> Q sts1 \<and> Q' b sts2"
  let ?E = "\<lambda>sts. E sts \<or> (\<exists>sts1 sts2. sts = sts1 @ sts2 \<and> Q sts1 \<and> E' sts2)"
  obtain r t where r: "m s = (r, t)" by (cases "m s")
  from saves_run [OF assms(1) z r] obtain es where
    1: "db.more t = z" "log t = log s @ es" "settled (\<lambda>_. Q) E r es" .
  show "\<exists>r t es. thn m k s = (r, t) \<and> db.more t = z \<and> log t = log s @ es \<and> settled ?Q ?E r es"
  proof (cases r)
    case (Inl e)
    with 1 r show ?thesis
      by (intro exI [of _ "Inl e"] exI [of _ t] exI [of _ es]) (auto simp: thn_def bnd_def)
  next
    case (Inr a)
    with 1 obtain sts where sts: "lands sts es" "Q sts" by auto
    obtain r' t' where r': "k t = (r', t')" by (cases "k t")
    from saves_run [OF assms(2) 1(1) r'] obtain es' where
      2: "db.more t' = z" "log t' = log t @ es'" "settled Q' E' r' es'" .
    have "settled ?Q ?E r' (es @ es')"
    proof (cases r')
      case (Inr b)
      with 2(3) sts show ?thesis by (auto intro: lands_append)
    next
      case (Inl e)
      with 2(3) obtain sts' where "stopped e es'" "leaves sts' es'" "E' sts'" by auto
      with Inl sts show ?thesis
        by (auto intro: stopped_append lands_leaves)
    qed
    with 1 2 r r' Inr show ?thesis
      by (intro exI [of _ r'] exI [of _ t'] exI [of _ "es @ es'"]) (simp add: thn_def bnd_def)
  qed
qed

text \<open>A loop whose rounds commit: what is committed when it stops are complete rounds.\<close>

lemma saves_cfor:
  assumes "\<And>j. j \<in> set js \<Longrightarrow> saves z (body j) (\<lambda>_. W j) (\<lambda>sts. sts = [])"
  shows "saves z (cfor js body) (\<lambda>_. each W js) (\<lambda>sts. \<exists>n < length js. each W (take n js) sts)"
  using assms
proof (induction js)
  case Nil
  show ?case by (simp add: saves_ret)
next
  case (Cons j js)
  have IH: "saves z (cfor js body) (\<lambda>_. each W js) (\<lambda>sts. \<exists>n < length js. each W (take n js) sts)"
    by (rule Cons.IH) (simp add: Cons.prems)
  have j: "saves z (body j) (\<lambda>_. W j) (\<lambda>sts. sts = [])" by (rule Cons.prems) simp
  show ?case
    unfolding cfor.simps
  proof (rule saves_conseq [OF saves_thn [OF j IH]])
    show "each W (j # js) sts"
      if "\<exists>sts1 sts2. sts = sts1 @ sts2 \<and> W j sts1 \<and> each W js sts2" for sts
      using that by (auto intro: each_Cons)
    show "\<exists>n < length (j # js). each W (take n (j # js)) sts"
      if "sts = [] \<or> (\<exists>sts1 sts2. sts = sts1 @ sts2 \<and> W j sts1 \<and>
        (\<exists>n < length js. each W (take n js) sts2))" for sts
      using that
    proof (elim disjE exE conjE)
      show ?thesis if "sts = []" using that by (intro exI [of _ 0]) simp
      fix sts1 sts2 n
      assume "sts = sts1 @ sts2" "W j sts1" "n < length js" "each W (take n js) sts2"
      then show ?thesis by (intro exI [of _ "Suc n"]) (simp add: each_Cons)
    qed
  qed
qed

end
