(* ===== verification/Load.thy ===== *)
theory Load
  imports Content
begin

text \<open>
  The data loader, \<^verbatim>\<open>tpcc-mysql/src/load.c\<close>: the random rows of the nine tables, their inserts,
  and the repetition of a batch whose insert fails. \<open>try_stmt_execute\<close> rolls the batch back
  and the caller jumps to its label \<open>retry\<close>, here the stop \<open>Goto Retry\<close>; any other failure
  jumps to \<open>sqlerr\<close> and ends the program through \<open>Error\<close>. The repetition has no bound in the
  code; \<open>retrying\<close> and the search for an unmarked item have fuel.

  The program has one connection, thread 0 of the log. Progress output is not modelled.
\<close>

section \<open>State and errors\<close>

record 's ld = "'s db" +
  timestamp :: string
  min_ware :: int
  max_ware :: int

definition Error :: "'s server \<Rightarrow> bool \<Rightarrow> (('s, 'z) db_scheme, 'a) cm" where
  "Error M mysql_stmt =
     thn (on_cond mysql_stmt (emit (Diag ''statement'' [])))
    (thn (emit (MysqlError 0))
    (thn (sql M 0 Rollback)
    (thn (sql M 0 Close) (halt (Exit (- 1))))))"

definition try_stmt_execute :: "'s server \<Rightarrow> nat \<Rightarrow> (('s, 'z) db_scheme, int) cm" where
  "try_stmt_execute M k = bnd (sql M 0 (Execute k)) (\<lambda>(rc, _).
     if rc \<noteq> 0 then thn (emit (MysqlError 0)) (thn (sql M 0 Rollback) (ret rc)) else ret rc)"

text \<open>Bind and execute, in a function with a label \<open>retry\<close>.\<close>

definition insert_row :: "'s server \<Rightarrow> nat \<Rightarrow> param list \<Rightarrow> (('s, 'z) db_scheme, unit) cm" where
  "insert_row M k ps = thn (checked M Sqlerr 0 (BindParam k ps))
     (bnd (try_stmt_execute M k) (\<lambda>rc. if rc \<noteq> 0 then halt (Goto Retry) else ret ()))"

primrec retrying :: "nat \<Rightarrow> ('st, 'a) cm \<Rightarrow> ('st, 'a) cm" where
  "retrying 0 m = halt OutOfFuel"
| "retrying (Suc fuel) m = handle m (\<lambda>e. if e = Goto Retry then retrying fuel m else halt e)"

definition at_sqlerr :: "'s server \<Rightarrow> bool \<Rightarrow> (('s, 'z) db_scheme, 'a) cm \<Rightarrow>
    (('s, 'z) db_scheme, 'a) cm" where
  "at_sqlerr M mysql_stmt m = handle m (\<lambda>e. if e = Goto Sqlerr then Error M mysql_stmt else halt e)"

section \<open>Rows\<close>

definition MakeAddress :: "('z support_scheme, string list) cm" where
  "MakeAddress =
     bnd (MakeAlphaString 10 20) (\<lambda>str1. bnd (MakeAlphaString 10 20) (\<lambda>str2.
     bnd (MakeAlphaString 10 20) (\<lambda>city. bnd (MakeAlphaString 2 2) (\<lambda>state.
     bnd (MakeNumberString 9 9) (\<lambda>zip. ret [str1, str2, city, state, zip])))))"

text \<open>\<open>((float) RandomNumber(lo, hi)) / 100.0\<close>, assigned to a \<open>float\<close>.\<close>

definition hundredths :: "int \<Rightarrow> int \<Rightarrow> ('z support_scheme, rat) cm" where
  "hundredths lo hi = bnd (RandomNumber lo hi) (\<lambda>r. ret (f32 (f64 (f32 (of_int r) / 100))))"

text \<open>
  The array \<open>orig\<close>, which the code clears only up to \<open>MAXITEMS / 10\<close>: the rest holds what was
  in memory. Only whether an element is 0 matters.
\<close>

definition orig_start :: "('z support_scheme, bool list) cm" where
  "orig_start s = (let n = nat (MAXITEMS + 1 - MAXITEMS sdiv 10) in
     (Inr (replicate (nat (MAXITEMS sdiv 10)) False @ map (\<lambda>w. w \<noteq> 0) (stake n (garbage s))),
      s\<lparr>garbage := sdrop n (garbage s)\<rparr>))"

primrec find_free :: "nat \<Rightarrow> bool list \<Rightarrow> ('z support_scheme, int) cm" where
  "find_free 0 orig = halt OutOfFuel"
| "find_free (Suc fuel) orig = bnd (RandomNumber 0 MAXITEMS) (\<lambda>pos. bnd (rd orig pos) (\<lambda>marked.
     if marked then find_free fuel orig else ret pos))"

definition mark_originals :: "nat \<Rightarrow> ('z support_scheme, bool list) cm" where
  "mark_originals fuel = bnd orig_start (\<lambda>orig.
     cfold [0..MAXITEMS sdiv 10 - 1] (\<lambda>_ orig.
       bnd (find_free fuel orig) (\<lambda>pos. ret (orig[nat pos := True]))) orig)"

text \<open>The eight characters written over the data of an original item.\<close>

definition brand_original :: "bool \<Rightarrow> string \<Rightarrow> ('z support_scheme, string) cm" where
  "brand_original original data =
     (if original then bnd (RandomNumber 0 (int (length data) - 8)) (\<lambda>pos.
        ret (write_bytes (nat pos) ''original'' data))
      else ret data)"

definition item_row :: "bool list \<Rightarrow> int \<Rightarrow> ('z support_scheme, param list) cm" where
  "item_row orig i_id =
     bnd (RandomNumber 1 10000) (\<lambda>i_im_id.
     bnd (MakeAlphaString 14 24) (\<lambda>i_name.
     bnd (RandomNumber 100 10000) (\<lambda>p. let i_price = f32 (f64 (of_int p / 100)) in
     bnd (MakeAlphaString 26 50) (\<lambda>i_data.
     bnd (rd orig i_id) (\<lambda>original.
     bnd (brand_original original i_data) (\<lambda>i_data.
       ret [PLong i_id, PLong i_im_id, PString i_name, PFloat i_price, PString i_data]))))))"

definition ware_row :: "int \<Rightarrow> ('z support_scheme, param list) cm" where
  "ware_row w_id =
     bnd (MakeAlphaString 6 10) (\<lambda>w_name. bnd MakeAddress (\<lambda>address.
     bnd (hundredths 10 20) (\<lambda>w_tax. let w_ytd = 3000000 in
       ret ([PLong w_id, PString w_name] @ map PString address @ [PFloat w_tax, PFloat w_ytd]))))"

definition stock_row :: "bool list \<Rightarrow> int \<Rightarrow> int \<Rightarrow> ('z support_scheme, param list) cm" where
  "stock_row orig w_id s_i_id =
     bnd (RandomNumber 10 100) (\<lambda>s_quantity.
     bnd (replicateM 10 (MakeAlphaString 24 24)) (\<lambda>s_dist.
     bnd (MakeAlphaString 26 50) (\<lambda>s_data.
     bnd (rd orig s_i_id) (\<lambda>original.
     bnd (brand_original original s_data) (\<lambda>s_data.
       ret ([PLong s_i_id, PLong w_id, PLong s_quantity] @ map PString s_dist @ [PString s_data]))))))"

definition district_row :: "int \<Rightarrow> int \<Rightarrow> ('z support_scheme, param list) cm" where
  "district_row w_id d_id =
     bnd (MakeAlphaString 6 10) (\<lambda>d_name. bnd MakeAddress (\<lambda>address.
     bnd (hundredths 10 20) (\<lambda>d_tax. let d_ytd = 30000; d_next_o_id = 3001 in
       ret ([PLong d_id, PLong w_id, PString d_name] @ map PString address @
         [PFloat d_tax, PFloat d_ytd, PLong d_next_o_id]))))"

definition customer_row :: "string \<Rightarrow> int \<Rightarrow> int \<Rightarrow> int \<Rightarrow> ('z support_scheme, param list) cm" where
  "customer_row tstamp d_id w_id c_id =
     bnd (MakeAlphaString 8 16) (\<lambda>c_first.
     bnd (if c_id \<le> 1000 then Lastname (c_id - 1) else bnd (NURand 255 0 999) Lastname) (\<lambda>c_last.
     bnd MakeAddress (\<lambda>address.
     bnd (MakeNumberString 16 16) (\<lambda>c_phone.
     bnd (RandomNumber 0 1) (\<lambda>r. let c_credit = (if r \<noteq> 0 then ''GC'' else ''BC''); c_credit_lim = 50000 in
     bnd (hundredths 0 50) (\<lambda>c_discount. let c_balance = - 10 in
     bnd (MakeAlphaString 300 500) (\<lambda>c_data.
       ret ([PLong c_id, PLong d_id, PLong w_id, PString c_first, PString ''OE'', PString c_last] @
         map PString address @ [PString c_phone, PString tstamp, PString c_credit,
         PLong c_credit_lim, PFloat c_discount, PFloat c_balance, PString c_data]))))))))"

definition history_row :: "string \<Rightarrow> int \<Rightarrow> int \<Rightarrow> int \<Rightarrow> ('z support_scheme, param list) cm" where
  "history_row tstamp d_id w_id c_id =
     bnd (MakeAlphaString 12 24) (\<lambda>h_data. let h_amount = 10 in
       ret [PLong c_id, PLong d_id, PLong w_id, PLong d_id, PLong w_id, PString tstamp,
         PFloat h_amount, PString h_data])"

text \<open>An order line: the statement and its row.\<close>

definition order_line_row :: "string \<Rightarrow> int \<Rightarrow> int \<Rightarrow> int \<Rightarrow> int \<Rightarrow>
    ('z support_scheme, nat \<times> param list) cm" where
  "order_line_row tstamp d_id w_id o_id ol =
     bnd (RandomNumber 1 MAXITEMS) (\<lambda>ol_i_id.
     bnd (MakeAlphaString 24 24) (\<lambda>ol_dist_info.
     bnd (hundredths 10 10000) (\<lambda>tmp_float.
       ret (if o_id > 2100
         then (9, [PLong o_id, PLong d_id, PLong w_id, PLong ol, PLong ol_i_id, PLong w_id,
                   PLong 5, PFloat 0, PString ol_dist_info])
         else (10, [PLong o_id, PLong d_id, PLong w_id, PLong ol, PLong ol_i_id, PLong w_id,
                    PString tstamp, PLong 5, PFloat tmp_float, PString ol_dist_info])))))"

section \<open>Tables\<close>

definition items_pass :: "'s server \<Rightarrow> bool list \<Rightarrow> (('s, 'z) db_scheme, unit) cm" where
  "items_pass M orig = cfor [1..MAXITEMS] (\<lambda>i_id. bnd (item_row orig i_id) (insert_row M 0))"

definition LoadItems :: "'s server \<Rightarrow> nat \<Rightarrow> (('s, 'z) db_scheme, unit) cm" where
  "LoadItems M fuel = at_sqlerr M True (bnd (mark_originals fuel) (\<lambda>orig.
     thn (retrying fuel (items_pass M orig)) (checked M Sqlerr 0 Commit)))"

text \<open>The loops of \<open>Stock\<close> and \<open>District\<close>, which end with the error code of the insert.\<close>

primrec rows_loop :: "'s server \<Rightarrow> nat \<Rightarrow> (int \<Rightarrow> (('s, 'z) db_scheme, param list) cm) \<Rightarrow> int list \<Rightarrow>
    (('s, 'z) db_scheme, int) cm" where
  "rows_loop M k row [] = ret 0"
| "rows_loop M k row (i # is) = bnd (row i) (\<lambda>ps.
     thn (checked M Sqlerr 0 (BindParam k ps))
    (bnd (try_stmt_execute M k) (\<lambda>error.
       if error \<noteq> 0 then ret error else rows_loop M k row is)))"

definition Stock :: "'s server \<Rightarrow> nat \<Rightarrow> int \<Rightarrow> (('s, 'z) db_scheme, int) cm" where
  "Stock M fuel w_id = at_sqlerr M False (bnd (mark_originals fuel) (\<lambda>orig.
     rows_loop M 2 (stock_row orig w_id) [1..MAXITEMS]))"

definition District :: "'s server \<Rightarrow> int \<Rightarrow> (('s, 'z) db_scheme, int) cm" where
  "District M w_id = at_sqlerr M False (rows_loop M 3 (district_row w_id) [1..DIST_PER_WARE])"

definition ware_pass :: "'s server \<Rightarrow> nat \<Rightarrow> int \<Rightarrow> (('s, 'z) db_scheme, unit) cm" where
  "ware_pass M fuel w_id =
     thn (bnd (ware_row w_id) (insert_row M 1))
    (thn (bnd (Stock M fuel w_id) (\<lambda>error. if error \<noteq> 0 then halt (Goto Retry) else ret ()))
      (bnd (District M w_id) (\<lambda>error. if error \<noteq> 0 then halt (Goto Retry) else ret ())))"

text \<open>\<open>retry\<close> keeps \<open>w_id\<close>: only the warehouse that failed is repeated.\<close>

definition LoadWare :: "'s server \<Rightarrow> nat \<Rightarrow> (('s, 'z) ld_scheme, unit) cm" where
  "LoadWare M fuel = at_sqlerr M False (bnd (gets min_ware) (\<lambda>lo. bnd (gets max_ware) (\<lambda>hi.
     cfor [lo..hi] (\<lambda>w_id.
       thn (retrying fuel (ware_pass M fuel w_id)) (checked M Sqlerr 0 Commit)))))"

definition customer_pass :: "'s server \<Rightarrow> int \<Rightarrow> int \<Rightarrow> (('s, 'z) ld_scheme, unit) cm" where
  "customer_pass M d_id w_id = bnd (gets timestamp) (\<lambda>tstamp.
     cfor [1..CUST_PER_DIST] (\<lambda>c_id.
       thn (bnd (customer_row tstamp d_id w_id c_id) (insert_row M 4))
         (bnd (history_row tstamp d_id w_id c_id) (insert_row M 5))))"

definition Customer :: "'s server \<Rightarrow> nat \<Rightarrow> int \<Rightarrow> int \<Rightarrow> (('s, 'z) ld_scheme, unit) cm" where
  "Customer M fuel d_id w_id = at_sqlerr M False
     (thn (retrying fuel (customer_pass M d_id w_id)) (checked M Sqlerr 0 Commit))"

text \<open>The rows of one order, without its lines.\<close>

definition order_head :: "'s server \<Rightarrow> string \<Rightarrow> int \<Rightarrow> int \<Rightarrow> int \<Rightarrow> int \<Rightarrow> int \<Rightarrow> int \<Rightarrow>
    (('s, 'z) db_scheme, unit) cm" where
  "order_head M tstamp d_id w_id o_id o_c_id o_carrier_id o_ol_cnt =
     (if o_id > 2100 then
        thn (insert_row M 6 [PLong o_id, PLong d_id, PLong w_id, PLong o_c_id, PString tstamp,
               PLong o_ol_cnt])
          (insert_row M 7 [PLong o_id, PLong d_id, PLong w_id])
      else insert_row M 8 [PLong o_id, PLong d_id, PLong w_id, PLong o_c_id, PString tstamp,
             PLong o_carrier_id, PLong o_ol_cnt])"

definition order_rows :: "'s server \<Rightarrow> string \<Rightarrow> int \<Rightarrow> int \<Rightarrow> int \<Rightarrow> (('s, 'z) db_scheme, unit) cm" where
  "order_rows M tstamp d_id w_id o_id =
     bnd GetPermutation (\<lambda>o_c_id.
     bnd (RandomNumber 1 10) (\<lambda>o_carrier_id.
     bnd (RandomNumber 5 15) (\<lambda>o_ol_cnt.
     thn (order_head M tstamp d_id w_id o_id o_c_id o_carrier_id o_ol_cnt)
       (cfor [1..o_ol_cnt] (\<lambda>ol.
          bnd (order_line_row tstamp d_id w_id o_id ol) (\<lambda>(k, ps). insert_row M k ps))))))"

definition orders_pass :: "'s server \<Rightarrow> int \<Rightarrow> int \<Rightarrow> (('s, 'z) ld_scheme, unit) cm" where
  "orders_pass M d_id w_id = bnd (gets timestamp) (\<lambda>tstamp.
     thn InitPermutation (cfor [1..ORD_PER_DIST] (order_rows M tstamp d_id w_id)))"

definition Orders :: "'s server \<Rightarrow> nat \<Rightarrow> int \<Rightarrow> int \<Rightarrow> (('s, 'z) ld_scheme, unit) cm" where
  "Orders M fuel d_id w_id = at_sqlerr M False
     (thn (retrying fuel (orders_pass M d_id w_id)) (checked M Sqlerr 0 Commit))"

text \<open>\<open>LoadCust\<close> and \<open>LoadOrd\<close>: the districts of the warehouses, and one more commit.\<close>

definition by_district :: "'s server \<Rightarrow> (int \<Rightarrow> int \<Rightarrow> (('s, 'z) ld_scheme, unit) cm) \<Rightarrow>
    (('s, 'z) ld_scheme, unit) cm" where
  "by_district M f = at_sqlerr M False (bnd (gets min_ware) (\<lambda>lo. bnd (gets max_ware) (\<lambda>hi.
     thn (cfor [lo..hi] (\<lambda>w_id. cfor [1..DIST_PER_WARE] (\<lambda>d_id. f d_id w_id)))
       (checked M Sqlerr 0 Commit))))"

definition LoadCust :: "'s server \<Rightarrow> nat \<Rightarrow> (('s, 'z) ld_scheme, unit) cm" where
  "LoadCust M fuel = by_district M (Customer M fuel)"

definition LoadOrd :: "'s server \<Rightarrow> nat \<Rightarrow> (('s, 'z) ld_scheme, unit) cm" where
  "LoadOrd M fuel = by_district M (Orders M fuel)"

section \<open>Lemmas: what the generators read\<close>

text \<open>
  A generator takes numbers from \<open>rand\<close>, and words from uninitialised memory in \<open>NURand\<close> and
  for \<open>orig\<close>; the rest of the state is not its own.
\<close>

definition draws :: "'z support_scheme \<Rightarrow> 'z support_scheme \<Rightarrow> bool" where
  "draws s t \<longleftrightarrow> (\<exists>n. rng t = sdrop n (rng s)) \<and>
     t = s\<lparr>rng := rng t, garbage := garbage t, nurand_first := nurand_first t\<rparr>"

lemma sdrop_twice: "sdrop m (sdrop n xs) = sdrop (n + m) xs"
  by (simp add: sdrop_add)

interpretation drw: state_relation draws
proof
  show "draws s s" for s :: "'z support_scheme"
    unfolding draws_def by (simp add: exI [of _ 0])
  show "draws s u" if "draws s t" "draws t u" for s t u :: "'z support_scheme"
  proof -
    from that obtain m n where "rng t = sdrop m (rng s)" "rng u = sdrop n (rng t)"
      by (auto simp: draws_def)
    then have "rng u = sdrop (m + n) (rng s)" by (simp add: sdrop_twice)
    moreover from that have "u = s\<lparr>rng := rng u, garbage := garbage u, nurand_first := nurand_first u\<rparr>"
      unfolding draws_def by (cases s, cases t, cases u) simp
    ultimately show ?thesis unfolding draws_def by blast
  qed
qed

lemma c_rand_draws [keeps_intros]: "keeps draws c_rand"
  unfolding keeps_def draws_def c_rand_def by (auto intro: exI [of _ 1])

lemma uninit_draws [keeps_intros]: "keeps draws uninit"
  unfolding keeps_def draws_def uninit_def by (auto intro: exI [of _ 0])

lemma RandomNumber_draws [keeps_intros]: "keeps draws (RandomNumber lo hi)"
  unfolding RandomNumber_def by (intro keeps_intros)

lemma NURand_draws [keeps_intros]: "keeps draws (NURand A x y)"
proof -
  have "keeps draws (modify (\<lambda>s. s\<lparr>nurand_first := False\<rparr>))"
    by (rule keeps_modify) (auto simp: draws_def intro: exI [of _ 0])
  then show ?thesis
    unfolding NURand_def nurand_constants_def
    by (intro keeps_intros) (auto simp: Let_def intro!: keeps_intros split: prod.split)
qed

lemma pick_chars_draws [keeps_intros]: "keeps draws (pick_chars tab arrmax n)"
  by (induction n) (auto intro!: keeps_intros)

lemma strings_draws [keeps_intros]:
  "keeps draws (MakeAlphaString x y)" "keeps draws (MakeNumberString x y)" "keeps draws (Lastname n)"
  unfolding MakeAlphaString_def MakeNumberString_def Lastname_def by (intro keeps_intros)+

lemma replicateM_draws [keeps_intros]: "keeps draws m \<Longrightarrow> keeps draws (replicateM n m)"
  by (induction n) (auto intro!: keeps_intros)

lemma parts_draws [keeps_intros]:
  "keeps draws MakeAddress" "keeps draws (hundredths lo hi)" "keeps draws (brand_original b data)"
  unfolding MakeAddress_def hundredths_def brand_original_def by (intro keeps_intros)+

lemma rows_draws [keeps_intros]:
  "keeps draws (item_row orig i)" "keeps draws (ware_row w)" "keeps draws (stock_row orig w i)"
  "keeps draws (district_row w d)" "keeps draws (customer_row ts d w c)"
  "keeps draws (history_row ts d w c)" "keeps draws (order_line_row ts d w oid ol)"
  unfolding item_row_def ware_row_def stock_row_def district_row_def customer_row_def
    history_row_def order_line_row_def Let_def
  by (intro keeps_intros)+

lemma marks_draws [keeps_intros]: "keeps draws (mark_originals fuel)"
proof -
  have "keeps draws (find_free fuel orig)" for orig :: "bool list"
    by (induction fuel) (auto intro!: keeps_intros)
  moreover have "keeps draws orig_start"
    unfolding keeps_def draws_def orig_start_def by (auto simp: Let_def intro: exI [of _ 0])
  ultimately show ?thesis
    unfolding mark_originals_def by (intro keeps_intros)
qed

section \<open>Lemmas: the rows\<close>

text \<open>The generators return, and what they return.\<close>

lemma succeeds_bnd_ok:
  assumes "succeeds m" and "\<And>s a t. m s = (Inr a, t) \<Longrightarrow> succeeds (f a)"
  shows "succeeds (bnd m f)"
  using assms unfolding succeeds_def by (metis bnd_Inr)

lemma succeeds_rd [succeeds_intros]: "0 \<le> i \<Longrightarrow> i < int (length xs) \<Longrightarrow> succeeds (rd xs i)"
  by (simp add: rd_def succeeds_ret)

lemma succeeds_RandomNumber [succeeds_intros]: "lo \<le> hi \<Longrightarrow> succeeds (RandomNumber lo hi)"
  by (simp add: succeeds_def RandomNumber_run)

lemma returns_True_succeeds: "returns (\<lambda>_. True) m Q \<Longrightarrow> succeeds m"
  unfolding returns_def succeeds_def by blast

lemma returns_True_ok: "returns (\<lambda>_. True) m Q \<Longrightarrow> m s = (Inr a, t) \<Longrightarrow> Q a t"
  by (drule returnsD [of _ _ _ s]) auto

lemma succeeds_strings [succeeds_intros]:
  "0 \<le> x \<Longrightarrow> x \<le> y \<Longrightarrow> succeeds (MakeAlphaString x y)"
  "0 \<le> x \<Longrightarrow> x \<le> y \<Longrightarrow> succeeds (MakeNumberString x y)"
  by (rule returns_True_succeeds, rule MakeAlphaString_returns MakeNumberString_returns; simp)+

lemma RandomNumber_range: "RandomNumber lo hi s = (Inr r, t) \<Longrightarrow> lo \<le> hi \<Longrightarrow> lo \<le> r \<and> r \<le> hi"
  by (drule RandomNumber_ok [rotated]) auto

lemma MakeAlphaString_ok: "MakeAlphaString x y s = (Inr cs, t) \<Longrightarrow> 0 \<le> x \<Longrightarrow> x \<le> y \<Longrightarrow>
    x \<le> int (length cs) \<and> int (length cs) \<le> y"
  by (drule returns_True_ok [rotated], rule MakeAlphaString_returns) auto

lemma MakeNumberString_ok: "MakeNumberString x y s = (Inr cs, t) \<Longrightarrow> 0 \<le> x \<Longrightarrow> x \<le> y \<Longrightarrow>
    x \<le> int (length cs) \<and> int (length cs) \<le> y"
  by (drule returns_True_ok [rotated], rule MakeNumberString_returns) auto

lemma NURand_255: "NURand 255 0 999 s = (Inr r, t) \<Longrightarrow> 0 \<le> r \<and> r \<le> 999"
  by (drule returns_True_ok [rotated], rule NURand_returns) auto

lemma succeeds_NURand [succeeds_intros]: "succeeds (NURand 255 0 999)"
  by (rule returns_True_succeeds, rule NURand_returns) auto

lemma succeeds_Lastname [succeeds_intros]: "0 \<le> n \<Longrightarrow> n \<le> 999 \<Longrightarrow> succeeds (Lastname n)"
  by (simp add: succeeds_def Lastname_run)

definition address_ok :: "string list \<Rightarrow> bool" where
  "address_ok xs \<longleftrightarrow> (\<exists>str1 str2 city state zip. xs = [str1, str2, city, state, zip] \<and>
     (\<forall>x \<in> {str1, str2, city}. 10 \<le> length x \<and> length x \<le> 20) \<and> length state = 2 \<and> length zip = 9)"

lemma MakeAddress_ok: "MakeAddress s = (Inr xs, t) \<Longrightarrow> address_ok xs"
  unfolding MakeAddress_def address_ok_def
  by (fastforce simp: bnd_ok dest!: MakeAlphaString_ok MakeNumberString_ok)

lemma succeeds_MakeAddress [succeeds_intros]: "succeeds MakeAddress"
  unfolding MakeAddress_def by (intro succeeds_intros) auto

lemma succeeds_hundredths [succeeds_intros]: "lo \<le> hi \<Longrightarrow> succeeds (hundredths lo hi)"
  unfolding hundredths_def by (intro succeeds_intros)

text \<open>A number of hundredths as the \<open>float\<close> computed for it.\<close>

definition is_hundredths :: "int \<Rightarrow> int \<Rightarrow> rat \<Rightarrow> bool" where
  "is_hundredths lo hi x \<longleftrightarrow> (\<exists>r. lo \<le> r \<and> r \<le> hi \<and> x = f32 (f64 (f32 (of_int r) / 100)))"

lemma hundredths_ok: "hundredths lo hi s = (Inr x, t) \<Longrightarrow> lo \<le> hi \<Longrightarrow> is_hundredths lo hi x"
  unfolding hundredths_def is_hundredths_def by (auto simp: bnd_ok dest!: RandomNumber_range)

lemma brand_original_ok:
  assumes "brand_original b data s = (Inr d, t)" and "8 \<le> length data"
  shows "length d = length data" and "b \<Longrightarrow> sublist ''original'' d"
proof -
  have "d = write_bytes (nat pos) ''original'' data \<Longrightarrow> 0 \<le> pos \<Longrightarrow> pos \<le> int (length data) - 8 \<Longrightarrow>
      length d = length data \<and> sublist ''original'' d" for pos
    by (auto simp: write_bytes_def sublist_def)
  with assms show "length d = length data" and "b \<Longrightarrow> sublist ''original'' d"
    by (auto simp: brand_original_def bnd_ok dest!: RandomNumber_range split: if_splits)
qed

lemma succeeds_brand_original [succeeds_intros]: "8 \<le> length data \<Longrightarrow> succeeds (brand_original b data)"
  unfolding brand_original_def by (intro succeeds_intros) simp

text \<open>
  The rows of the specification. Numbers and strings that the code draws at random are
  constrained to their ranges.
\<close>

definition item_ok :: "bool list \<Rightarrow> int \<Rightarrow> param list \<Rightarrow> bool" where
  "item_ok orig i_id ps \<longleftrightarrow> (\<exists>im name p data.
     ps = [PLong i_id, PLong im, PString name, PFloat (f32 (f64 (of_int p / 100))), PString data] \<and>
     1 \<le> im \<and> im \<le> 10000 \<and> 14 \<le> length name \<and> length name \<le> 24 \<and> 100 \<le> p \<and> p \<le> 10000 \<and>
     26 \<le> length data \<and> length data \<le> 50 \<and> (orig ! nat i_id \<longrightarrow> sublist ''original'' data))"

definition ware_ok :: "int \<Rightarrow> param list \<Rightarrow> bool" where
  "ware_ok w_id ps \<longleftrightarrow> (\<exists>name address tax. ps = [PLong w_id, PString name] @ map PString address @
       [PFloat tax, PFloat 3000000] \<and>
     6 \<le> length name \<and> length name \<le> 10 \<and> address_ok address \<and> is_hundredths 10 20 tax)"

definition stock_ok :: "bool list \<Rightarrow> int \<Rightarrow> int \<Rightarrow> param list \<Rightarrow> bool" where
  "stock_ok orig w_id i_id ps \<longleftrightarrow> (\<exists>n dists data.
     ps = [PLong i_id, PLong w_id, PLong n] @ map PString dists @ [PString data] \<and>
     10 \<le> n \<and> n \<le> 100 \<and> length dists = 10 \<and> (\<forall>x \<in> set dists. length x = 24) \<and>
     26 \<le> length data \<and> length data \<le> 50 \<and> (orig ! nat i_id \<longrightarrow> sublist ''original'' data))"

definition district_ok :: "int \<Rightarrow> int \<Rightarrow> param list \<Rightarrow> bool" where
  "district_ok w_id d_id ps \<longleftrightarrow> (\<exists>name address tax.
     ps = [PLong d_id, PLong w_id, PString name] @ map PString address @
       [PFloat tax, PFloat 30000, PLong 3001] \<and>
     6 \<le> length name \<and> length name \<le> 10 \<and> address_ok address \<and> is_hundredths 10 20 tax)"

definition customer_ok :: "string \<Rightarrow> int \<Rightarrow> int \<Rightarrow> int \<Rightarrow> param list \<Rightarrow> bool" where
  "customer_ok tstamp d_id w_id c_id ps \<longleftrightarrow> (\<exists>first name n address phone credit disc data.
     ps = [PLong c_id, PLong d_id, PLong w_id, PString first, PString ''OE'', PString name] @
       map PString address @ [PString phone, PString tstamp, PString credit, PLong 50000,
       PFloat disc, PFloat (- 10), PString data] \<and>
     8 \<le> length first \<and> length first \<le> 16 \<and> 0 \<le> n \<and> n \<le> 999 \<and>
     fst (Lastname n ()) = Inr name \<and> (c_id \<le> 1000 \<longrightarrow> n = c_id - 1) \<and> address_ok address \<and>
     length phone = 16 \<and> credit \<in> {''GC'', ''BC''} \<and> is_hundredths 0 50 disc \<and>
     300 \<le> length data \<and> length data \<le> 500)"

definition history_ok :: "string \<Rightarrow> int \<Rightarrow> int \<Rightarrow> int \<Rightarrow> param list \<Rightarrow> bool" where
  "history_ok tstamp d_id w_id c_id ps \<longleftrightarrow> (\<exists>data.
     ps = [PLong c_id, PLong d_id, PLong w_id, PLong d_id, PLong w_id, PString tstamp,
       PFloat 10, PString data] \<and> 12 \<le> length data \<and> length data \<le> 24)"

definition line_ok :: "string \<Rightarrow> int \<Rightarrow> int \<Rightarrow> int \<Rightarrow> int \<Rightarrow> nat \<times> param list \<Rightarrow> bool" where
  "line_ok tstamp d_id w_id o_id ol st \<longleftrightarrow> (\<exists>i_id dist amount.
     st = (if o_id > 2100
       then (9, [PLong o_id, PLong d_id, PLong w_id, PLong ol, PLong i_id, PLong w_id,
                 PLong 5, PFloat 0, PString dist])
       else (10, [PLong o_id, PLong d_id, PLong w_id, PLong ol, PLong i_id, PLong w_id,
                  PString tstamp, PLong 5, PFloat amount, PString dist])) \<and>
     1 \<le> i_id \<and> i_id \<le> MAXITEMS \<and> length dist = 24 \<and> is_hundredths 10 10000 amount)"

lemma replicateM_ok:
  assumes "replicateM n m s = (Inr xs, t)" and "\<And>s a t. m s = (Inr a, t) \<Longrightarrow> V a"
  shows "length xs = n \<and> (\<forall>x \<in> set xs. V x)"
  using assms(1)
proof (induction n arbitrary: s xs)
  case (Suc n)
  from Suc.prems obtain a u ys v where "m s = (Inr a, u)" "replicateM n m u = (Inr ys, v)" "xs = a # ys"
    by (auto simp: bnd_ok)
  with Suc.IH [of u ys] Suc.prems assms(2) show ?case by (auto simp: bnd_ok)
qed auto

lemma succeeds_replicateM [succeeds_intros]: "succeeds m \<Longrightarrow> succeeds (replicateM n m)"
  by (induction n) (auto intro!: succeeds_intros)

lemma item_row_ok:
  assumes "item_row orig i s = (Inr ps, t)"
  shows "item_ok orig i ps"
proof -
  from assms obtain im name p data s1 s2 s3 s4 s5 where
    "RandomNumber 1 10000 s = (Inr im, s1)" "MakeAlphaString 14 24 s1 = (Inr name, s2)"
    "RandomNumber 100 10000 s2 = (Inr p, s3)" "MakeAlphaString 26 50 s3 = (Inr data, s4)" and
    brand: "\<exists>d. brand_original (orig ! nat i) data s4 = (Inr d, s5) \<and>
      ps = [PLong i, PLong im, PString name, PFloat (f32 (f64 (of_int p / 100))), PString d]"
    by (auto simp: item_row_def bnd_ok rd_ok Let_def)
  then have b: "1 \<le> im" "im \<le> 10000" "14 \<le> length name" "length name \<le> 24" "100 \<le> p" "p \<le> 10000"
    "26 \<le> length data" "length data \<le> 50"
    by (auto dest!: RandomNumber_range MakeAlphaString_ok)
  from brand obtain d where d: "brand_original (orig ! nat i) data s4 = (Inr d, s5)"
    "ps = [PLong i, PLong im, PString name, PFloat (f32 (f64 (of_int p / 100))), PString d]" by blast
  with brand_original_ok [OF d(1)] b show ?thesis unfolding item_ok_def by auto
qed

lemma ware_row_ok: "ware_row w s = (Inr ps, t) \<Longrightarrow> ware_ok w ps"
  unfolding ware_row_def ware_ok_def Let_def
  by (fastforce simp: bnd_ok dest!: MakeAlphaString_ok MakeAddress_ok hundredths_ok)

lemma district_row_ok: "district_row w d s = (Inr ps, t) \<Longrightarrow> district_ok w d ps"
  unfolding district_row_def district_ok_def Let_def
  by (fastforce simp: bnd_ok dest!: MakeAlphaString_ok MakeAddress_ok hundredths_ok)

lemma history_row_ok: "history_row ts d w c s = (Inr ps, t) \<Longrightarrow> history_ok ts d w c ps"
  unfolding history_row_def history_ok_def Let_def
  by (fastforce simp: bnd_ok dest!: MakeAlphaString_ok)

lemma order_line_row_ok: "order_line_row ts d w oid ol s = (Inr st, t) \<Longrightarrow> line_ok ts d w oid ol st"
  unfolding order_line_row_def line_ok_def
  by (fastforce simp: bnd_ok dest!: MakeAlphaString_ok RandomNumber_range hundredths_ok
      simp: MAXITEMS_def)

lemma stock_row_ok:
  assumes "stock_row orig w i s = (Inr ps, t)"
  shows "stock_ok orig w i ps"
proof -
  from assms obtain n dists data d s1 s2 s3 s4 where
    n: "RandomNumber 10 100 s = (Inr n, s1)" and
    dists: "replicateM 10 (MakeAlphaString 24 24) s1 = (Inr dists, s2)" and
    data: "MakeAlphaString 26 50 s2 = (Inr data, s3)" and
    d: "brand_original (orig ! nat i) data s3 = (Inr d, s4)" and
    ps: "ps = [PLong i, PLong w, PLong n] @ map PString dists @ [PString d]"
    by (auto simp: stock_row_def bnd_ok rd_ok)
  have "length dists = 10 \<and> (\<forall>x \<in> set dists. length x = 24)"
    by (rule replicateM_ok [OF dists]) (auto dest!: MakeAlphaString_ok)
  moreover from n have "10 \<le> n \<and> n \<le> 100" by (auto dest!: RandomNumber_range)
  moreover from data have "26 \<le> length data \<and> length data \<le> 50" by (auto dest!: MakeAlphaString_ok)
  moreover from this brand_original_ok [OF d]
  have "length d = length data" "orig ! nat i \<longrightarrow> sublist ''original'' d" by auto
  ultimately show ?thesis unfolding stock_ok_def ps by auto
qed

lemma Lastname_any: "Lastname n s = (Inr name, t) \<Longrightarrow> fst (Lastname n ()) = Inr name"
  by (auto simp: Lastname_def bnd_ok rd_ok) (auto simp: bnd_def ret_eq rd_def)

lemma customer_row_ok:
  assumes "customer_row ts d w c s = (Inr ps, t)" and "1 \<le> c"
  shows "customer_ok ts d w c ps"
proof -
  from assms(1) obtain first name address phone r disc data s1 s2 s3 s4 s5 s6 where
    run: "MakeAlphaString 8 16 s = (Inr first, s1)"
    "MakeAddress s2 = (Inr address, s3)" "MakeNumberString 16 16 s3 = (Inr phone, s4)"
    "RandomNumber 0 1 s4 = (Inr r, s5)" "hundredths 0 50 s5 = (Inr disc, s6)"
    "MakeAlphaString 300 500 s6 = (Inr data, t)" and
    name: "(if c \<le> 1000 then Lastname (c - 1) else bnd (NURand 255 0 999) Lastname) s1 = (Inr name, s2)" and
    ps: "ps = [PLong c, PLong d, PLong w, PString first, PString ''OE'', PString name] @
       map PString address @ [PString phone, PString ts, PString (if r \<noteq> 0 then ''GC'' else ''BC''),
       PLong 50000, PFloat disc, PFloat (- 10), PString data]"
    by (auto simp: customer_row_def bnd_ok Let_def)
  have "\<exists>n. 0 \<le> n \<and> n \<le> 999 \<and> fst (Lastname n ()) = Inr name \<and> (c \<le> 1000 \<longrightarrow> n = c - 1)"
  proof (cases "c \<le> 1000")
    case True
    with name Lastname_any [of "c - 1" s1 name s2] assms(2) show ?thesis
      by (intro exI [of _ "c - 1"]) auto
  next
    case False
    with name obtain n u where "NURand 255 0 999 s1 = (Inr n, u)" "Lastname n u = (Inr name, s2)"
      by (auto simp: bnd_ok)
    with False show ?thesis
      by (intro exI [of _ n]) (auto dest!: NURand_255 dest: Lastname_any)
  qed
  then obtain n where n: "0 \<le> n" "n \<le> 999" "fst (Lastname n ()) = Inr name" "c \<le> 1000 \<longrightarrow> n = c - 1"
    by blast
  from run have b: "8 \<le> length first" "length first \<le> 16" "address_ok address" "length phone = 16"
    "is_hundredths 0 50 disc" "300 \<le> length data" "length data \<le> 500"
    by (auto dest!: MakeAlphaString_ok MakeNumberString_ok hundredths_ok dest: MakeAddress_ok)
  show ?thesis
    unfolding customer_ok_def ps
    by (rule exI [of _ first], rule exI [of _ name], rule exI [of _ n], rule exI [of _ address],
      rule exI [of _ phone], rule exI [of _ "if r \<noteq> 0 then ''GC'' else ''BC''"],
      rule exI [of _ disc], rule exI [of _ data]) (use n b in simp)
qed

lemma succeeds_rows [succeeds_intros]:
  "0 \<le> i \<Longrightarrow> i < int (length orig) \<Longrightarrow> succeeds (item_row orig i)"
  "0 \<le> i \<Longrightarrow> i < int (length orig) \<Longrightarrow> succeeds (stock_row orig w i)"
  "succeeds (ware_row w)" "succeeds (district_row w d)" "succeeds (history_row ts d w c)"
  "succeeds (order_line_row ts d w oid ol)"
  unfolding item_row_def stock_row_def ware_row_def district_row_def history_row_def
    order_line_row_def Let_def
  by (intro succeeds_intros succeeds_bnd_ok; auto dest!: MakeAlphaString_ok simp: MAXITEMS_def)+

lemma succeeds_customer_row [succeeds_intros]: "1 \<le> c \<Longrightarrow> succeeds (customer_row ts d w c)"
  unfolding customer_row_def Let_def
  by (intro succeeds_intros succeeds_bnd_ok; auto intro!: succeeds_intros dest!: NURand_255)

section \<open>Lemmas: inserting\<close>

text \<open>Conditions on the state that neither the generators nor the calls can change.\<close>

definition stable :: "(('s, 'z) db_scheme \<Rightarrow> bool) \<Rightarrow> bool" where
  "stable P \<longleftrightarrow> (\<forall>s t. P s \<longrightarrow> draws s t \<longrightarrow> P t) \<and> (\<forall>s w l. P s \<longrightarrow> P (s\<lparr>srv := w, log := l\<rparr>))"

lemma stable_True: "stable (\<lambda>_. True)"
  by (simp add: stable_def)

lemma draws_db:
  fixes s :: "('s, 'z) db_scheme"
  assumes "draws s t"
  shows "log t = log s" and "db.more t = db.more s" and "srv t = srv s"
proof -
  from assms have t: "t = s\<lparr>rng := rng t, garbage := garbage t, nurand_first := nurand_first t\<rparr>"
    by (simp add: draws_def)
  show "log t = log s" using arg_cong [where f = log, OF t] by simp
  show "db.more t = db.more s" using arg_cong [where f = db.more, OF t] by simp
  show "srv t = srv s" using arg_cong [where f = srv, OF t] by simp
qed

lemma does_generate:
  fixes m :: "(('s, 'z) db_scheme, 'a) cm"
  assumes "succeeds m" and "keeps draws m" and "\<And>s a t. m s = (Inr a, t) \<Longrightarrow> V a" and "stable P"
  shows "does P m (\<lambda>a sts s. sts = [] \<and> V a \<and> P s)"
proof (rule doesI)
  fix s :: "('s, 'z) db_scheme"
  assume P: "P s"
  from assms(1) obtain a t where run: "m s = (Inr a, t)" unfolding succeeds_def by blast
  have d: "draws s t" using keepsD [OF assms(2) run] .
  with assms(4) P have "P t" unfolding stable_def by blast
  with run assms(3) draws_db [OF d]
  show "\<exists>r t es. m s = (r, t) \<and> db.more t = db.more s \<and> log t = log s @ es \<and>
    ended (\<lambda>a sts. sts = [] \<and> V a \<and> P t) r es"
    by (intro exI [of _ "Inr a"] exI [of _ t] exI [of _ "[]"]) simp
qed

lemma insert_row_run:
  assumes "M 0 (BindParam k ps) (srv s) = (rc, r, w)" and "M 0 (Execute k) w = (rc', r', w')"
    and "M 0 Rollback w' = (rc'', r'', w'')"
  shows "insert_row M k ps s =
    (if rc \<noteq> 0 then (Inl (Goto Sqlerr), s\<lparr>srv := w, log := log s @ [Call 0 (BindParam k ps) rc r]\<rparr>)
     else if rc' \<noteq> 0 then (Inl (Goto Retry), s\<lparr>srv := w'', log := log s @
       [Call 0 (BindParam k ps) rc r, Call 0 (Execute k) rc' r', MysqlError 0, Call 0 Rollback rc'' r'']\<rparr>)
     else (Inr (), s\<lparr>srv := w', log := log s @
       [Call 0 (BindParam k ps) rc r, Call 0 (Execute k) rc' r']\<rparr>))"
  using assms
  by (simp add: insert_row_def checked_def try_stmt_execute_def sql_def emit_def bnd_def thn_def
      ret_eq halt_eq)

lemma insert_adds: "adds [(k, ps)] [Call 0 (BindParam k ps) 0 r, Call 0 (Execute k) 0 r']"
  by (simp add: adds_def)

lemma bind_keeps: "keeps_rows [Call 0 (BindParam k ps) rc r]"
  by (simp add: keeps_rows_def)

lemma insert_drops: "rc \<noteq> 0 \<Longrightarrow> drops [Call 0 (BindParam k ps) rc' r',
    Call 0 (Execute k) rc r, MysqlError 0, Call 0 Rollback rc'' r'']"
  by (simp add: drops_def)

lemma does_insert_row:
  fixes M :: "'s server" and P :: "('s, 'z) db_scheme \<Rightarrow> bool"
  assumes "stable P"
  shows "does P (insert_row M k ps) (\<lambda>_ sts s. sts = [(k, ps)] \<and> P s)"
proof (rule doesI)
  fix s :: "('s, 'z) db_scheme"
  assume P: "P s"
  have P': "P (s\<lparr>srv := w, log := l\<rparr>)" for w l using assms P by (simp add: stable_def)
  obtain rc r w where 1: "M 0 (BindParam k ps) (srv s) = (rc, r, w)" by (metis prod.collapse)
  obtain rc' r' w' where 2: "M 0 (Execute k) w = (rc', r', w')" by (metis prod.collapse)
  obtain rc'' r'' w'' where 3: "M 0 Rollback w' = (rc'', r'', w'')" by (metis prod.collapse)
  show "\<exists>r t es. insert_row M k ps s = (r, t) \<and> db.more t = db.more s \<and> log t = log s @ es \<and>
    ended (\<lambda>a sts. sts = [(k, ps)] \<and> P t) r es"
    unfolding insert_row_run [of M, OF 1 2 3]
    using P' insert_adds [of k ps r r'] insert_drops [of rc' k ps 0 r r' rc'' r'']
      bind_keeps [of k ps rc r]
    by simp
qed

text \<open>A row that is generated and inserted.\<close>

lemma does_row:
  fixes M :: "'s server" and row :: "(('s, 'z) db_scheme, param list) cm"
  assumes "succeeds row" and "keeps draws row" and "\<And>s ps t. row s = (Inr ps, t) \<Longrightarrow> V ps"
    and "stable P"
  shows "does P (bnd row (insert_row M k)) (\<lambda>_ sts s. (\<exists>ps. sts = [(k, ps)] \<and> V ps) \<and> P s)"
proof (rule does_bnd [OF does_generate [OF assms]])
  fix ps sts
  show "does (\<lambda>s. sts = [] \<and> V ps \<and> P s) (insert_row M k ps)
    (\<lambda>_ sts' s. (\<exists>ps. sts @ sts' = [(k, ps)] \<and> V ps) \<and> P s)"
    by (rule does_pure, rule does_pure, rule does_conseq [OF does_insert_row [OF assms(4)]]) auto
qed

text \<open>The errors of \<open>Stock\<close> and \<open>District\<close>, turned into the jump to \<open>retry\<close> of their caller.\<close>

definition or_retry :: "('st, int) cm \<Rightarrow> ('st, unit) cm" where
  "or_retry m = bnd m (\<lambda>error. if error \<noteq> 0 then halt (Goto Retry) else ret ())"

lemma bnd_assoc: "bnd (bnd m f) g = bnd m (\<lambda>a. bnd (f a) g)"
  by (rule ext) (auto simp: bnd_def split: prod.splits sum.splits)

lemma thn_assoc: "thn (thn m k) l = thn m (thn k l)" "bnd (thn m k) g = thn m (bnd k g)"
  "thn (bnd m f) l = bnd m (\<lambda>a. thn (f a) l)"
  by (simp_all add: thn_def bnd_assoc)

lemma or_retry_rows:
  "or_retry (rows_loop M k row js) = cfor js (\<lambda>i. bnd (row i) (insert_row M k))"
proof (induction js)
  case Nil
  show ?case by (simp add: or_retry_def)
next
  case (Cons j js)
  have *: "bnd (if error \<noteq> 0 then ret error else rows_loop M k row js)
      (\<lambda>error. if error \<noteq> 0 then halt (Goto Retry) else ret ()) =
    thn (if error \<noteq> 0 then halt (Goto Retry) else ret ()) (cfor js (\<lambda>i. bnd (row i) (insert_row M k)))"
    for error
    using Cons.IH [unfolded or_retry_def] by (cases "error = 0") auto
  show ?case
    unfolding or_retry_def rows_loop.simps cfor.simps insert_row_def
    by (simp add: bnd_assoc thn_assoc * [unfolded insert_row_def])
qed

lemma Error_halts: "bnd (Error M b) f = Error M b"
  by (simp add: Error_def thn_assoc)

lemma or_retry_at_sqlerr: "or_retry (at_sqlerr M b m) = at_sqlerr M b (or_retry m)"
proof (rule ext)
  fix s
  show "or_retry (at_sqlerr M b m) s = at_sqlerr M b (or_retry m) s"
  proof (cases "m s")
    case (Pair r t)
    have "bnd (Error M b) f t = Error M b t" for f by (simp add: Error_halts)
    with Pair show ?thesis
      by (cases r) (auto simp: or_retry_def at_sqlerr_def handle_def bnd_def halt_eq ret_eq)
  qed
qed

lemma or_retry_Stock:
  "or_retry (Stock M fuel w_id) = at_sqlerr M False (bnd (mark_originals fuel) (\<lambda>orig.
     cfor [1..MAXITEMS] (\<lambda>i. bnd (stock_row orig w_id i) (insert_row M 2))))"
  unfolding Stock_def or_retry_at_sqlerr
  by (simp add: or_retry_def bnd_assoc or_retry_rows [unfolded or_retry_def])

lemma or_retry_District:
  "or_retry (District M w_id) = at_sqlerr M False
     (cfor [1..DIST_PER_WARE] (\<lambda>d. bnd (district_row w_id d) (insert_row M 3)))"
  unfolding District_def or_retry_at_sqlerr or_retry_rows ..

lemma ware_pass_eq:
  "ware_pass M fuel w_id =
     thn (bnd (ware_row w_id) (insert_row M 1))
    (thn (at_sqlerr M False (bnd (mark_originals fuel) (\<lambda>orig.
        cfor [1..MAXITEMS] (\<lambda>i. bnd (stock_row orig w_id i) (insert_row M 2)))))
      (at_sqlerr M False (cfor [1..DIST_PER_WARE] (\<lambda>d. bnd (district_row w_id d) (insert_row M 3)))))"
  unfolding ware_pass_def or_retry_def [symmetric] or_retry_Stock or_retry_District ..

section \<open>Lemmas: the original items\<close>

definition marks :: "bool list \<Rightarrow> nat" where
  "marks orig = length (filter id orig)"

lemma length_orig_start: "orig_start s = (Inr orig, t) \<Longrightarrow> int (length orig) = MAXITEMS + 1"
  by (auto simp: orig_start_def Let_def MAXITEMS_def)

lemma find_free_ok:
  assumes "find_free fuel orig s = (Inr pos, t)"
  shows "0 \<le> pos \<and> pos < int (length orig) \<and> \<not> orig ! nat pos"
  using assms by (induction fuel arbitrary: s) (auto simp: bnd_ok rd_ok split: if_splits)

lemma find_free_stop:
  assumes "find_free fuel orig s = (Inl e, t)" and "int (length orig) = MAXITEMS + 1"
  shows "e = OutOfFuel"
  using assms(1)
proof (induction fuel arbitrary: s)
  case (Suc fuel)
  have "RandomNumber 0 MAXITEMS s = (Inr pos, u) \<Longrightarrow> rd orig pos u = (Inr (orig ! nat pos), u)" for pos u
    using RandomNumber_range [of 0 MAXITEMS s pos u] assms(2) by (auto simp: rd_def MAXITEMS_def ret_eq)
  with Suc show ?case
    by (auto simp: bnd_stop RandomNumber_run MAXITEMS_def split: if_splits)
qed auto

lemma marks_update: "i < length orig \<Longrightarrow> \<not> orig ! i \<Longrightarrow> marks (orig[i := True]) = Suc (marks orig)"
  unfolding marks_def by (induction orig arbitrary: i) (auto split: nat.split)

definition mark_one :: "nat \<Rightarrow> bool list \<Rightarrow> ('z support_scheme, bool list) cm" where
  "mark_one fuel orig = bnd (find_free fuel orig) (\<lambda>pos. ret (orig[nat pos := True]))"

lemma mark_one_ok:
  assumes "mark_one fuel orig s = (Inr orig', t)"
  shows "length orig' = length orig \<and> marks orig' = Suc (marks orig) \<and>
    (\<forall>i < length orig. orig ! i \<longrightarrow> orig' ! i)"
proof -
  from assms obtain pos where pos: "0 \<le> pos" "pos < int (length orig)" "\<not> orig ! nat pos"
    "orig' = orig[nat pos := True]"
    unfolding mark_one_def by (auto simp: bnd_ok dest: find_free_ok)
  moreover from this have "nat pos < length orig" by simp
  ultimately show ?thesis by (auto simp: marks_update nth_list_update)
qed

lemma mark_loop_ok:
  "cfold js (\<lambda>_. mark_one fuel) orig s = (Inr orig', t) \<Longrightarrow>
   length orig' = length orig \<and> marks orig' = marks orig + length js \<and>
     (\<forall>i < length orig. orig ! i \<longrightarrow> orig' ! i)"
proof (induction js arbitrary: orig s)
  case (Cons j js)
  from Cons.prems obtain o1 s1 where "mark_one fuel orig s = (Inr o1, s1)"
    "cfold js (\<lambda>_. mark_one fuel) o1 s1 = (Inr orig', t)" by (auto simp: bnd_ok)
  with Cons.IH [of o1 s1] mark_one_ok [of fuel orig s o1 s1] show ?case by auto
qed auto

lemma mark_loop_stop:
  assumes "cfold js (\<lambda>_. mark_one fuel) orig s = (Inl e, t)" and "int (length orig) = MAXITEMS + 1"
  shows "e = OutOfFuel"
  using assms
proof (induction js arbitrary: orig s)
  case (Cons j js)
  from Cons.prems(1) consider "mark_one fuel orig s = (Inl e, t)"
    | o1 s1 where "mark_one fuel orig s = (Inr o1, s1)" "cfold js (\<lambda>_. mark_one fuel) o1 s1 = (Inl e, t)"
    by (auto simp: bnd_stop)
  then show ?case
  proof cases
    case 1
    with Cons.prems(2) show ?thesis by (auto simp: mark_one_def bnd_stop dest: find_free_stop)
  next
    case 2
    with Cons.IH [of o1 s1] Cons.prems(2) mark_one_ok [of fuel orig s o1 s1] show ?thesis by simp
  qed
qed auto

lemma mark_originals_eq: "mark_originals fuel = bnd orig_start
    (cfold [0..MAXITEMS sdiv 10 - 1] (\<lambda>_. mark_one fuel))"
  by (simp add: mark_originals_def mark_one_def [abs_def])

lemma tenth_of_items: "length [0..MAXITEMS sdiv 10 - 1] = 10000"
  by (simp add: MAXITEMS_def)

lemma mark_originals_ok:
  assumes "mark_originals fuel s = (Inr orig, t)"
  obtains start u where "orig_start s = (Inr start, u)" "int (length orig) = MAXITEMS + 1"
    "marks orig = marks start + 10000" "\<forall>i < length start. start ! i \<longrightarrow> orig ! i"
proof -
  from assms obtain start u where u: "orig_start s = (Inr start, u)"
    "cfold [0..MAXITEMS sdiv 10 - 1] (\<lambda>_. mark_one fuel) start u = (Inr orig, t)"
    by (auto simp: mark_originals_eq bnd_ok)
  from mark_loop_ok [OF u(2)] length_orig_start [OF u(1)] that [OF u(1)] show thesis
    unfolding tenth_of_items by simp
qed

lemma mark_originals_stop: "mark_originals fuel s = (Inl e, t) \<Longrightarrow> e = OutOfFuel"
  by (auto simp: mark_originals_eq bnd_stop dest!: mark_loop_stop length_orig_start)
    (auto simp: orig_start_def Let_def)

definition original_marks :: "bool list \<Rightarrow> bool" where
  "original_marks orig \<longleftrightarrow> int (length orig) = MAXITEMS + 1 \<and> 10000 \<le> marks orig"

lemma does_marks:
  fixes P :: "('s, 'z) db_scheme \<Rightarrow> bool"
  assumes "stable P"
  shows "does P (mark_originals fuel) (\<lambda>orig sts s. sts = [] \<and> original_marks orig \<and> P s)"
proof (rule doesI)
  fix s :: "('s, 'z) db_scheme"
  assume P: "P s"
  obtain r t where run: "mark_originals fuel s = (r, t)" by (cases "mark_originals fuel s")
  have d: "draws s t" by (rule keepsD [OF marks_draws run])
  with assms P have "P t" unfolding stable_def by blast
  with run draws_db [OF d]
  show "\<exists>r t es. mark_originals fuel s = (r, t) \<and> db.more t = db.more s \<and> log t = log s @ es \<and>
    ended (\<lambda>orig sts. sts = [] \<and> original_marks orig \<and> P t) r es"
    by (cases r) (auto intro!: exI [of _ "[]"] simp: keeps_rows_def original_marks_def
      dest: mark_originals_stop elim: mark_originals_ok)
qed

section \<open>Lemmas: batches\<close>

lemma Error_run:
  fixes s :: "('s, 'z) db_scheme"
  shows "\<exists>t es. (Error M b :: (('s, 'z) db_scheme, 'a) cm) s = (Inl (Exit (- 1)), t) \<and>
    db.more t = db.more s \<and> log t = log s @ es \<and> closed_down es \<and> keeps_rows es"
proof -
  obtain rc r w where 1: "M 0 Rollback (srv s) = (rc, r, w)" by (metis prod.collapse)
  obtain rc' r' w' where 2: "M 0 Close w = (rc', r', w')" by (metis prod.collapse)
  let ?d = "if b then [Diag ''statement'' []] else []"
  let ?es = "?d @ [MysqlError 0, Call 0 Rollback rc r, Call 0 Close rc' r']"
  have "(Error M b :: (('s, 'z) db_scheme, 'a) cm) s =
      (Inl (Exit (- 1)), s\<lparr>srv := w', log := log s @ ?es\<rparr>)"
    using 1 2 by (simp add: Error_def emit_def sql_def run_simps)
  moreover have "closed_down ?es" unfolding closed_down_def by blast
  moreover have "keeps_rows ?es" by (simp add: keeps_rows_def)
  ultimately show ?thesis by (intro exI [of _ "s\<lparr>srv := w', log := log s @ ?es\<rparr>"]) auto
qed

lemma at_sqlerr_run:
  fixes m :: "(('s, 'z) db_scheme, 'a) cm"
  assumes "m s = (r, t)" and "log t = log s @ es" and "db.more t = db.more s"
  shows "r \<noteq> Inl (Goto Sqlerr) \<and> at_sqlerr M b m s = (r, t) \<or>
    r = Inl (Goto Sqlerr) \<and> (\<exists>u es'. at_sqlerr M b m s = (Inl (Exit (- 1)), u) \<and>
      db.more u = db.more s \<and> log u = log s @ es @ es' \<and> closed_down es' \<and> keeps_rows es')"
proof (cases "r = Inl (Goto Sqlerr)")
  case False
  with assms(1) show ?thesis by (cases r) (auto simp: at_sqlerr_def handle_def halt_eq)
next
  case True
  obtain u es' where "(Error M b :: (('s, 'z) db_scheme, 'a) cm) t = (Inl (Exit (- 1)), u)" "db.more u = db.more t"
    "log u = log t @ es'" "closed_down es'" "keeps_rows es'"
    using Error_run [of M b t] by blast
  with True assms show ?thesis by (auto simp: at_sqlerr_def handle_def)
qed

lemma keeps_rows_append: "keeps_rows es \<Longrightarrow> keeps_rows es' \<Longrightarrow> keeps_rows (es @ es')"
  unfolding keeps_rows_def by (metis after_log_simps(3))

lemma does_at_sqlerr:
  fixes m :: "(('s, 'z) db_scheme, 'a) cm"
  assumes "does P m Q"
  shows "does P (at_sqlerr M b m) Q"
proof (rule doesI)
  fix s :: "('s, 'z) db_scheme"
  assume P: "P s"
  obtain r t where r: "m s = (r, t)" by (cases "m s")
  from does_run [OF assms P r] obtain es where
    1: "db.more t = db.more s" "log t = log s @ es" "ended (\<lambda>a sts. Q a sts t) r es" .
  from at_sqlerr_run [where m = m and s = s and M = M and b = b, OF r 1(2,1)]
  show "\<exists>r t es. at_sqlerr M b m s = (r, t) \<and> db.more t = db.more s \<and> log t = log s @ es \<and>
    ended (\<lambda>a sts. Q a sts t) r es"
  proof (elim disjE conjE exE)
    assume "at_sqlerr M b m s = (r, t)"
    with 1 show ?thesis by blast
  next
    fix u es'
    assume "r = Inl (Goto Sqlerr)" "at_sqlerr M b m s = (Inl (Exit (- 1)), u)"
      "db.more u = db.more s" "log u = log s @ es @ es'" "closed_down es'" "keeps_rows es'"
    with 1(3) show ?thesis
      by (intro exI [of _ "Inl (Exit (- 1))"] exI [of _ u] exI [of _ "es @ es'"])
        (auto simp: stopped_def intro: closed_down_append keeps_rows_append)
  qed
qed

lemma saves_at_sqlerr:
  fixes m :: "(('s, 'z) db_scheme, 'a) cm"
  assumes "saves z m Q E"
  shows "saves z (at_sqlerr M b m) Q E"
proof (rule savesI)
  fix s :: "('s, 'z) db_scheme"
  assume z: "db.more s = z"
  obtain r t where r: "m s = (r, t)" by (cases "m s")
  from saves_run [OF assms z r] obtain es where
    1: "db.more t = z" "log t = log s @ es" "settled Q E r es" .
  have "db.more t = db.more s" using 1(1) z by simp
  from at_sqlerr_run [where m = m and s = s and M = M and b = b, OF r 1(2) this]
  show "\<exists>r t es. at_sqlerr M b m s = (r, t) \<and> db.more t = z \<and> log t = log s @ es \<and> settled Q E r es"
  proof (elim disjE conjE exE)
    assume "at_sqlerr M b m s = (r, t)"
    with 1 show ?thesis by blast
  next
    fix u es'
    assume "r = Inl (Goto Sqlerr)" "at_sqlerr M b m s = (Inl (Exit (- 1)), u)"
      "db.more u = db.more s" "log u = log s @ es @ es'" "closed_down es'" "keeps_rows es'"
    with 1(3) z show ?thesis
      by (intro exI [of _ "Inl (Exit (- 1))"] exI [of _ u] exI [of _ "es @ es'"])
        (auto simp: stopped_def intro: closed_down_append leaves_keeps)
  qed
qed

text \<open>
  The rounds of \<open>retrying\<close>: every round but the last has been rolled back, so the statements
  that remain are those of one round.
\<close>

definition pends :: "stmts \<Rightarrow> event list \<Rightarrow> bool" where
  "pends sts es \<longleftrightarrow> (\<forall>c b. \<exists>b'. after_log es (c, [], b) = (c, sts, b'))"

lemma adds_pends: "adds sts es \<Longrightarrow> pends sts es"
  unfolding adds_def pends_def by (metis append_Nil)

lemma drops_pends: "drops es \<Longrightarrow> pends sts es' \<Longrightarrow> pends sts (es @ es')"
  unfolding drops_def pends_def by (metis after_log_simps(3))

lemma drops_leaves: "drops es \<Longrightarrow> leaves sts es' \<Longrightarrow> leaves sts (es @ es')"
  unfolding drops_def leaves_def by (metis after_log_simps(3))

lemma pends_commit: "pends sts es \<Longrightarrow> lands sts (es @ [Call t Commit 0 r])"
  unfolding pends_def lands_def by (metis after_log_simps perform.simps(3))

lemma pends_leaves: "pends sts es \<Longrightarrow> keeps_rows es' \<Longrightarrow> leaves [] (es @ es')"
  unfolding pends_def keeps_rows_def leaves_def by (metis after_log_simps(3) append_Nil2)

lemma retrying_run:
  fixes m :: "(('s, 'z) db_scheme, 'a) cm"
  assumes "does (\<lambda>s. db.more s = z) m (\<lambda>a sts _. W a sts)" and "db.more s = z"
  shows "\<exists>r t es. retrying fuel m s = (r, t) \<and> db.more t = z \<and> log t = log s @ es \<and>
    (case r of Inr a \<Rightarrow> \<exists>sts. pends sts es \<and> W a sts | Inl e \<Rightarrow> stopped e es \<and> leaves [] es)"
  using assms(2)
proof (induction fuel arbitrary: s)
  case 0
  then show ?case
    by (intro exI [of _ "Inl OutOfFuel"] exI [of _ s] exI [of _ "[]"])
      (simp add: halt_eq lands_is_leaves)
next
  case (Suc fuel)
  obtain r t where r: "m s = (r, t)" by (cases "m s")
  from does_run [OF assms(1) Suc.prems r] obtain es where
    1: "db.more t = db.more s" "log t = log s @ es" "ended (\<lambda>a sts. W a sts) r es" .
  show ?case
  proof (cases "r = Inl (Goto Retry)")
    case True
    with 1 Suc.prems Suc.IH [of t] obtain r' t' es' where
      2: "retrying fuel m t = (r', t')" "db.more t' = z" "log t' = log t @ es'"
      "case r' of Inr a \<Rightarrow> \<exists>sts. pends sts es' \<and> W a sts | Inl e \<Rightarrow> stopped e es' \<and> leaves [] es'"
      by auto
    from True 1 have "drops es" by simp
    with 2(4) have "case r' of Inr a \<Rightarrow> \<exists>sts. pends sts (es @ es') \<and> W a sts
        | Inl e \<Rightarrow> stopped e (es @ es') \<and> leaves [] (es @ es')"
      by (auto split: sum.splits intro: drops_pends drops_leaves stopped_append)
    with True r 1 2 show ?thesis
      by (intro exI [of _ r'] exI [of _ t'] exI [of _ "es @ es'"]) (simp add: handle_def)
  next
    case False
    with 1(3) have "case r of Inr a \<Rightarrow> \<exists>sts. pends sts es \<and> W a sts
        | Inl e \<Rightarrow> stopped e es \<and> leaves [] es"
      by (auto simp: ended_def split: sum.splits intro: adds_pends keeps_rows_leaves)
    with False r 1 Suc.prems show ?thesis
      by (intro exI [of _ r] exI [of _ t] exI [of _ es])
        (cases r, auto simp: handle_def halt_eq)
  qed
qed

lemma saves_batch:
  fixes m :: "(('s, 'z) db_scheme, unit) cm" and M :: "'s server"
  assumes "does (\<lambda>s. db.more s = z) m (\<lambda>_ sts _. W sts)"
  shows "saves z (thn (retrying fuel m) (checked M Sqlerr 0 Commit)) (\<lambda>_. W) (\<lambda>sts. sts = [])"
proof (rule savesI)
  fix s :: "('s, 'z) db_scheme"
  assume "db.more s = z"
  from retrying_run [OF assms this] obtain r t es where
    1: "retrying fuel m s = (r, t)" "db.more t = z" "log t = log s @ es"
    "case r of Inr a \<Rightarrow> \<exists>sts. pends sts es \<and> W sts | Inl e \<Rightarrow> stopped e es \<and> leaves [] es" by blast
  show "\<exists>r t es. thn (retrying fuel m) (checked M Sqlerr 0 Commit) s = (r, t) \<and> db.more t = z \<and>
    log t = log s @ es \<and> settled (\<lambda>_. W) (\<lambda>sts. sts = []) r es"
  proof (cases r)
    case (Inl e)
    with 1 show ?thesis
      by (intro exI [of _ "Inl e"] exI [of _ t] exI [of _ es]) (simp add: thn_def bnd_def)
  next
    case (Inr u)
    with 1 obtain sts where sts: "pends sts es" "W sts" by auto
    obtain rc row w where c: "M 0 Commit (srv t) = (rc, row, w)" by (metis prod.collapse)
    have "settled (\<lambda>_. W) (\<lambda>sts. sts = []) (if rc \<noteq> 0 then Inl (Goto Sqlerr) else Inr ())
        (es @ [Call 0 Commit rc row])"
      using sts pends_commit [of sts es 0 row]
        pends_leaves [of sts es "[Call 0 Commit rc row]"] by (auto simp: keeps_rows_def)
    with Inr 1 show ?thesis
      by (intro exI [of _ "if rc \<noteq> 0 then Inl (Goto Sqlerr) else Inr ()"]
          exI [of _ "t\<lparr>srv := w, log := log t @ [Call 0 Commit rc row]\<rparr>"]
          exI [of _ "es @ [Call 0 Commit rc row]"])
        (simp add: thn_def bnd_def checked_run [of M, OF c])
  qed
qed

lemma saves_commit:
  fixes M :: "'s server"
  shows "saves z (checked M Sqlerr 0 Commit :: (('s, 'z) db_scheme, unit) cm)
    (\<lambda>_ sts. sts = []) (\<lambda>sts. sts = [])"
proof (rule savesI)
  fix s :: "('s, 'z) db_scheme"
  assume "db.more s = z"
  moreover obtain rc row w where c: "M 0 Commit (srv s) = (rc, row, w)" by (metis prod.collapse)
  ultimately show "\<exists>r t es. checked M Sqlerr 0 Commit s = (r, t) \<and> db.more t = z \<and>
    log t = log s @ es \<and> settled (\<lambda>_ sts. sts = []) (\<lambda>sts. sts = []) r es"
    unfolding checked_run [of M, OF c] by (simp add: lands_def leaves_def)
qed

section \<open>Tables\<close>

text \<open>The statements of the tables, as their specification.\<close>

definition item_table :: "stmts \<Rightarrow> bool" where
  "item_table sts \<longleftrightarrow> (\<exists>orig. original_marks orig \<and>
     each (\<lambda>i sts. \<exists>ps. sts = [(0, ps)] \<and> item_ok orig i ps) [1..MAXITEMS] sts)"

definition stock_table :: "int \<Rightarrow> stmts \<Rightarrow> bool" where
  "stock_table w_id sts \<longleftrightarrow> (\<exists>orig. original_marks orig \<and>
     each (\<lambda>i sts. \<exists>ps. sts = [(2, ps)] \<and> stock_ok orig w_id i ps) [1..MAXITEMS] sts)"

definition district_table :: "int \<Rightarrow> stmts \<Rightarrow> bool" where
  "district_table w_id = each (\<lambda>d sts. \<exists>ps. sts = [(3, ps)] \<and> district_ok w_id d ps) [1..DIST_PER_WARE]"

definition ware_unit :: "int \<Rightarrow> stmts \<Rightarrow> bool" where
  "ware_unit w_id sts \<longleftrightarrow> (\<exists>ps sts1 sts2. sts = (1, ps) # sts1 @ sts2 \<and> ware_ok w_id ps \<and>
     stock_table w_id sts1 \<and> district_table w_id sts2)"

definition customer_unit :: "string \<Rightarrow> int \<Rightarrow> int \<Rightarrow> stmts \<Rightarrow> bool" where
  "customer_unit tstamp w_id d_id = each (\<lambda>c sts. \<exists>ps hs. sts = [(4, ps), (5, hs)] \<and>
     customer_ok tstamp d_id w_id c ps \<and> history_ok tstamp d_id w_id c hs) [1..CUST_PER_DIST]"

definition order_stmts :: "string \<Rightarrow> int \<Rightarrow> int \<Rightarrow> int \<Rightarrow> int \<Rightarrow> stmts \<Rightarrow> bool" where
  "order_stmts tstamp w_id d_id o_id c_id sts \<longleftrightarrow> (\<exists>carrier n ls. 1 \<le> carrier \<and> carrier \<le> 10 \<and>
     5 \<le> n \<and> n \<le> 15 \<and> sts =
       (if o_id > 2100
        then [(6, [PLong o_id, PLong d_id, PLong w_id, PLong c_id, PString tstamp, PLong n]),
              (7, [PLong o_id, PLong d_id, PLong w_id])]
        else [(8, [PLong o_id, PLong d_id, PLong w_id, PLong c_id, PString tstamp,
               PLong carrier, PLong n])]) @ ls \<and>
     each (\<lambda>ol sts. \<exists>st. sts = [st] \<and> line_ok tstamp d_id w_id o_id ol st) [1..n] ls)"

definition orders_unit :: "string \<Rightarrow> int \<Rightarrow> int \<Rightarrow> stmts \<Rightarrow> bool" where
  "orders_unit tstamp w_id d_id sts \<longleftrightarrow> (\<exists>cs. mset cs = mset [1..CUST_PER_DIST] \<and>
     each (\<lambda>(o_id, c_id). order_stmts tstamp w_id d_id o_id c_id) (zip [1..ORD_PER_DIST] cs) sts)"

lemma does_rows:
  fixes M :: "'s server" and row :: "int \<Rightarrow> (('s, 'z) db_scheme, param list) cm"
  assumes "\<And>i. i \<in> set js \<Longrightarrow> succeeds (row i)" and "\<And>i. keeps draws (row i)"
    and "\<And>i s ps t. i \<in> set js \<Longrightarrow> row i s = (Inr ps, t) \<Longrightarrow> V i ps" and "stable P"
  shows "does P (cfor js (\<lambda>i. bnd (row i) (insert_row M k)))
    (\<lambda>_ sts s. each (\<lambda>i sts. \<exists>ps. sts = [(k, ps)] \<and> V i ps) js sts \<and> P s)"
  by (rule does_cfor, rule does_row) (use assms in auto)

lemma does_items:
  assumes "original_marks orig" and "stable P"
  shows "does P (items_pass M orig)
    (\<lambda>_ sts s. each (\<lambda>i sts. \<exists>ps. sts = [(0, ps)] \<and> item_ok orig i ps) [1..MAXITEMS] sts \<and> P s)"
  unfolding items_pass_def
  by (rule does_rows [OF _ _ _ assms(2)])
    (use assms(1) in \<open>auto simp: original_marks_def intro!: succeeds_rows rows_draws intro: item_row_ok\<close>)

lemma does_stock:
  assumes "stable P"
  shows "does P (at_sqlerr M b (bnd (mark_originals fuel) (\<lambda>orig.
      cfor [1..MAXITEMS] (\<lambda>i. bnd (stock_row orig w_id i) (insert_row M 2)))))
    (\<lambda>_ sts s. stock_table w_id sts \<and> P s)"
proof (rule does_at_sqlerr, rule does_bnd [OF does_marks [OF assms]])
  fix orig sts
  have rows: "does P (cfor [1..MAXITEMS] (\<lambda>i. bnd (stock_row orig w_id i) (insert_row M 2)))
      (\<lambda>_ sts s. each (\<lambda>i sts. \<exists>ps. sts = [(2, ps)] \<and> stock_ok orig w_id i ps) [1..MAXITEMS] sts \<and> P s)"
    if "original_marks orig"
    by (rule does_rows [OF _ _ _ assms])
      (use that in \<open>auto simp: original_marks_def intro!: succeeds_rows rows_draws intro: stock_row_ok\<close>)
  show "does (\<lambda>s. sts = [] \<and> original_marks orig \<and> P s)
    (cfor [1..MAXITEMS] (\<lambda>i. bnd (stock_row orig w_id i) (insert_row M 2)))
    (\<lambda>_ sts' s. stock_table w_id (sts @ sts') \<and> P s)"
    by (intro does_pure, rule does_conseq [OF rows]) (auto simp: stock_table_def)
qed

lemma does_district:
  assumes "stable P"
  shows "does P (at_sqlerr M b (cfor [1..DIST_PER_WARE]
      (\<lambda>d. bnd (district_row w_id d) (insert_row M 3)))) (\<lambda>_ sts s. district_table w_id sts \<and> P s)"
  unfolding district_table_def
  by (rule does_at_sqlerr, rule does_rows [OF _ _ _ assms])
    (auto intro!: succeeds_rows rows_draws intro: district_row_ok)

lemma ware_unitI: "ware_ok w_id ps \<Longrightarrow> stock_table w_id sts1 \<Longrightarrow> district_table w_id sts2 \<Longrightarrow>
    ware_unit w_id ([(1, ps)] @ sts1 @ sts2)"
  unfolding ware_unit_def by auto

lemma does_ware:
  assumes "stable P"
  shows "does P (ware_pass M fuel w_id) (\<lambda>_ sts s. ware_unit w_id sts \<and> P s)"
proof -
  have ware: "does P (bnd (ware_row w_id) (insert_row M 1))
      (\<lambda>_ sts s. (\<exists>ps. sts = [(1, ps)] \<and> ware_ok w_id ps) \<and> P s)"
    by (rule does_row [OF _ _ _ assms]) (auto intro!: succeeds_rows rows_draws intro: ware_row_ok)
  show ?thesis
    unfolding ware_pass_eq
  proof (rule does_thn [OF ware], rule does_pure, rule does_thn, rule does_stock [OF assms],
      rule does_pure)
    fix sts sts' :: stmts
    assume 1: "\<exists>ps. sts = [(1, ps)] \<and> ware_ok w_id ps" and 2: "stock_table w_id sts'"
    from 1 obtain ps where ps: "sts = [(1, ps)]" "ware_ok w_id ps" by blast
    show "does P (at_sqlerr M False (cfor [1..DIST_PER_WARE]
        (\<lambda>d. bnd (district_row w_id d) (insert_row M 3))))
      (\<lambda>_ sts'' s. ware_unit w_id (sts @ sts' @ sts'') \<and> P s)"
      by (rule does_conseq [OF does_district [OF assms]]) (use ps(2) 2 in \<open>auto simp only: ps(1) intro!: ware_unitI\<close>)
  qed
qed

lemma does_customers:
  fixes M :: "'s server" and P :: "('s, 'z) ld_scheme \<Rightarrow> bool"
  assumes "stable P" and "\<And>s. P s \<Longrightarrow> timestamp s = tstamp"
  shows "does P (customer_pass M d_id w_id) (\<lambda>_ sts s. customer_unit tstamp w_id d_id sts \<and> P s)"
proof -
  have one: "does P (thn (bnd (customer_row tstamp d_id w_id c) (insert_row M 4))
      (bnd (history_row tstamp d_id w_id c) (insert_row M 5)))
    (\<lambda>_ sts s. (\<exists>ps hs. sts = [(4, ps), (5, hs)] \<and> customer_ok tstamp d_id w_id c ps \<and>
      history_ok tstamp d_id w_id c hs) \<and> P s)" if "c \<in> set [1..CUST_PER_DIST]" for c
  proof (rule does_thn, rule does_row [where V = "customer_ok tstamp d_id w_id c"])
    show "does (\<lambda>s. (\<exists>ps. sts = [(4, ps)] \<and> customer_ok tstamp d_id w_id c ps) \<and> P s)
      (bnd (history_row tstamp d_id w_id c) (insert_row M 5))
      (\<lambda>_ sts' s. (\<exists>ps hs. sts @ sts' = [(4, ps), (5, hs)] \<and> customer_ok tstamp d_id w_id c ps \<and>
        history_ok tstamp d_id w_id c hs) \<and> P s)" for sts
      by (rule does_pure, rule does_conseq [OF does_row [OF _ _ _ assms(1),
            where V = "history_ok tstamp d_id w_id c"]])
        (auto intro!: succeeds_rows rows_draws intro: history_row_ok)
  qed (use assms(1) that in \<open>auto intro!: succeeds_customer_row rows_draws intro: customer_row_ok\<close>)
  have "does P (cfor [1..CUST_PER_DIST] (\<lambda>c. thn (bnd (customer_row tstamp d_id w_id c) (insert_row M 4))
      (bnd (history_row tstamp d_id w_id c) (insert_row M 5))))
    (\<lambda>_ sts s. customer_unit tstamp w_id d_id sts \<and> P s)"
    unfolding customer_unit_def by (rule does_cfor, rule one)
  then show ?thesis
    using assms(2) unfolding does_def customer_pass_def by simp
qed

lemma does_if: "(b \<Longrightarrow> does P m Q) \<Longrightarrow> (\<not> b \<Longrightarrow> does P k Q) \<Longrightarrow> does P (if b then m else k) Q"
  by simp

text \<open>The source of customer numbers.\<close>

definition customers_left :: "int list \<Rightarrow> 'z support_scheme \<Rightarrow> bool" where
  "customers_left cs s \<longleftrightarrow> perm_ok s \<and> perm_rest s = cs"

lemma stable_customers_left: "stable (customers_left cs)"
  unfolding stable_def
proof (intro conjI allI impI)
  fix s t :: "('s, 'z) db_scheme"
  assume s: "customers_left cs s" and "draws s t"
  then have t: "t = s\<lparr>rng := rng t, garbage := garbage t, nurand_first := nurand_first t\<rparr>"
    by (simp add: draws_def)
  have "nums t = nums s" "perm_count t = perm_count s"
    using arg_cong [where f = nums, OF t] arg_cong [where f = perm_count, OF t] by simp_all
  with s show "customers_left cs t" by (simp add: customers_left_def perm_ok_def perm_rest_def)
qed (simp add: customers_left_def perm_ok_def perm_rest_def)

lemma does_GetPermutation:
  "does (customers_left (c # cs)) (GetPermutation :: (('s, 'z) db_scheme, int) cm)
    (\<lambda>a sts s. sts = [] \<and> a = c \<and> customers_left cs s)"
proof (rule doesI)
  fix s :: "('s, 'z) db_scheme"
  assume s: "customers_left (c # cs) s"
  then have "GetPermutation s = (Inr c, s\<lparr>perm_count := perm_count s + 1\<rparr>)"
    by (auto simp: customers_left_def intro: GetPermutation_run)
  moreover from s have "customers_left cs (s\<lparr>perm_count := perm_count s + 1\<rparr>)"
    by (auto simp: customers_left_def perm_ok_def perm_rest_def nat_add_distrib drop_Suc tl_drop [symmetric])
  ultimately show "\<exists>r t es. GetPermutation s = (r, t) \<and> db.more t = db.more s \<and> log t = log s @ es \<and>
    ended (\<lambda>a sts. sts = [] \<and> a = c \<and> customers_left cs t) r es"
    by (intro exI [of _ "Inr c"] exI [of _ "s\<lparr>perm_count := perm_count s + 1\<rparr>"] exI [of _ "[]"]) simp
qed

definition db_frame :: "('s, 'z) db_scheme \<Rightarrow> ('s, 'z) db_scheme \<Rightarrow> bool" where
  "db_frame s t \<longleftrightarrow> log t = log s \<and> db.more t = db.more s"

interpretation dbf: state_relation db_frame
  by unfold_locales (simp_all add: db_frame_def)

lemma InitPermutation_frame: "keeps db_frame InitPermutation"
proof -
  have r: "keeps db_frame (RandomNumber lo hi)" for lo hi
    by (rule keeps_mono [OF RandomNumber_draws]) (simp add: db_frame_def draws_db)
  have w: "keeps db_frame (swap_in nums set_nums i j)" for i j
    by (simp add: keeps_def swap_in_def db_frame_def)
  show ?thesis
    unfolding InitPermutation_def
    by (intro dbf.thn_keeps dbf.cfor_keeps dbf.bnd_keeps r w keeps_modify) (simp add: db_frame_def)
qed

lemma does_InitPermutation:
  "does P (InitPermutation :: (('s, 'z) db_scheme, unit) cm)
    (\<lambda>_ sts s. sts = [] \<and> (\<exists>cs. mset cs = mset [1..ORD_PER_DIST] \<and> customers_left cs s))"
proof (rule doesI)
  fix s :: "('s, 'z) db_scheme"
  obtain u t where run: "InitPermutation s = (Inr u, t)" and
    t: "perm_ok t" "mset (perm_rest t) = mset [1..ORD_PER_DIST]"
    using returnsD [OF perm.init_spec, of s] by auto
  from keepsD [OF InitPermutation_frame run] have "db_frame s t" .
  with run t show "\<exists>r t es. InitPermutation s = (r, t) \<and> db.more t = db.more s \<and> log t = log s @ es \<and>
    ended (\<lambda>_ sts. sts = [] \<and> (\<exists>cs. mset cs = mset [1..ORD_PER_DIST] \<and> customers_left cs t)) r es"
    by (intro exI [of _ "Inr u"] exI [of _ t] exI [of _ "[]"])
      (auto simp: db_frame_def customers_left_def)
qed

lemma does_number:
  fixes P :: "('s, 'z) db_scheme \<Rightarrow> bool"
  assumes "lo \<le> hi" and "stable P"
  shows "does P (RandomNumber lo hi) (\<lambda>a sts s. sts = [] \<and> (lo \<le> a \<and> a \<le> hi) \<and> P s)"
  by (rule does_generate [OF _ _ _ assms(2)])
    (use assms(1) in \<open>auto intro!: succeeds_RandomNumber RandomNumber_draws dest: RandomNumber_range\<close>)

definition head_stmts :: "string \<Rightarrow> int \<Rightarrow> int \<Rightarrow> int \<Rightarrow> int \<Rightarrow> int \<Rightarrow> int \<Rightarrow> stmts" where
  "head_stmts tstamp d_id w_id o_id c_id carrier n =
     (if o_id > 2100
      then [(6, [PLong o_id, PLong d_id, PLong w_id, PLong c_id, PString tstamp, PLong n]),
            (7, [PLong o_id, PLong d_id, PLong w_id])]
      else [(8, [PLong o_id, PLong d_id, PLong w_id, PLong c_id, PString tstamp,
             PLong carrier, PLong n])])"

lemma does_head:
  assumes "stable P"
  shows "does P (order_head M tstamp d_id w_id o_id c_id carrier n)
    (\<lambda>_ sts s. sts = head_stmts tstamp d_id w_id o_id c_id carrier n \<and> P s)"
  unfolding order_head_def
proof (rule does_if)
  assume "o_id > 2100"
  then show "does P (thn (insert_row M 6 [PLong o_id, PLong d_id, PLong w_id, PLong c_id,
        PString tstamp, PLong n]) (insert_row M 7 [PLong o_id, PLong d_id, PLong w_id]))
    (\<lambda>_ sts s. sts = head_stmts tstamp d_id w_id o_id c_id carrier n \<and> P s)"
    by (intro does_thn [OF does_insert_row [OF assms]] does_pure,
        intro does_conseq [OF does_insert_row [OF assms]]) (auto simp: head_stmts_def)
next
  assume "\<not> o_id > 2100"
  then show "does P (insert_row M 8 [PLong o_id, PLong d_id, PLong w_id, PLong c_id, PString tstamp,
      PLong carrier, PLong n]) (\<lambda>_ sts s. sts = head_stmts tstamp d_id w_id o_id c_id carrier n \<and> P s)"
    by (intro does_conseq [OF does_insert_row [OF assms]]) (auto simp: head_stmts_def)
qed

lemma does_lines:
  assumes "stable P"
  shows "does P (cfor [1..n] (\<lambda>ol. bnd (order_line_row tstamp d_id w_id o_id ol)
      (\<lambda>(k, ps). insert_row M k ps)))
    (\<lambda>_ sts s. each (\<lambda>ol sts. \<exists>st. sts = [st] \<and> line_ok tstamp d_id w_id o_id ol st) [1..n] sts \<and> P s)"
proof (rule does_cfor, rule does_bnd [OF does_generate [OF _ _ _ assms,
        where V = "line_ok tstamp d_id w_id o_id ol" for ol]])
  fix ol and st :: "nat \<times> param list" and sts :: stmts
  show "does (\<lambda>s. sts = [] \<and> line_ok tstamp d_id w_id o_id ol st \<and> P s)
    (case st of (k, ps) \<Rightarrow> insert_row M k ps)
    (\<lambda>_ sts' s. (\<exists>st. sts @ sts' = [st] \<and> line_ok tstamp d_id w_id o_id ol st) \<and> P s)"
    by (cases st) (simp, intro does_pure, rule does_conseq [OF does_insert_row [OF assms]], auto)
qed (auto intro!: succeeds_rows rows_draws intro: order_line_row_ok)

lemma does_order:
  fixes M :: "'s server"
  shows "does (customers_left (c_id # cs)) (order_rows M tstamp d_id w_id o_id ::
      (('s, 'z) db_scheme, unit) cm)
    (\<lambda>_ sts s. order_stmts tstamp w_id d_id o_id c_id sts \<and> customers_left cs s)"
proof -
  let ?P = "customers_left cs :: ('s, 'z) db_scheme \<Rightarrow> bool"
  note P = stable_customers_left [of cs, where ?'a = 's and ?'b = 'z]
  have rest: "does ?P (thn (order_head M tstamp d_id w_id o_id c_id carrier n)
      (cfor [1..n] (\<lambda>ol. bnd (order_line_row tstamp d_id w_id o_id ol) (\<lambda>(k, ps). insert_row M k ps))))
    (\<lambda>_ sts s. order_stmts tstamp w_id d_id o_id c_id sts \<and> customers_left cs s)"
    if "1 \<le> carrier" "carrier \<le> 10" "5 \<le> n" "n \<le> 15" for carrier n
    by (intro does_thn [OF does_head [OF P]] does_pure, rule does_conseq [OF does_lines [OF P]])
      (use that in \<open>auto simp: order_stmts_def head_stmts_def\<close>)
  show ?thesis
    unfolding order_rows_def
    by (rule does_bnd [OF does_GetPermutation], intro does_pure,
        rule does_bnd [OF does_number [OF _ P]], simp, intro does_pure,
        rule does_bnd [OF does_number [OF _ P]], simp, intro does_pure,
        clarify, rule does_conseq [OF rest]) auto
qed

lemma does_order_loop:
  fixes M :: "'s server"
  assumes "length js = length cs"
  shows "does (customers_left cs) (cfor js (order_rows M tstamp d_id w_id) :: (('s, 'z) db_scheme, unit) cm)
    (\<lambda>_ sts _. each (\<lambda>(o_id, c_id). order_stmts tstamp w_id d_id o_id c_id) (zip js cs) sts)"
  using assms
proof (induction js cs rule: list_induct2)
  case Nil
  show ?case by (simp add: does_ret)
next
  case (Cons j js c cs)
  show ?case
    unfolding cfor.simps
    by (rule does_thn [OF does_order], rule does_pure, rule does_conseq [OF Cons.IH])
      (auto intro: each_Cons)
qed

lemma does_orders:
  fixes M :: "'s server" and P :: "('s, 'z) ld_scheme \<Rightarrow> bool"
  assumes "\<And>s. P s \<Longrightarrow> timestamp s = tstamp"
  shows "does P (orders_pass M d_id w_id) (\<lambda>_ sts _. orders_unit tstamp w_id d_id sts)"
proof -
  let ?loop = "cfor [1..ORD_PER_DIST] (order_rows M tstamp d_id w_id) :: (('s, 'z) ld_scheme, unit) cm"
  have loop: "does (customers_left cs) ?loop (\<lambda>_ sts _. orders_unit tstamp w_id d_id sts)"
    if "mset cs = mset [1..ORD_PER_DIST]" for cs
  proof -
    have "length [1..ORD_PER_DIST] = length cs" using that by (metis size_mset)
    then show ?thesis
      by (rule does_conseq [OF does_order_loop])
        (use that in \<open>auto simp: orders_unit_def ORD_PER_DIST_def CUST_PER_DIST_def\<close>)
  qed
  have "does P (thn InitPermutation ?loop) (\<lambda>_ sts _. orders_unit tstamp w_id d_id sts)"
  proof (rule does_thn [OF does_InitPermutation], rule does_pure)
    fix sts :: stmts
    assume "sts = []"
    with loop show "does (\<lambda>s. \<exists>cs. mset cs = mset [1..ORD_PER_DIST] \<and> customers_left cs s) ?loop
        (\<lambda>_ sts' _. orders_unit tstamp w_id d_id (sts @ sts'))"
      unfolding does_def by simp blast
  qed
  then show ?thesis
    using assms unfolding does_def orders_pass_def by simp
qed

section \<open>Lemmas: the parts of the load\<close>

lemma stable_more: "stable (\<lambda>s. db.more s = z)"
  by (auto simp: stable_def draws_db)

lemma ld_fields:
  fixes s :: "('s, 'z) ld_scheme" and t :: "('t, 'z) ld_scheme"
  assumes "db.more s = db.more t"
  shows "timestamp s = timestamp t" "min_ware s = min_ware t" "max_ware s = max_ware t"
  using assms by (cases s, cases t, simp)+

lemma saves_marks:
  fixes f :: "bool list \<Rightarrow> (('s, 'z) db_scheme, 'a) cm"
  assumes "\<And>orig. original_marks orig \<Longrightarrow> saves z (f orig) Q E" and "E []"
  shows "saves z (bnd (mark_originals fuel) f) Q E"
proof (rule savesI)
  fix s :: "('s, 'z) db_scheme"
  assume z: "db.more s = z"
  obtain r t where r: "mark_originals fuel s = (r, t)" by (cases "mark_originals fuel s")
  note d = draws_db [OF keepsD [OF marks_draws r]]
  show "\<exists>r t es. bnd (mark_originals fuel) f s = (r, t) \<and> db.more t = z \<and> log t = log s @ es \<and>
    settled Q E r es"
  proof (cases r)
    case (Inl e)
    with r d z assms(2) mark_originals_stop [of fuel s e t] show ?thesis
      by (intro exI [of _ "Inl e"] exI [of _ t] exI [of _ "[]"])
        (auto simp: bnd_def intro!: exI [of _ "[]"] lands_is_leaves)
  next
    case (Inr orig)
    with r have "original_marks orig"
      by (auto simp: original_marks_def elim: mark_originals_ok)
    moreover obtain r' t' where r': "f orig t = (r', t')" by (cases "f orig t")
    ultimately obtain es where "db.more t' = z" "log t' = log t @ es" "settled Q E r' es"
      using saves_run [OF assms(1) _ r'] d z by metis
    with r Inr d r' show ?thesis
      by (intro exI [of _ r'] exI [of _ t'] exI [of _ es]) (simp add: bnd_def)
  qed
qed

lemma saves_LoadItems: "saves z (LoadItems M fuel) (\<lambda>_. item_table) (\<lambda>sts. sts = [])"
  unfolding LoadItems_def
  by (rule saves_at_sqlerr, rule saves_marks, rule saves_batch,
      rule does_conseq [OF does_items [OF _ stable_more]]) (auto simp: item_table_def)

text \<open>The final state of a part: what it returns with, or the complete units it leaves.\<close>

abbreviation (input) first_ones :: "('i \<Rightarrow> stmts \<Rightarrow> bool) \<Rightarrow> 'i list \<Rightarrow> stmts \<Rightarrow> bool" where
  "first_ones W js sts \<equiv> \<exists>n < length js. each W (take n js) sts"

lemma saves_LoadWare:
  fixes s0 :: "('t, 'z) ld_scheme" and M :: "'s server"
  shows "saves (db.more s0) (LoadWare M fuel) (\<lambda>_. each ware_unit [min_ware s0..max_ware s0])
    (first_ones ware_unit [min_ware s0..max_ware s0])"
  unfolding LoadWare_def
proof (intro saves_at_sqlerr saves_bnd_gets)
  fix s s' :: "('s, 'z) ld_scheme"
  assume s: "db.more s = db.more s0" "db.more s' = db.more s0"
  have "saves (db.more s0) (thn (retrying fuel (ware_pass M fuel w_id)) (checked M Sqlerr 0 Commit))
      (\<lambda>_. ware_unit w_id) (\<lambda>sts. sts = [])" for w_id
    by (rule saves_batch, rule does_conseq [OF does_ware [OF stable_more]]) auto
  then show "saves (db.more s0)
      (cfor [min_ware s..max_ware s'] (\<lambda>w_id. thn (retrying fuel (ware_pass M fuel w_id))
        (checked M Sqlerr 0 Commit)))
      (\<lambda>_. each ware_unit [min_ware s0..max_ware s0])
      (first_ones ware_unit [min_ware s0..max_ware s0])"
    unfolding ld_fields [OF s(1)] ld_fields [OF s(2)] by (rule saves_cfor)
qed

lemma saves_Customer:
  fixes s0 :: "('t, 'z) ld_scheme" and M :: "'s server"
  shows "saves (db.more s0) (Customer M fuel d_id w_id) (\<lambda>_. customer_unit (timestamp s0) w_id d_id)
    (\<lambda>sts. sts = [])"
  unfolding Customer_def
  by (rule saves_at_sqlerr, rule saves_batch,
      rule does_conseq [OF does_customers [OF stable_more [of "db.more s0"]]])
    (auto dest: ld_fields(1))

lemma saves_Orders:
  fixes s0 :: "('t, 'z) ld_scheme" and M :: "'s server"
  shows "saves (db.more s0) (Orders M fuel d_id w_id) (\<lambda>_. orders_unit (timestamp s0) w_id d_id)
    (\<lambda>sts. sts = [])"
  unfolding Orders_def
  by (rule saves_at_sqlerr, rule saves_batch, rule does_orders) (auto dest: ld_fields(1))

lemma cfor_append: "cfor (xs @ ys) body = thn (cfor xs body) (cfor ys body)"
  by (induction xs) (simp_all add: thn_assoc)

lemma cfor_map: "cfor (map g xs) body = cfor xs (\<lambda>x. body (g x))"
  by (induction xs) simp_all

lemma cfor_product:
  "cfor ws (\<lambda>w. cfor ds (\<lambda>d. f d w)) = cfor (List.product ws ds) (\<lambda>(w, d). f d w)"
  by (induction ws) (simp_all add: cfor_append cfor_map)

text \<open>The districts, warehouse by warehouse.\<close>

definition districts :: "int \<Rightarrow> int \<Rightarrow> (int \<times> int) list" where
  "districts lo hi = List.product [lo..hi] [1..DIST_PER_WARE]"

lemma saves_by_district:
  fixes s0 :: "('t, 'z) ld_scheme" and f :: "int \<Rightarrow> int \<Rightarrow> (('s, 'z) ld_scheme, unit) cm"
  assumes "\<And>d w. saves (db.more s0) (f d w) (\<lambda>_. W w d) (\<lambda>sts. sts = [])"
  shows "saves (db.more s0) (by_district M f)
    (\<lambda>_. each (\<lambda>(w, d). W w d) (districts (min_ware s0) (max_ware s0)))
    (\<lambda>sts. \<exists>n. each (\<lambda>(w, d). W w d) (take n (districts (min_ware s0) (max_ware s0))) sts)"
  unfolding by_district_def
proof (intro saves_at_sqlerr saves_bnd_gets)
  fix s s' :: "('s, 'z) ld_scheme"
  assume s: "db.more s = db.more s0" "db.more s' = db.more s0"
  let ?js = "districts (min_ware s0) (max_ware s0)" and ?W = "\<lambda>(w, d). W w d"
  have loop: "saves (db.more s0) (cfor ?js (\<lambda>(w, d). f d w)) (\<lambda>_. each ?W ?js) (first_ones ?W ?js)"
    by (rule saves_cfor) (use assms in auto)
  have eq: "cfor [min_ware s..max_ware s'] (\<lambda>w. cfor [1..DIST_PER_WARE] (\<lambda>d. f d w)) =
      cfor ?js (\<lambda>(w, d). f d w)"
    by (simp add: cfor_product districts_def ld_fields [OF s(1)] ld_fields [OF s(2)])
  show "saves (db.more s0) (thn (cfor [min_ware s..max_ware s'] (\<lambda>w. cfor [1..DIST_PER_WARE] (\<lambda>d. f d w)))
      (checked M Sqlerr 0 Commit)) (\<lambda>_. each ?W ?js) (\<lambda>sts. \<exists>n. each ?W (take n ?js) sts)"
    unfolding eq
    by (rule saves_conseq [OF saves_thn [OF loop saves_commit]])
      (auto intro: exI [of _ "length ?js"])
qed

lemma saves_LoadCust:
  fixes s0 :: "('t, 'z) ld_scheme" and M :: "'s server"
  shows "saves (db.more s0) (LoadCust M fuel)
    (\<lambda>_. each (\<lambda>(w, d). customer_unit (timestamp s0) w d) (districts (min_ware s0) (max_ware s0)))
    (\<lambda>sts. \<exists>n. each (\<lambda>(w, d). customer_unit (timestamp s0) w d)
      (take n (districts (min_ware s0) (max_ware s0))) sts)"
  unfolding LoadCust_def by (rule saves_by_district [OF saves_Customer])

lemma saves_LoadOrd:
  fixes s0 :: "('t, 'z) ld_scheme" and M :: "'s server"
  shows "saves (db.more s0) (LoadOrd M fuel)
    (\<lambda>_. each (\<lambda>(w, d). orders_unit (timestamp s0) w d) (districts (min_ware s0) (max_ware s0)))
    (\<lambda>sts. \<exists>n. each (\<lambda>(w, d). orders_unit (timestamp s0) w d)
      (take n (districts (min_ware s0) (max_ware s0))) sts)"
  unfolding LoadOrd_def by (rule saves_by_district [OF saves_Orders])

end
