(* ===== verification/LoadMain.thy ===== *)
theory LoadMain
  imports Load CText
begin

text \<open>
  \<open>main\<close> of \<^verbatim>\<open>tpcc-mysql/src/load.c\<close>: the arguments, the connection with its prepared
  statements, the parts of the load, and the end of the program. The program never returns
  from \<open>main\<close>: it ends in \<open>exit\<close>, the stop \<open>Exit\<close>. Seeding \<open>rand\<close> (from \<^verbatim>\<open>/dev/urandom\<close>) is the
  choice of the stream \<open>rng\<close>; the printed banner and parameters are not modelled.
\<close>

section \<open>Arguments\<close>

definition DB_STRING_MAX :: nat where
  "DB_STRING_MAX = 51"

record load_args =
  connect_string :: string
  port :: int
  db_string :: string
  db_user :: string
  db_password :: string
  part_no :: "int option"  \<comment> \<open>\<open>None\<close> when \<open>particle_flg\<close> is 0\<close>

definition fail_exit :: "int \<Rightarrow> string \<Rightarrow> (('s, 'z) db_scheme, 'a) cm" where
  "fail_exit code msg = thn (emit (Diag msg [])) (halt (Exit code))"

text \<open>\<open>argv\<close> includes the name of the program.\<close>

definition parse_args :: "string list \<Rightarrow> (('s, 'z) ld_scheme, load_args) cm" where
  "parse_args argv =
     (let particle = (length argv = 9) in
      if length argv \<noteq> 9 \<and> length argv \<noteq> 6 then fail_exit 1 ''usage''
      else if length (argv ! 1) \<ge> DB_STRING_MAX then fail_exit 1 ''server phrase is too long''
      else if length (argv ! 2) \<ge> DB_STRING_MAX then fail_exit 1 ''DBname phrase is too long''
      else if length (argv ! 3) \<ge> DB_STRING_MAX then fail_exit 1 ''user phrase is too long''
      else if length (argv ! 4) \<ge> DB_STRING_MAX then fail_exit 1 ''pass phrase is too long''
      else let count_ware = atoi (argv ! 5) in
      if count_ware \<le> 0 then fail_exit 1 ''expecting positive number of warehouses''
      else case parse_port (argv ! 1) of
        None \<Rightarrow> fail_exit (- 1) ''Incorrect port value''
      | Some p \<Rightarrow>
          thn (modify (\<lambda>s. s\<lparr>min_ware := if particle then atoi (argv ! 7) else 1,
                             max_ware := if particle then atoi (argv ! 8) else count_ware\<rparr>))
            (ret \<lparr>connect_string = parse_host (argv ! 1), port = p, db_string = argv ! 2,
                  db_user = argv ! 3, db_password = argv ! 4,
                  part_no = if particle then Some (atoi (argv ! 6)) else None\<rparr>))"

section \<open>The connection\<close>

text \<open>The statements, with the length passed to \<open>mysql_stmt_prepare\<close>.\<close>

definition load_sql :: "(string \<times> nat) list" where
  "load_sql =
   [(''INSERT INTO item values(?,?,?,?,?)'', 34),
    (''INSERT INTO warehouse values(?,?,?,?,?,?,?,?,?)'', 47),
    (''INSERT INTO stock values(?,?,?,?,?,?,?,?,?,?,?,?,?,0,0,0,?)'', 59),
    (''INSERT INTO district values(?,?,?,?,?,?,?,?,?,?,?)'', 50),
    (''INSERT INTO customer values(?,?,?,?,?,?,?,?,?,?,?,?,?,?,?,?,?, 10.0, 1, 0,?)'', 76),
    (''INSERT INTO history values(?,?,?,?,?,?,?,?)'', 43),
    (''INSERT INTO orders values(?,?,?,?,?,NULL,?, 1)'', 46),
    (''INSERT INTO new_orders values(?,?,?)'', 36),
    (''INSERT INTO orders values(?,?,?,?,?,?,?, 1)'', 43),
    (''INSERT INTO order_line values(?,?,?,?,?,?, NULL,?,?,?)'', 54),
    (''INSERT INTO order_line values(?,?,?,?,?,?,?,?,?,?)'', 50)]"

definition ignored :: "'s server \<Rightarrow> call \<Rightarrow> (('s, 'z) db_scheme, unit) cm" where
  "ignored M c = bnd (sql M 0 c) (\<lambda>_. ret ())"

definition connect :: "'s server \<Rightarrow> load_args \<Rightarrow> (('s, 'z) db_scheme, unit) cm" where
  "connect M a =
     (let is_local = (connect_string a = ''l'') in
      thn (checked M Sqlerr 0 Init)
     (thn (checked M Sqlerr 0
        (if is_local
         then Connect ''localhost'' (db_user a) (db_password a) (db_string a) (port a) (Some ''/tmp/tmc.sock'')
         else Connect (connect_string a) (db_user a) (db_password a) (db_string a) (port a) None))
     (thn (ignored M Autocommit)
     (thn (ignored M (Query ''SET UNIQUE_CHECKS=0''))
     (thn (ignored M (Query ''SET FOREIGN_KEY_CHECKS=0''))
     (thn (cfor [0..<11] (\<lambda>i. checked M Sqlerr 0 (StmtInit i)))
       (cfor (enumerate 0 load_sql) (\<lambda>(i, text, len).
          checked M Sqlerr 0 (Prepare i text len)))))))))"

section \<open>The load\<close>

definition load_parts :: "'s server \<Rightarrow> nat \<Rightarrow> int option \<Rightarrow> (('s, 'z) ld_scheme, unit) cm" where
  "load_parts M fuel part = (case part of
       None \<Rightarrow> thn (LoadItems M fuel) (thn (LoadWare M fuel) (thn (LoadCust M fuel) (LoadOrd M fuel)))
     | Some n \<Rightarrow>
         if n = 1 then LoadItems M fuel
         else if n = 2 then LoadWare M fuel
         else if n = 3 then LoadCust M fuel
         else if n = 4 then LoadOrd M fuel
         else emit (Diag ''Unknown part_no'' []))"

definition load_work :: "'s server \<Rightarrow> nat \<Rightarrow> load_args \<Rightarrow> (('s, 'z) ld_scheme, unit) cm" where
  "load_work M fuel a = at_sqlerr M False
     (thn (connect M a)
     (thn (load_parts M fuel (part_no a))
     (thn (checked M Sqlerr 0 Commit)
     (thn (cfor [0..<11] (\<lambda>i. ignored M (StmtClose i)))
       (ignored M Close)))))"

definition load_main :: "'s server \<Rightarrow> nat \<Rightarrow> string list \<Rightarrow> (('s, 'z) ld_scheme, unit) cm" where
  "load_main M fuel argv =
     bnd (parse_args argv) (\<lambda>a.
     thn (bnd gettimestamp (\<lambda>ts. modify (\<lambda>s. s\<lparr>timestamp := ts\<rparr>)))
    (thn (load_work M fuel a) (halt (Exit 0))))"

section \<open>Lemmas\<close>

text \<open>The calls that change no row.\<close>

fun idle :: "call \<Rightarrow> bool" where
  "idle (BindParam k ps) \<longleftrightarrow> False"
| "idle (Execute k) \<longleftrightarrow> False"
| "idle Commit \<longleftrightarrow> False"
| "idle Rollback \<longleftrightarrow> False"
| "idle c \<longleftrightarrow> True"

lemma idle_perform: "idle c \<Longrightarrow> perform cont (Call t c rc r) = cont"
  by (cases cont; cases c) auto

lemma idle_lands: "idle c \<Longrightarrow> lands [] [Call t c rc r]"
  by (simp add: lands_def idle_perform)

lemma saves_sql:
  fixes M :: "'s server"
  assumes "idle c"
  shows "saves z (checked M Sqlerr 0 c :: (('s, 'z) db_scheme, unit) cm) (\<lambda>_ sts. sts = []) (\<lambda>sts. sts = [])"
    and "saves z (ignored M c :: (('s, 'z) db_scheme, unit) cm) (\<lambda>_ sts. sts = []) (\<lambda>sts. sts = [])"
proof -
  have *: "leaves [] [Call 0 c rc r]" for rc r
    by (rule lands_is_leaves [OF idle_lands [OF assms]])
  show "saves z (checked M Sqlerr 0 c :: (('s, 'z) db_scheme, unit) cm) (\<lambda>_ sts. sts = []) (\<lambda>sts. sts = [])"
  proof (rule savesI)
    fix s :: "('s, 'z) db_scheme"
    assume "db.more s = z"
    moreover obtain rc row w where c: "M 0 c (srv s) = (rc, row, w)" by (metis prod.collapse)
    ultimately show "\<exists>r t es. checked M Sqlerr 0 c s = (r, t) \<and> db.more t = z \<and>
      log t = log s @ es \<and> settled (\<lambda>_ sts. sts = []) (\<lambda>sts. sts = []) r es"
      unfolding checked_run [of M, OF c] by (simp add: idle_lands [OF assms] *)
  qed
  show "saves z (ignored M c :: (('s, 'z) db_scheme, unit) cm) (\<lambda>_ sts. sts = []) (\<lambda>sts. sts = [])"
  proof (rule savesI)
    fix s :: "('s, 'z) db_scheme"
    assume "db.more s = z"
    moreover obtain rc row w where c: "M 0 c (srv s) = (rc, row, w)" by (metis prod.collapse)
    ultimately show "\<exists>r t es. ignored M c s = (r, t) \<and> db.more t = z \<and>
      log t = log s @ es \<and> settled (\<lambda>_ sts. sts = []) (\<lambda>sts. sts = []) r es"
      by (simp add: ignored_def sql_def bnd_def ret_eq idle_lands [OF assms])
  qed
qed

text \<open>
  The units that are committed one by one. \<open>upto_units us sts\<close>: \<open>sts\<close> are the statements of
  the first units, completely.
\<close>

definition upto_units :: "(stmts \<Rightarrow> bool) list \<Rightarrow> stmts \<Rightarrow> bool" where
  "upto_units us sts \<longleftrightarrow> (\<exists>n. each (\<lambda>W. W) (take n us) sts)"

lemma each_map: "each W (map g js) sts \<longleftrightarrow> each (\<lambda>j. W (g j)) js sts"
  by (simp add: each_def list_all2_map1)

lemma each_append: "each W us sts \<Longrightarrow> each W vs sts' \<Longrightarrow> each W (us @ vs) (sts @ sts')"
  unfolding each_def by (metis concat_append list_all2_appendI)

lemma each_upto: "each (\<lambda>W. W) us sts \<Longrightarrow> upto_units us sts"
  unfolding upto_units_def by (metis order_refl take_all)

lemma upto_Nil [simp]: "upto_units us []"
  unfolding upto_units_def by (rule exI [of _ 0]) simp

lemma upto_append: "upto_units us sts \<Longrightarrow> upto_units (us @ vs) sts"
proof -
  assume "upto_units us sts"
  then obtain n where "each (\<lambda>W. W) (take n us) sts" by (auto simp: upto_units_def)
  then have "each (\<lambda>W. W) (take (min n (length us)) (us @ vs)) sts"
    by (cases "n \<le> length us") (simp_all add: min_def)
  then show ?thesis unfolding upto_units_def by blast
qed

lemma upto_after: "each (\<lambda>W. W) us sts \<Longrightarrow> upto_units vs sts' \<Longrightarrow> upto_units (us @ vs) (sts @ sts')"
proof -
  assume us: "each (\<lambda>W. W) us sts" and "upto_units vs sts'"
  then obtain n where "each (\<lambda>W. W) (take n vs) sts'" by (auto simp: upto_units_def)
  with us have "each (\<lambda>W. W) (take (length us + n) (us @ vs)) (sts @ sts')" by (simp add: each_append)
  then show ?thesis unfolding upto_units_def by blast
qed

text \<open>An operation that commits the units \<open>us\<close>, one by one.\<close>

definition commits :: "'z \<Rightarrow> (('s, 'z) db_scheme, 'a) cm \<Rightarrow> (stmts \<Rightarrow> bool) list \<Rightarrow> bool" where
  "commits z m us \<longleftrightarrow> saves z m (\<lambda>_. each (\<lambda>W. W) us) (upto_units us)"

lemma commits_thn:
  assumes "commits z m us" and "commits z k vs"
  shows "commits z (thn m k) (us @ vs)"
  unfolding commits_def
  by (rule saves_conseq [OF saves_thn [OF assms [unfolded commits_def]]])
    (auto intro: each_append upto_append upto_after)

lemma commits_none: "saves z m (\<lambda>_ sts. sts = []) (\<lambda>sts. sts = []) \<Longrightarrow> commits z m []"
  unfolding commits_def by (erule saves_conseq) auto

lemma commits_cfor_none:
  assumes "\<And>j. j \<in> set js \<Longrightarrow> commits z (body j) []"
  shows "commits z (cfor js body) []"
  using assms
proof (induction js)
  case Nil
  show ?case by (simp add: commits_def saves_ret)
next
  case (Cons j js)
  from commits_thn [of z "body j" "[]" "cfor js body" "[]"] Cons show ?case by simp
qed

lemma commits_connect: "commits z (connect M a) []"
proof -
  note none = saves_sql [THEN commits_none]
  note step = commits_thn [where us = "[]" and vs = "[]", simplified]
  show ?thesis
    unfolding connect_def Let_def
    by (intro step none commits_cfor_none) (auto intro!: none split: prod.split)
qed

lemma commits_map:
  "commits z m (map W js) \<longleftrightarrow> saves z m (\<lambda>_. each W js) (\<lambda>sts. \<exists>n. each W (take n js) sts)"
proof -
  have "upto_units (map W js) = (\<lambda>sts. \<exists>n. each W (take n js) sts)"
    by (rule ext) (simp add: upto_units_def each_map take_map)
  moreover have "each (\<lambda>W. W) (map W js) = each W js" by (rule ext) (simp add: each_map)
  ultimately show ?thesis by (simp add: commits_def)
qed

text \<open>The units of the parts.\<close>

definition load_units :: "string \<Rightarrow> int \<Rightarrow> int \<Rightarrow> int option \<Rightarrow> (stmts \<Rightarrow> bool) list" where
  "load_units tstamp lo hi part =
     (let items = [item_table];
          wares = map ware_unit [lo..hi];
          custs = map (\<lambda>(w, d). customer_unit tstamp w d) (districts lo hi);
          orders = map (\<lambda>(w, d). orders_unit tstamp w d) (districts lo hi) in
      case part of None \<Rightarrow> items @ wares @ custs @ orders
      | Some n \<Rightarrow> if n = 1 then items else if n = 2 then wares else if n = 3 then custs
          else if n = 4 then orders else [])"

lemma commits_parts:
  fixes s0 :: "('t, 'z) ld_scheme" and M :: "'s server"
  shows "commits (db.more s0) (LoadItems M fuel :: (('s, 'z) ld_scheme, unit) cm) [item_table]"
    and "commits (db.more s0) (LoadWare M fuel) (map ware_unit [min_ware s0..max_ware s0])"
    and "commits (db.more s0) (LoadCust M fuel)
      (map (\<lambda>(w, d). customer_unit (timestamp s0) w d) (districts (min_ware s0) (max_ware s0)))"
    and "commits (db.more s0) (LoadOrd M fuel)
      (map (\<lambda>(w, d). orders_unit (timestamp s0) w d) (districts (min_ware s0) (max_ware s0)))"
proof -
  have "each (\<lambda>W. W) [item_table] sts" if "item_table sts" for sts
    using each_Cons [of "\<lambda>W. W" item_table sts "[]" "[]"] that by simp
  then show "commits (db.more s0) (LoadItems M fuel :: (('s, 'z) ld_scheme, unit) cm) [item_table]"
    unfolding commits_def by (intro saves_conseq [OF saves_LoadItems]) auto
  show "commits (db.more s0) (LoadWare M fuel) (map ware_unit [min_ware s0..max_ware s0])"
    unfolding commits_map by (rule saves_conseq [OF saves_LoadWare]) auto
qed (unfold commits_map, rule saves_LoadCust, rule saves_LoadOrd)

lemma commits_load_parts:
  fixes s0 :: "('t, 'z) ld_scheme" and M :: "'s server"
  shows "commits (db.more s0) (load_parts M fuel part :: (('s, 'z) ld_scheme, unit) cm)
    (load_units (timestamp s0) (min_ware s0) (max_ware s0) part)"
proof (cases part)
  case None
  then show ?thesis
    unfolding load_parts_def load_units_def Let_def
    by (simp, intro commits_thn [where us = "[_]", simplified] commits_thn commits_parts)
next
  case (Some n)
  have "saves (db.more s0) (emit (Diag msg []) :: (('s, 'z) ld_scheme, unit) cm)
      (\<lambda>_ sts. sts = []) (\<lambda>sts. sts = [])" for msg
    by (rule savesI) (simp add: emit_def lands_def)
  with Some commits_parts [of s0 M fuel] show ?thesis
    by (auto simp: load_parts_def load_units_def intro: commits_none)
qed

lemma commits_load_work:
  fixes s0 :: "('t, 'z) ld_scheme" and M :: "'s server"
  shows "commits (db.more s0) (load_work M fuel a :: (('s, 'z) ld_scheme, unit) cm)
    (load_units (timestamp s0) (min_ware s0) (max_ware s0) (part_no a))"
proof -
  note step = commits_thn [where us = "[]", simplified] commits_thn [where vs = "[]", simplified]
  have "commits (db.more s0) (thn (connect M a) (thn (load_parts M fuel (part_no a))
     (thn (checked M Sqlerr 0 Commit)
     (thn (cfor [0..<11] (\<lambda>i. ignored M (StmtClose i))) (ignored M Close)))) ::
     (('s, 'z) ld_scheme, unit) cm)
    (load_units (timestamp s0) (min_ware s0) (max_ware s0) (part_no a))"
    by (intro step(1) [OF commits_connect] step(2) [OF commits_load_parts] step(1)
        commits_none [OF saves_commit] commits_cfor_none commits_none [OF saves_sql(2)]) simp_all
  then show ?thesis
    unfolding load_work_def commits_def by (rule saves_at_sqlerr)
qed

lemma at_sqlerr_caught:
  fixes m :: "(('s, 'z) db_scheme, 'a) cm"
  shows "at_sqlerr M b m s \<noteq> (Inl (Goto Sqlerr), t)"
proof
  assume "at_sqlerr M b m s = (Inl (Goto Sqlerr), t)"
  then obtain u where "(Error M b :: (('s, 'z) db_scheme, 'a) cm) u = (Inl (Goto Sqlerr), t)"
    by (auto simp: at_sqlerr_def handle_def halt_eq split: prod.splits sum.splits if_splits)
  with Error_run [of M b u, where ?'a = 'a] show False by auto
qed

lemma load_main_run:
  fixes M :: "'s server" and s :: "('s, 'z) ld_scheme"
  assumes "parse_args argv s = (Inr a, s1)" and "shd (stamps s1) = Some ts"
  shows "load_main M fuel argv s = thn (load_work M fuel a) (halt (Exit 0))
    (s1\<lparr>stamps := stl (stamps s1), timestamp := ts\<rparr>)"
  using assms by (simp add: load_main_def bnd_def thn_def gettimestamp_def)

lemma parse_args_ok:
  assumes "parse_args argv s = (Inr a, s1)"
  shows "log s1 = log s" "stamps s1 = stamps s" "rng s1 = rng s" "srv s1 = srv s"
  using assms unfolding parse_args_def Let_def fail_exit_def
  by (auto simp: thn_ok emit_def split: if_splits option.splits)

end
