(* ===== verification/LoadLive.thy ===== *)
theory LoadLive
  imports LoadMain
begin

text \<open>
  The theorems about the loader as a whole: what it has committed when it ends, and that it
  completes. Two loops of \<^verbatim>\<open>tpcc-mysql/src/load.c\<close> have no bound: the repetition of
  a batch and the search for an unmarked item. Against a server that accepts every call, and
  with random numbers that hit every item number again and again, the program ends, with 0.
\<close>

section \<open>Random numbers that reach every item\<close>

text \<open>Among any \<open>n\<close> successive results of \<open>rand\<close> there is one for every number \<open>0 \<dots> MAXITEMS\<close>.\<close>

definition reaches :: "nat \<Rightarrow> nat stream \<Rightarrow> bool" where
  "reaches n xs \<longleftrightarrow> (\<forall>k. \<forall>v \<in> {0..MAXITEMS}. \<exists>i < n.
     int (xs !! (k + i) mod 2147483648) mod (MAXITEMS + 1) = v)"

lemma reaches_sdrop: "reaches n xs \<Longrightarrow> reaches n (sdrop m xs)"
  unfolding reaches_def sdrop_snth by (metis add.assoc)

definition rng_on :: "'z support_scheme \<Rightarrow> 'z support_scheme \<Rightarrow> bool" where
  "rng_on s t \<longleftrightarrow> (\<exists>n. rng t = sdrop n (rng s))"

interpretation rgo: state_relation rng_on
proof
  show "rng_on s s" for s :: "'z support_scheme" unfolding rng_on_def by (rule exI [of _ 0]) simp
  show "rng_on s u" if "rng_on s t" "rng_on t u" for s t u :: "'z support_scheme"
    using that unfolding rng_on_def by (metis sdrop_twice)
qed

lemma draws_rng_on: "keeps draws m \<Longrightarrow> keeps rng_on m"
  by (erule keeps_mono) (auto simp: draws_def rng_on_def)

lemma same_rng_on: "(\<And>s. rng (snd (m s)) = rng s) \<Longrightarrow> keeps rng_on m"
  unfolding keeps_def rng_on_def by (metis sdrop.simps(1))

lemma calls_rng_on [keeps_intros]:
  "keeps rng_on (sql M t_num c)" "keeps rng_on (emit ev)" "keeps rng_on (checked M err t_num c)"
  by (rule same_rng_on, simp add: sql_def emit_def checked_def bnd_def ret_eq halt_eq split: prod.splits)+

lemma insert_row_rng_on [keeps_intros]: "keeps rng_on (insert_row M k ps)"
  unfolding insert_row_def try_stmt_execute_def
  by (intro keeps_intros) (auto intro!: keeps_intros split: prod.splits)

lemma random_rng_on [keeps_intros]:
  "keeps rng_on (RandomNumber lo hi)" "keeps rng_on (item_row orig i)" "keeps rng_on (ware_row w)"
  "keeps rng_on (stock_row orig w i)" "keeps rng_on (district_row w d)"
  "keeps rng_on (customer_row ts d w c)" "keeps rng_on (history_row ts d w c)"
  "keeps rng_on (order_line_row ts d w oid ol)" "keeps rng_on (mark_originals fuel)"
  by (rule draws_rng_on, rule keeps_intros)+

lemma swap_rng_on [keeps_intros]: "keeps rng_on (swap_in nums set_nums i j)"
  by (rule same_rng_on) (simp add: swap_in_def)

lemma modify_rng_on: "(\<And>s. rng (f s) = rng s) \<Longrightarrow> keeps rng_on (modify f)"
  by (rule same_rng_on) simp

lemma permutation_rng_on [keeps_intros]: "keeps rng_on InitPermutation" "keeps rng_on GetPermutation"
  unfolding InitPermutation_def GetPermutation_def
  by (intro keeps_intros modify_rng_on; simp)+

text \<open>An operation that returns, and after which the random numbers are as good as before.\<close>

definition live :: "nat \<Rightarrow> ('z support_scheme, 'a) cm \<Rightarrow> bool" where
  "live n m \<longleftrightarrow> returns (\<lambda>s. reaches n (rng s)) m (\<lambda>_ s. reaches n (rng s))"

lemma liveI:
  fixes m :: "('z support_scheme, 'a) cm"
  shows "succeeds m \<Longrightarrow> keeps rng_on m \<Longrightarrow> live n m"
  unfolding live_def
proof (rule returnsI)
  fix s :: "'z support_scheme"
  assume "succeeds m" "keeps rng_on m" "reaches n (rng s)"
  moreover from this obtain a t where "m s = (Inr a, t)" unfolding succeeds_def by blast
  ultimately show "\<exists>a t. m s = (Inr a, t) \<and> reaches n (rng t)"
    using keepsD [of rng_on m s "Inr a" t] reaches_sdrop by (auto simp: rng_on_def)
qed

lemma live_bnd: "live n m \<Longrightarrow> (\<And>a. live n (f a)) \<Longrightarrow> live n (bnd m f)"
  unfolding live_def by (rule returns_bnd)

lemma live_thn: "live n m \<Longrightarrow> live n k \<Longrightarrow> live n (thn m k)"
  unfolding thn_def by (rule live_bnd)

lemma live_cfor: "(\<And>i. i \<in> set js \<Longrightarrow> live n (body i)) \<Longrightarrow> live n (cfor js body)"
  unfolding live_def by (rule returns_cfor)

lemma live_gets: "live n (gets g)"
  by (rule liveI) (simp_all add: succeeds_def keeps_intros)

lemma live_handle: "live n m \<Longrightarrow> live n (handle m h)"
  unfolding live_def returns_def handle_def by fastforce

lemma live_at_sqlerr: "live n m \<Longrightarrow> live n (at_sqlerr M b m)"
  unfolding at_sqlerr_def by (rule live_handle)

lemma live_retrying: "live n m \<Longrightarrow> 0 < fuel \<Longrightarrow> live n (retrying fuel m)"
  by (cases fuel) (auto intro: live_handle)

section \<open>The search for an unmarked item\<close>

lemma find_free_returns:
  assumes "int (length orig) = MAXITEMS + 1" and "i < fuel"
    and "\<not> orig ! nat (int (rng s !! i mod 2147483648) mod (MAXITEMS + 1))"
  shows "\<exists>pos t. find_free fuel orig s = (Inr pos, t)"
  using assms(2,3)
proof (induction fuel arbitrary: i s)
  case (Suc fuel)
  let ?v = "int (shd (rng s) mod 2147483648) mod (MAXITEMS + 1)"
  let ?s = "s\<lparr>rng := stl (rng s)\<rparr>"
  have r: "RandomNumber 0 MAXITEMS s = (Inr ?v, ?s)"
    by (simp add: RandomNumber_run MAXITEMS_def)
  have v: "0 \<le> ?v" "?v < int (length orig)"
    using assms(1) pos_mod_bound [of "MAXITEMS + 1"] by (simp_all add: MAXITEMS_def)
  show ?case
  proof (cases "orig ! nat ?v")
    case False
    with r v show ?thesis by (simp add: bnd_def rd_def ret_eq)
  next
    case True
    with Suc.prems obtain j where "i = Suc j" by (cases i) auto
    with Suc.IH [of j ?s] Suc.prems obtain pos t where "find_free fuel orig ?s = (Inr pos, t)" by auto
    with True r v show ?thesis by (simp add: bnd_def rd_def ret_eq)
  qed
qed simp

lemma unmarked_exists: "marks orig < length orig \<Longrightarrow> \<exists>i < length orig. \<not> orig ! i"
  unfolding marks_def by (metis filter_True id_apply in_set_conv_nth nat_neq_iff)

lemma marks_update_le: "marks (xs[i := True]) \<le> Suc (marks xs)"
  unfolding marks_def by (induction xs arbitrary: i) (auto split: nat.split)

lemma mark_loop_live:
  assumes "int (length orig) = MAXITEMS + 1" and "marks (take 10000 orig) + length js \<le> 10000"
    and "reaches fuel (rng s)"
  shows "\<exists>orig' t. cfold js (\<lambda>_. mark_one fuel) orig s = (Inr orig', t)"
  using assms
proof (induction js arbitrary: orig s)
  case (Cons j js)
  have "length (take 10000 orig) = 10000" using Cons.prems(1) by (simp add: MAXITEMS_def)
  then obtain p where p: "p < 10000" "\<not> orig ! p"
    using unmarked_exists [of "take 10000 orig"] Cons.prems(2) by auto
  then have "int p \<in> {0..MAXITEMS}" by (simp add: MAXITEMS_def)
  with Cons.prems(3) obtain i where "i < fuel" "int (rng s !! (0 + i) mod 2147483648) mod (MAXITEMS + 1) = int p"
    unfolding reaches_def by blast
  with find_free_returns [OF Cons.prems(1), of i fuel s] p obtain pos t where
    run: "find_free fuel orig s = (Inr pos, t)" by auto
  have t: "reaches fuel (rng t)"
  proof -
    have "keeps draws (find_free fuel orig)" by (induction fuel) (auto intro!: keeps_intros)
    from keepsD [OF this run] reaches_sdrop [OF Cons.prems(3)] show ?thesis by (auto simp: draws_def)
  qed
  have "marks (take 10000 (orig[nat pos := True])) + length js \<le> 10000"
    using marks_update_le [of "take 10000 orig" "nat pos"] Cons.prems(2) by (simp add: take_update_swap)
  with Cons.IH [of "orig[nat pos := True]" t] Cons.prems(1) t run show ?case
    by (simp add: mark_one_def bnd_def ret_eq)
qed (simp add: ret_eq)

lemma mark_originals_live: "live fuel (mark_originals fuel)"
  unfolding live_def
proof (rule returnsI)
  fix s :: "'z support_scheme"
  assume s: "reaches fuel (rng s)"
  obtain orig u where u: "orig_start s = (Inr orig, u)" and o: "take 10000 orig = replicate 10000 False"
    "rng u = rng s"
    by (auto simp: orig_start_def Let_def MAXITEMS_def)
  have "marks (take 10000 orig) = 0" unfolding o marks_def by simp
  with mark_loop_live [OF length_orig_start [OF u], of "[0..MAXITEMS sdiv 10 - 1]" fuel u] o(2) s
  obtain orig' t where "cfold [0..MAXITEMS sdiv 10 - 1] (\<lambda>_. mark_one fuel) orig u = (Inr orig', t)"
    unfolding tenth_of_items by auto
  with u have run: "mark_originals fuel s = (Inr orig', t)" by (simp add: mark_originals_eq bnd_def)
  from keepsD [OF draws_rng_on [OF marks_draws] run] reaches_sdrop [OF s] have "reaches fuel (rng t)"
    by (auto simp: rng_on_def)
  with run show "\<exists>a t. mark_originals fuel s = (Inr a, t) \<and> reaches fuel (rng t)" by blast
qed

section \<open>The parts of the load\<close>

lemma succeeds_insert_row [succeeds_intros]:
  assumes "obliging M"
  shows "succeeds (insert_row M k ps)"
  unfolding succeeds_def
proof
  fix s
  obtain r w where 1: "M 0 (BindParam k ps) (srv s) = (0, r, w)"
    using obligingD [OF assms, of "BindParam k ps" 0 "srv s"] by auto
  obtain r' w' where 2: "M 0 (Execute k) w = (0, r', w')"
    using obligingD [OF assms, of "Execute k" 0 w] by auto
  obtain rc'' r'' w'' where 3: "M 0 Rollback w' = (rc'', r'', w'')" by (metis prod.collapse)
  show "\<exists>a t. insert_row M k ps s = (Inr a, t)"
    unfolding insert_row_run [of M, OF 1 2 3] by simp
qed

lemma live_items: "obliging M \<Longrightarrow> original_marks orig \<Longrightarrow> live n (items_pass M orig)"
  unfolding items_pass_def original_marks_def
  by (intro live_cfor liveI succeeds_intros keeps_intros) auto

lemma mark_originals_result: "mark_originals fuel s = (Inr orig, t) \<Longrightarrow> original_marks orig"
  by (auto simp: original_marks_def elim: mark_originals_ok)

lemma live_marks_bnd:
  fixes f :: "bool list \<Rightarrow> ('z support_scheme, 'a) cm"
  assumes "\<And>orig. original_marks orig \<Longrightarrow> live fuel (f orig)"
  shows "live fuel (bnd (mark_originals fuel) f)"
  unfolding live_def
proof (rule returnsI)
  fix s :: "'z support_scheme"
  assume "reaches fuel (rng s)"
  with mark_originals_live obtain orig t where run: "mark_originals fuel s = (Inr orig, t)"
    and t: "reaches fuel (rng t)"
    unfolding live_def returns_def by blast
  from assms [OF mark_originals_result [OF run]] t
  show "\<exists>a t. bnd (mark_originals fuel) f s = (Inr a, t) \<and> reaches fuel (rng t)"
    unfolding live_def returns_def bnd_def run by simp
qed

lemma succeeds_commit [succeeds_intros]: "obliging M \<Longrightarrow> succeeds (checked M err t_num Commit)"
  by (rule succeeds_checked) simp_all

lemma live_commit: "obliging M \<Longrightarrow> live n (checked M Sqlerr 0 Commit)"
  by (intro liveI succeeds_intros keeps_intros)

lemma live_LoadItems: "obliging M \<Longrightarrow> 0 < fuel \<Longrightarrow> live fuel (LoadItems M fuel)"
  unfolding LoadItems_def
  by (intro live_at_sqlerr live_marks_bnd live_thn live_retrying live_items live_commit)

lemma live_rows:
  assumes "obliging M" and "\<And>i. i \<in> set js \<Longrightarrow> succeeds (row i)" and "\<And>i. keeps rng_on (row i)"
  shows "live n (cfor js (\<lambda>i. bnd (row i) (insert_row M k)))"
  by (intro live_cfor liveI succeeds_bnd succeeds_insert_row rgo.bnd_keeps insert_row_rng_on)
    (use assms in auto)

lemma live_ware: "obliging M \<Longrightarrow> live fuel (ware_pass M fuel w_id)"
  unfolding ware_pass_eq
proof (intro live_thn live_at_sqlerr live_marks_bnd)
  assume M: "obliging M"
  show "live fuel (bnd (ware_row w_id) (insert_row M 1))"
    using M by (intro liveI succeeds_intros keeps_intros)
  show "live fuel (cfor [1..MAXITEMS] (\<lambda>i. bnd (stock_row orig w_id i) (insert_row M 2)))"
    if "original_marks orig" for orig
    using M that by (intro live_rows succeeds_intros keeps_intros) (auto simp: original_marks_def)
  show "live fuel (cfor [1..DIST_PER_WARE] (\<lambda>d. bnd (district_row w_id d) (insert_row M 3)))"
    using M by (intro live_rows succeeds_intros keeps_intros)
qed

lemma live_LoadWare: "obliging M \<Longrightarrow> 0 < fuel \<Longrightarrow> live fuel (LoadWare M fuel)"
  unfolding LoadWare_def
  by (intro live_at_sqlerr live_bnd live_gets live_cfor live_thn live_retrying live_ware live_commit)

lemma live_Customer: "obliging M \<Longrightarrow> 0 < fuel \<Longrightarrow> live fuel (Customer M fuel d_id w_id)"
  unfolding Customer_def customer_pass_def
  by (intro live_at_sqlerr live_thn live_retrying live_commit live_bnd live_gets live_cfor)
    (auto intro!: liveI succeeds_intros keeps_intros)

text \<open>
  In the orders the customer numbers come from the permutation: the pass returns since it does
  nothing but insert (lemma \<open>does_orders\<close>) and no insert fails.
\<close>

definition smooth :: "('st, 'a) cm \<Rightarrow> bool" where
  "smooth m \<longleftrightarrow> (\<forall>s e t. m s = (Inl e, t) \<longrightarrow> e = DivZero \<or> e = OutOfBounds \<or> e = Abort)"

lemma smooth_succeeds: "succeeds m \<Longrightarrow> smooth m"
  unfolding succeeds_def smooth_def by (metis prod.inject sum.distinct(1))

lemma smooth_bnd: "smooth m \<Longrightarrow> (\<And>a. smooth (f a)) \<Longrightarrow> smooth (bnd m f)"
  unfolding smooth_def bnd_stop by blast

lemma smooth_thn: "smooth m \<Longrightarrow> smooth k \<Longrightarrow> smooth (thn m k)"
  unfolding thn_def by (rule smooth_bnd)

lemma smooth_cfor: "(\<And>i. smooth (body i)) \<Longrightarrow> smooth (cfor js body)"
  by (induction js) (auto intro: smooth_thn smooth_succeeds succeeds_ret)

lemma smooth_random: "smooth (RandomNumber lo hi)" "smooth GetPermutation" "smooth InitPermutation"
proof -
  show r: "smooth (RandomNumber lo hi)" for lo hi
    by (auto simp: smooth_def RandomNumber_def c_rand_def bnd_def halt_eq ret_eq)
  show "smooth GetPermutation"
    by (auto simp: smooth_def GetPermutation_def bnd_stop rd_def thn_stop ret_eq halt_eq split: if_splits)
  have "smooth (swap_in nums set_nums i j)" for i j
    by (auto simp: smooth_def swap_in_def)
  then show "smooth InitPermutation"
    unfolding InitPermutation_def
    by (intro smooth_thn smooth_cfor smooth_bnd r) (simp_all add: smooth_def)
qed

lemma smooth_orders:
  assumes "obliging M"
  shows "smooth (thn InitPermutation (cfor [1..ORD_PER_DIST] (order_rows M ts d_id w_id)))"
proof -
  have "smooth (insert_row M k ps)" for k ps
    using assms by (intro smooth_succeeds succeeds_insert_row)
  then have "smooth (order_head M ts d_id w_id oid c carrier n)" for oid c carrier n
    unfolding order_head_def by (auto intro: smooth_thn)
  moreover have "smooth (insert_row M k ps)" for k ps
    using assms by (intro smooth_succeeds succeeds_insert_row)
  moreover have "smooth (order_line_row ts d_id w_id oid ol)" for oid ol
    by (intro smooth_succeeds succeeds_rows)
  ultimately show ?thesis
    unfolding order_rows_def
    by (intro smooth_thn smooth_cfor smooth_bnd smooth_random) (auto split: prod.split)
qed

lemma live_orders_pass:
  fixes M :: "'s server"
  assumes "obliging M"
  shows "live n (orders_pass M d_id w_id :: (('s, 'z) ld_scheme, unit) cm)"
proof (rule liveI)
  show "succeeds (orders_pass M d_id w_id :: (('s, 'z) ld_scheme, unit) cm)"
    unfolding succeeds_def
  proof
    fix s :: "('s, 'z) ld_scheme"
    obtain r t where run: "orders_pass M d_id w_id s = (r, t)" by (cases "orders_pass M d_id w_id s")
    have "does (\<lambda>s'. s' = s) (orders_pass M d_id w_id)
        (\<lambda>_ sts _. orders_unit (timestamp s) w_id d_id sts)" by (rule does_orders) simp
    from does_run [OF this refl run] obtain es where
      "ended (\<lambda>_ sts. orders_unit (timestamp s) w_id d_id sts) r es" .
    moreover have "smooth (thn InitPermutation (cfor [1..ORD_PER_DIST]
        (order_rows M (timestamp s) d_id w_id)) :: (('s, 'z) ld_scheme, unit) cm)" using smooth_orders [OF assms] .
    then have "r = Inl e \<Longrightarrow> e = DivZero \<or> e = OutOfBounds \<or> e = Abort" for e
      using run unfolding orders_pass_def smooth_def by (simp, blast)
    ultimately show "\<exists>a t. orders_pass M d_id w_id s = (Inr a, t)"
      using run by (cases r) auto
  qed
  show "keeps rng_on (orders_pass M d_id w_id :: (('s, 'z) ld_scheme, unit) cm)"
    unfolding orders_pass_def order_rows_def order_head_def
    by (intro keeps_intros) (auto intro!: keeps_intros split: prod.split)
qed

lemma live_Orders:
  fixes M :: "'s server"
  shows "obliging M \<Longrightarrow> 0 < fuel \<Longrightarrow> live fuel (Orders M fuel d_id w_id :: (('s, 'z) ld_scheme, unit) cm)"
  unfolding Orders_def
  by (intro live_at_sqlerr live_thn live_retrying live_commit live_orders_pass)

lemma live_by_district:
  "obliging M \<Longrightarrow> (\<And>d w. live n (f d w)) \<Longrightarrow> live n (by_district M f)"
  unfolding by_district_def
  by (intro live_at_sqlerr live_bnd live_gets live_thn live_cfor live_commit)

lemma live_emit: "live n (emit ev)"
  by (intro liveI succeeds_intros keeps_intros)

lemma live_parts:
  "obliging M \<Longrightarrow> 0 < fuel \<Longrightarrow> live fuel (load_parts M fuel part)"
  unfolding load_parts_def LoadCust_def LoadOrd_def
  by (cases part) (auto intro!: live_thn live_LoadItems live_LoadWare live_by_district live_Customer
      live_Orders live_emit)

lemma live_checked: "obliging M \<Longrightarrow> \<not> at_cursor c \<Longrightarrow> live n (checked M Sqlerr 0 c)"
  by (intro liveI succeeds_intros keeps_intros)

lemma live_ignored: "live n (ignored M c)"
  unfolding ignored_def by (intro liveI succeeds_intros keeps_intros)

lemma at_cursor_setup [simp]:
  "\<not> at_cursor Init" "\<not> at_cursor (Connect host usr pass db p socket)" "\<not> at_cursor (StmtInit k)"
  "\<not> at_cursor (Prepare k str len)"
  by (simp_all add: at_cursor_def)

lemma live_work: "obliging M \<Longrightarrow> 0 < fuel \<Longrightarrow> live fuel (load_work M fuel a)"
  unfolding load_work_def connect_def Let_def
  by (intro live_at_sqlerr live_thn live_checked live_ignored live_cfor live_parts live_commit)
    (auto intro!: live_checked)

section \<open>An example\<close>

text \<open>The program called for one warehouse on the local server.\<close>

definition example_argv :: "string list" where
  "example_argv = [''tpcc_load'', ''l'', ''tpcc1000'', ''root'', [], ''1'']"

definition every_number :: "nat stream" where
  "every_number = siterate (\<lambda>n. (n + 1) mod 100001) 0"

definition example_ld :: "nat ld" where
  "example_ld = db.extend example_db \<lparr>timestamp = [], min_ware = 0, max_ware = 0\<rparr>
     \<lparr>rng := every_number\<rparr>"

lemma every_number_nth: "every_number !! k = k mod 100001"
proof -
  have "((\<lambda>n. (n + 1) mod 100001) ^^ k) 0 = k mod (100001 :: nat)"
    by (induction k) (simp_all add: mod_Suc_eq)
  then show ?thesis by (simp add: every_number_def)
qed

lemma every_number_reaches: "reaches 100001 every_number"
  unfolding reaches_def
proof (intro allI ballI)
  fix k and v :: int
  assume v: "v \<in> {0..MAXITEMS}"
  let ?i = "nat ((v - int k) mod 100001)"
  have i: "int ?i = (v - int k) mod 100001" by simp
  have "?i < 100001" using i pos_mod_bound [of 100001 "v - int k"] by linarith
  moreover have "int ((k + ?i) mod 100001) = v"
  proof -
    have "int ((k + ?i) mod 100001) = (int k + (v - int k) mod 100001) mod 100001"
      by (simp add: zmod_int i del: of_nat_nat)
    also have "\<dots> = v" using v by (simp add: mod_add_right_eq MAXITEMS_def)
    finally show ?thesis .
  qed
  moreover have "(k + ?i) mod 100001 < 100001" by simp
  then have "(k + ?i) mod 100001 mod 2147483648 = (k + ?i) mod 100001" by simp
  ultimately show "\<exists>i < 100001. int (every_number !! (k + i) mod 2147483648) mod (MAXITEMS + 1) = v"
    using v by (intro exI [of _ ?i]) (simp add: every_number_nth MAXITEMS_def)
qed

definition example_args :: load_args where
  "example_args = \<lparr>connect_string = ''l'', port = 3306, db_string = ''tpcc1000'', db_user = ''root'',
     db_password = [], part_no = None\<rparr>"

lemma example_parse:
  "parse_args example_argv example_ld = (Inr example_args, example_ld\<lparr>min_ware := 1, max_ware := 1\<rparr>)"
proof -
  have "decimal 1 = ''1''" by (simp add: decimal_def decimal_nat.simps digit_char_def char_of_def)
  with atoi_decimal [of 1] have "atoi ''1'' = 1" by simp
  moreover have "rindex_colon ''l'' = None" by (simp add: rindex_colon_def)
  ultimately show ?thesis
    by (simp add: parse_args_def example_argv_def example_args_def DB_STRING_MAX_def parse_port_def
        parse_host_def thn_def bnd_def ret_eq)
qed

lemma example_ld_simps [simp]:
  "rng example_ld = every_number" "shd (stamps example_ld) = Some ''2014-11-01 00:00:00''"
  by (simp_all add: example_ld_def example_db_def db.extend_def hist.extend_def)

section \<open>The widths of the rows\<close>

lemma each_member: "each W js sts \<Longrightarrow> x \<in> set sts \<Longrightarrow> \<exists>j \<in> set js. \<exists>y. W j y \<and> x \<in> set y"
proof -
  assume "each W js sts" "x \<in> set sts"
  then obtain stss y where "list_all2 W js stss" and y: "y \<in> set stss" "x \<in> set y"
    unfolding each_def by auto
  moreover from y(1) obtain i where "i < length stss" "y = stss ! i" by (auto simp: in_set_conv_nth)
  ultimately have "js ! i \<in> set js" "W (js ! i) y" by (auto simp: list_all2_conv_all_nth)
  with y(2) show ?thesis by blast
qed

lemma address_length: "address_ok xs \<Longrightarrow> length xs = 5"
  by (auto simp: address_ok_def)

definition widths :: "(nat \<times> nat) set" where
  "widths = {(0, 5), (1, 9), (2, 14), (3, 11), (4, 18), (5, 8), (6, 6), (7, 3), (8, 7), (9, 9), (10, 10)}"

definition wide :: "stmts \<Rightarrow> bool" where
  "wide sts \<longleftrightarrow> (\<forall>(k, ps) \<in> set sts. (k, length ps) \<in> widths)"

lemma each_wide: "each W js sts \<Longrightarrow> (\<And>j y. j \<in> set js \<Longrightarrow> W j y \<Longrightarrow> wide y) \<Longrightarrow> wide sts"
  unfolding wide_def by (blast dest: each_member)

lemma wide_append: "wide (xs @ ys) \<longleftrightarrow> wide xs \<and> wide ys"
  by (auto simp: wide_def)

lemma wide_items: "item_table sts \<Longrightarrow> wide sts"
  unfolding item_table_def
  by (elim exE conjE, erule each_wide, unfold item_ok_def, elim exE conjE) (simp add: wide_def widths_def)

lemma wide_stock: "stock_table w sts \<Longrightarrow> wide sts"
  unfolding stock_table_def
  by (elim exE conjE, erule each_wide, unfold stock_ok_def, elim exE conjE) (simp add: wide_def widths_def)

lemma wide_district: "district_table w sts \<Longrightarrow> wide sts"
  unfolding district_table_def
  by (erule each_wide, unfold district_ok_def, elim exE conjE) (simp add: wide_def widths_def address_length)

lemma wide_ware: "ware_unit w sts \<Longrightarrow> wide sts"
proof -
  assume "ware_unit w sts"
  then obtain ps sts1 sts2 where sts: "sts = [(1, ps)] @ sts1 @ sts2" and "ware_ok w ps"
    "stock_table w sts1" "district_table w sts2" by (auto simp: ware_unit_def)
  moreover have "wide [(1, ps)]" if "ware_ok w ps"
    using that by (auto simp: ware_ok_def wide_def widths_def address_length)
  ultimately show ?thesis unfolding sts by (simp only: wide_append wide_stock wide_district simp_thms)
qed

lemma wide_customers: "customer_unit ts w d sts \<Longrightarrow> wide sts"
  unfolding customer_unit_def
  by (erule each_wide, unfold customer_ok_def history_ok_def, elim exE conjE)
    (simp add: wide_def widths_def address_length)

lemma wide_lines: "each (\<lambda>ol sts. \<exists>st. sts = [st] \<and> line_ok ts d w oid ol st) js sts \<Longrightarrow> wide sts"
  by (erule each_wide, unfold line_ok_def, elim exE conjE) (simp add: wide_def widths_def)

lemma wide_order: "order_stmts ts w d oid c sts \<Longrightarrow> wide sts"
  unfolding order_stmts_def
  by (elim exE conjE, drule wide_lines) (simp add: wide_append, simp add: wide_def widths_def)

lemma wide_orders: "orders_unit ts w d sts \<Longrightarrow> wide sts"
  unfolding orders_unit_def
  by (elim exE conjE, erule each_wide) (auto intro: wide_order)

lemma unit_widths:
  assumes "W \<in> set (load_units ts lo hi part)" and "W x" and "(k, ps) \<in> set x"
  shows "(k, length ps) \<in> widths"
proof -
  have "wide x"
    using assms(1,2) by (auto simp: load_units_def Let_def split: option.splits if_splits
        intro: wide_items wide_ware wide_customers wide_orders)
  with assms(3) show ?thesis by (auto simp: wide_def)
qed

lemma sql_widths:
  assumes "(k, n) \<in> widths"
  shows "k < length load_sql \<and> n = count_list (fst (load_sql ! k)) CHR ''?'' \<and>
    snd (load_sql ! k) = length (fst (load_sql ! k))"
  using assms by (auto simp: widths_def load_sql_def)

text \<open>A table of items, all of them original.\<close>

definition example_item :: "int \<Rightarrow> param list" where
  "example_item i = [PLong i, PLong 1, PString (replicate 14 (CHR ''x'')),
     PFloat (f32 (f64 (of_int 100 / 100))), PString (''original'' @ replicate 18 (CHR ''x''))]"

lemma each_single: "(\<And>j. j \<in> set js \<Longrightarrow> W j [f j]) \<Longrightarrow> each W js (map f js)"
  by (induction js) (auto dest: each_Cons [where sts = "[_]", simplified])

lemma example_items:
  "upto_units (load_units [] 1 1 (Some 1)) (map (\<lambda>i. (0, example_item i)) [1..MAXITEMS])"
proof -
  let ?orig = "replicate (nat (MAXITEMS + 1)) True"
  have sub: "sublist ''original'' (''original'' @ replicate 18 (CHR ''x''))" 
    unfolding sublist_def by (metis append_Nil)
  have "item_ok ?orig i (example_item i)" for i
    unfolding item_ok_def example_item_def
    by (rule exI [of _ 1], rule exI, rule exI [of _ 100], rule exI, rule conjI, rule refl)
      (use sub in simp)
  moreover have "original_marks ?orig" by (simp add: original_marks_def marks_def MAXITEMS_def)
  ultimately have "item_table (map (\<lambda>i. (0, example_item i)) [1..MAXITEMS])"
    unfolding item_table_def by (intro exI [of _ ?orig] conjI each_single) auto
  then have "each (\<lambda>W. W) [item_table] (map (\<lambda>i. (0, example_item i)) [1..MAXITEMS])"
    using each_Cons [of "\<lambda>W. W" item_table _ "[]" "[]"] by simp
  then show ?thesis by (simp add: load_units_def each_upto)
qed

section \<open>Properties\<close>



lemma load_exits:
  assumes "obliging M" and "parse_args argv s = (Inr a, s1)" and "shd (stamps s) = Some ts"
    and "0 < fuel" and "reaches fuel (rng s)"
  shows "\<exists>t. load_main M fuel argv s = (Inl (Exit 0), t)"
proof -
  let ?s = "s1\<lparr>stamps := stl (stamps s1), timestamp := ts\<rparr>"
  note p = parse_args_ok [OF assms(2)]
  have "reaches fuel (rng ?s)" using assms(5) p by simp
  with returnsD [OF live_work [OF assms(1,4), unfolded live_def], of ?s]
  obtain u t where "load_work M fuel a ?s = (Inr u, t)" by blast
  moreover have "shd (stamps s1) = Some ts" using assms(3) p by simp
  ultimately show ?thesis
    unfolding load_main_run [OF assms(2) \<open>shd (stamps s1) = Some ts\<close>]
    by (simp add: thn_def bnd_def halt_eq)
qed

text \<open>
  Property C16. The load ends, with exit code 0, when the server accepts every call and the
  random numbers reach every item number within the fuel: the search for unmarked items
  ends although the code clears only a tenth of the marks, since it needs no more marks than it has
  cleared. The fuel bounds each search and each repetition of a batch.
\<close>

theorem load_completes:
  assumes "obliging M" and "parse_args argv s = (Inr a, s1)" and "shd (stamps s) = Some ts"
    and "0 < fuel" and "reaches fuel (rng s)"
  shows "\<exists>t. load_main M fuel argv s = (Inl (Exit 0), t)"
  by (rule load_exits [OF assms])

theorem load_completes_witness:
  "\<exists>t. load_main calm_server 100001 example_argv example_ld = (Inl (Exit 0), t)"
  by (rule load_completes [OF calm_obliging example_parse _ _, where ts = "''2014-11-01 00:00:00''"])
    (simp_all add: every_number_reaches)

text \<open>
  The rows bound to a statement have as many parameters as the text of the
  statement has question marks, and the length passed to \<open>mysql_stmt_prepare\<close> is that of the
  text, for every row of every part of the load.
\<close>

theorem load_sql_binds:
  assumes "upto_units (load_units ts lo hi part) sts" and "(k, ps) \<in> set sts"
  shows "k < length load_sql \<and> length ps = count_list (fst (load_sql ! k)) CHR ''?'' \<and>
    snd (load_sql ! k) = length (fst (load_sql ! k))"
proof -
  from assms(1) obtain n where "each (\<lambda>W. W) (take n (load_units ts lo hi part)) sts"
    by (auto simp: upto_units_def)
  from each_member [OF this assms(2)] obtain W x where "W \<in> set (load_units ts lo hi part)"
    "W x" "(k, ps) \<in> set x" by (auto dest: in_set_takeD)
  then show ?thesis using unit_widths sql_widths by blast
qed

theorem load_sql_binds_witness:
  "0 < length load_sql \<and> length (example_item 1) = count_list (fst (load_sql ! 0)) CHR ''?'' \<and>
    snd (load_sql ! 0) = length (fst (load_sql ! 0))"
  by (rule load_sql_binds [OF example_items]) (auto simp: MAXITEMS_def)

text \<open>
  The marks of original items are not initialised beyond the first tenth: with a
  memory that is not zero the loader brands every item as original, where a tenth is meant
  to be (the code sets a mark for \<open>MAXITEMS / 10\<close> items).
\<close>

theorem all_items_original:
  "\<exists>s :: nat ld. \<exists>orig t. mark_originals 100001 s = (Inr orig, t) \<and> marks orig = length orig"
proof -
  let ?s = "example_ld\<lparr>garbage := sconst 1\<rparr>"
  from returnsD [OF mark_originals_live [unfolded live_def], of 100001 ?s] every_number_reaches
  obtain orig t where run: "mark_originals 100001 ?s = (Inr orig, t)" by auto
  from mark_originals_ok [OF run] obtain start u where u: "orig_start ?s = (Inr start, u)"
    "int (length orig) = MAXITEMS + 1" "marks orig = marks start + 10000" by metis
  have "stl (sconst (1 :: 32 word)) = sconst 1" by simp
  then have "stake n (sconst (1 :: 32 word)) = replicate n 1" for n
    by (induction n) (simp_all del: siterate.simps add: replicate_append_same [symmetric])
  then have "start = replicate 10000 False @ replicate 90001 True"
    using u(1) by (auto simp: orig_start_def Let_def MAXITEMS_def)
  then have "marks start = 90001" by (simp add: marks_def)
  with u(2,3) run show ?thesis by (intro exI [of _ ?s] exI [of _ orig] exI [of _ t]) (simp add: MAXITEMS_def)
qed

text \<open>
  The database that the loader writes is not consistent: the year-to-date payments
  of a warehouse (\<open>w_ytd\<close>, 3000000) are not the sum of those of its ten districts (\<open>d_ytd\<close>,
  30000 each), which the first consistency condition of TPC-C requires and every Payment keeps.
\<close>

theorem ytd_inconsistent:
  assumes "ware_row w_id s = (Inr ps, t)"
    and "\<And>d. d \<in> {1..DIST_PER_WARE} \<Longrightarrow> fst (district_row w_id d (sd d)) = Inr (qs d)"
  shows "\<exists>w_ytd d_ytd. ps ! 8 = PFloat w_ytd \<and>
    (\<forall>d \<in> {1..DIST_PER_WARE}. qs d ! 9 = PFloat (d_ytd d)) \<and> w_ytd \<noteq> sum d_ytd {1..DIST_PER_WARE}"
proof (intro exI conjI ballI)
  from ware_row_ok [OF assms(1)] show "ps ! 8 = PFloat 3000000"
    by (auto simp: ware_ok_def address_ok_def)
  show "qs d ! 9 = PFloat 30000" if "d \<in> {1..DIST_PER_WARE}" for d
  proof -
    from assms(2) [OF that] obtain u where "district_row w_id d (sd d) = (Inr (qs d), u)"
      by (metis prod.collapse)
    from district_row_ok [OF this] show ?thesis by (auto simp: district_ok_def address_ok_def)
  qed
  show "(3000000 :: rat) \<noteq> sum (\<lambda>_. 30000) {1..DIST_PER_WARE}" by (simp add: DIST_PER_WARE_def)
qed

theorem ytd_inconsistent_witness:
  "\<exists>ps t qs. ware_row 1 example_ld = (Inr ps, t) \<and> (\<exists>w_ytd d_ytd. ps ! 8 = PFloat w_ytd \<and>
    (\<forall>d \<in> {1..DIST_PER_WARE}. qs d ! 9 = PFloat (d_ytd d)) \<and> w_ytd \<noteq> sum d_ytd {1..DIST_PER_WARE})"
proof -
  obtain ps t where ps: "ware_row 1 example_ld = (Inr ps, t)"
    using succeeds_rows(3) unfolding succeeds_def by blast
  have "\<forall>d. \<exists>q. fst (district_row 1 d example_ld) = Inr q"
    using succeeds_rows(4) unfolding succeeds_def by (metis fst_conv)
  then obtain qs where "\<And>d. fst (district_row 1 d example_ld) = Inr (qs d)" by metis
  from ytd_inconsistent [OF ps, where sd = "\<lambda>_. example_ld" and qs = qs] this ps show ?thesis by blast
qed

end
