(* ===== verification/Gen.thy ===== *)
theory Gen
  imports LoadLive
begin

text \<open>
  The generator of data files, \<^verbatim>\<open>tpcc-mysql/src/gen.c\<close>: the loader with its inserts replaced by
  lines of text, one file per table. The generators of the rows are the same code in both
  programs, so the definitions of theory Load serve for both; this theory has the files, the text
  of a row, the loops over the rows, and \<open>main\<close>. Seeding \<open>rand\<close> and the progress output are not
  modelled. The search for an unmarked item has fuel, as in the loader.
\<close>

section \<open>Files\<close>

datatype table = Item | Warehouse | StockTable | DistrictTable | CustomerTable | History
  | OrdersTable | NewOrders | OrderLine

text \<open>\<open>streams\<close> says whether the nine \<open>FILE *\<close> are open; they are NULL before and after.\<close>

record gen = support +
  gen_timestamp :: string
  gen_min_ware :: int
  gen_max_ware :: int
  streams :: bool
  disk :: "table \<Rightarrow> string"

text \<open>\<^verbatim>\<open>%d\<close>, \<^verbatim>\<open>%s\<close> and \<^verbatim>\<open>%f\<close>.\<close>

fun PrintOneBind :: "param \<Rightarrow> string" where
  "PrintOneBind (PLong n) = decimal n"
| "PrintOneBind (PString str) = cstr str"
| "PrintOneBind (PFloat x) = fixed6 x"

fun PrintBind_text :: "param list \<Rightarrow> string" where
  "PrintBind_text [] = [CHR 0x0A]"
| "PrintBind_text [p] = PrintOneBind p @ [CHR 0x0A]"
| "PrintBind_text (p # q # ps) = PrintOneBind p @ CHR 0x09 # PrintBind_text (q # ps)"

text \<open>\<open>fprintf\<close> to a stream that is NULL ends the program.\<close>

definition PrintBind :: "table \<Rightarrow> param list \<Rightarrow> ('z gen_scheme, unit) cm" where
  "PrintBind tab ps = bnd (gets streams) (\<lambda>is_open.
     if is_open then modify (\<lambda>s. s\<lparr>disk := (disk s)(tab := disk s tab @ PrintBind_text ps)\<rparr>)
     else halt OutOfBounds)"

text \<open>Each file is opened and emptied in turn; one that cannot be opened fails its assertion.\<close>

definition tables :: "table list" where
  "tables = [Item, Warehouse, StockTable, DistrictTable, CustomerTable, History, OrdersTable,
     NewOrders, OrderLine]"

definition OpenFiles :: "(table \<Rightarrow> bool) \<Rightarrow> ('z gen_scheme, unit) cm" where
  "OpenFiles can_open =
     thn (cfor tables (\<lambda>tab. if can_open tab then modify (\<lambda>s. s\<lparr>disk := (disk s)(tab := [])\<rparr>)
                            else halt Abort))
       (modify (\<lambda>s. s\<lparr>streams := True\<rparr>))"

definition CloseFiles :: "('z gen_scheme, unit) cm" where
  "CloseFiles = modify (\<lambda>s. s\<lparr>streams := False\<rparr>)"

section \<open>Tables\<close>

definition gen_LoadItems :: "nat \<Rightarrow> ('z gen_scheme, unit) cm" where
  "gen_LoadItems fuel = bnd (mark_originals fuel) (\<lambda>orig.
     cfor [1..MAXITEMS] (\<lambda>i_id. bnd (item_row orig i_id) (PrintBind Item)))"

definition gen_Stock :: "nat \<Rightarrow> int \<Rightarrow> ('z gen_scheme, unit) cm" where
  "gen_Stock fuel w_id = bnd (mark_originals fuel) (\<lambda>orig.
     cfor [1..MAXITEMS] (\<lambda>s_i_id. bnd (stock_row orig w_id s_i_id) (PrintBind StockTable)))"

definition gen_District :: "int \<Rightarrow> ('z gen_scheme, unit) cm" where
  "gen_District w_id = cfor [1..DIST_PER_WARE] (\<lambda>d_id.
     bnd (district_row w_id d_id) (PrintBind DistrictTable))"

definition gen_LoadWare :: "nat \<Rightarrow> ('z gen_scheme, unit) cm" where
  "gen_LoadWare fuel = bnd (gets gen_min_ware) (\<lambda>lo. bnd (gets gen_max_ware) (\<lambda>hi.
     cfor [lo..hi] (\<lambda>w_id.
       thn (bnd (ware_row w_id) (PrintBind Warehouse))
      (thn (gen_Stock fuel w_id) (gen_District w_id)))))"

definition gen_Customer :: "int \<Rightarrow> int \<Rightarrow> ('z gen_scheme, unit) cm" where
  "gen_Customer d_id w_id = bnd (gets gen_timestamp) (\<lambda>tstamp.
     cfor [1..CUST_PER_DIST] (\<lambda>c_id.
       thn (bnd (customer_row tstamp d_id w_id c_id) (PrintBind CustomerTable))
         (bnd (history_row tstamp d_id w_id c_id) (PrintBind History))))"

text \<open>The last 900 orders have no carrier: their line has a field less, as have their order lines.\<close>

definition gen_order :: "string \<Rightarrow> int \<Rightarrow> int \<Rightarrow> int \<Rightarrow> int \<Rightarrow> int \<Rightarrow> int \<Rightarrow> ('z gen_scheme, unit) cm" where
  "gen_order tstamp d_id w_id o_id o_c_id o_carrier_id o_ol_cnt =
     (if o_id > 2100 then
        thn (PrintBind OrdersTable [PLong o_id, PLong d_id, PLong w_id, PLong o_c_id, PString tstamp,
               PLong o_ol_cnt])
          (PrintBind NewOrders [PLong o_id, PLong d_id, PLong w_id])
      else PrintBind OrdersTable [PLong o_id, PLong d_id, PLong w_id, PLong o_c_id, PString tstamp,
             PLong o_carrier_id, PLong o_ol_cnt])"

definition gen_order_lines :: "string \<Rightarrow> int \<Rightarrow> int \<Rightarrow> int \<Rightarrow> int \<Rightarrow> ('z gen_scheme, unit) cm" where
  "gen_order_lines tstamp d_id w_id o_id o_ol_cnt = cfor [1..o_ol_cnt] (\<lambda>ol.
     bnd (order_line_row tstamp d_id w_id o_id ol) (\<lambda>(_, ps). PrintBind OrderLine ps))"

definition gen_Orders :: "int \<Rightarrow> int \<Rightarrow> ('z gen_scheme, unit) cm" where
  "gen_Orders d_id w_id = bnd (gets gen_timestamp) (\<lambda>tstamp.
     thn InitPermutation (cfor [1..ORD_PER_DIST] (\<lambda>o_id.
       bnd GetPermutation (\<lambda>o_c_id.
       bnd (RandomNumber 1 10) (\<lambda>o_carrier_id.
       bnd (RandomNumber 5 15) (\<lambda>o_ol_cnt.
       thn (gen_order tstamp d_id w_id o_id o_c_id o_carrier_id o_ol_cnt)
         (gen_order_lines tstamp d_id w_id o_id o_ol_cnt)))))))"

definition gen_by_district :: "(int \<Rightarrow> int \<Rightarrow> ('z gen_scheme, unit) cm) \<Rightarrow> ('z gen_scheme, unit) cm" where
  "gen_by_district f = bnd (gets gen_min_ware) (\<lambda>lo. bnd (gets gen_max_ware) (\<lambda>hi.
     cfor [lo..hi] (\<lambda>w_id. cfor [1..DIST_PER_WARE] (\<lambda>d_id. f d_id w_id))))"

definition gen_LoadCust :: "('z gen_scheme, unit) cm" where
  "gen_LoadCust = gen_by_district gen_Customer"

definition gen_LoadOrd :: "('z gen_scheme, unit) cm" where
  "gen_LoadOrd = gen_by_district gen_Orders"

section \<open>The program\<close>

text \<open>The part asked for, \<open>None\<close> for all; the arguments include the name of the program.\<close>

definition gen_args :: "string list \<Rightarrow> ('z gen_scheme, int option) cm" where
  "gen_args argv =
     (if length argv \<noteq> 5 \<and> length argv \<noteq> 2 then halt (Exit 1)
      else let particle = (length argv = 5); count_ware = atoi (argv ! 1) in
      if count_ware \<le> 0 then halt (Exit 1)
      else thn (modify (\<lambda>s. s\<lparr>gen_min_ware := if particle then atoi (argv ! 3) else 1,
                               gen_max_ware := if particle then atoi (argv ! 4) else count_ware\<rparr>))
        (ret (if particle then Some (atoi (argv ! 2)) else None)))"

definition gen_parts :: "nat \<Rightarrow> (table \<Rightarrow> bool) \<Rightarrow> int option \<Rightarrow> ('z gen_scheme, unit) cm" where
  "gen_parts fuel can_open part = (case part of
       None \<Rightarrow> thn (OpenFiles can_open)
        (thn (gen_LoadItems fuel) (thn (gen_LoadWare fuel) (thn gen_LoadCust (thn gen_LoadOrd CloseFiles))))
     | Some n \<Rightarrow>
         if n = 1 then gen_LoadItems fuel
         else if n = 2 then gen_LoadWare fuel
         else if n = 3 then gen_LoadCust
         else if n = 4 then gen_LoadOrd
         else ret ())"

definition gen_main :: "nat \<Rightarrow> (table \<Rightarrow> bool) \<Rightarrow> string list \<Rightarrow> ('z gen_scheme, unit) cm" where
  "gen_main fuel can_open argv =
     thn (modify (\<lambda>s. s\<lparr>streams := False\<rparr>))
    (bnd (gen_args argv) (\<lambda>part.
     thn (bnd gettimestamp (\<lambda>tstamp. modify (\<lambda>s. s\<lparr>gen_timestamp := tstamp\<rparr>)))
    (thn (gen_parts fuel can_open part) (halt (Exit 0)))))"

section \<open>Lemmas: two programs in step\<close>

text \<open>
  \<open>same R m m'\<close>: from related states \<open>m\<close> and \<open>m'\<close> end in the same way, in related states;
  and neither jumps to a label.
\<close>

named_theorems same_intros "closure of \<open>same\<close> under the operations of the model"

definition jumps :: "stop + 'a \<Rightarrow> bool" where
  "jumps r \<longleftrightarrow> (\<exists>l. r = Inl (Goto l))"

lemma jumps_simps [simp]: "\<not> jumps (Inr a)" "jumps (Inl e) \<longleftrightarrow> (\<exists>l. e = Goto l)"
  by (simp_all add: jumps_def)

definition same :: "('st \<Rightarrow> 'su \<Rightarrow> bool) \<Rightarrow> ('st, 'a) cm \<Rightarrow> ('su, 'a) cm \<Rightarrow> bool" where
  "same R m m' \<longleftrightarrow> (\<forall>s u. R s u \<longrightarrow>
     (\<exists>r t v. m s = (r, t) \<and> m' u = (r, v) \<and> \<not> jumps r \<and> R t v))"

lemma sameI:
  "(\<And>s u. R s u \<Longrightarrow> \<exists>r t v. m s = (r, t) \<and> m' u = (r, v) \<and> \<not> jumps r \<and> R t v) \<Longrightarrow> same R m m'"
  by (simp add: same_def)

lemma same_run:
  assumes "same R m m'" and "R s u"
  obtains r t v where "m s = (r, t)" "m' u = (r, v)" "\<not> jumps r" "R t v"
  using assms unfolding same_def by blast

lemma same_ret [same_intros]: "same R (ret a) (ret a)"
  by (rule sameI) (simp add: ret_eq)

lemma same_halt [same_intros]: "(\<And>l. e \<noteq> Goto l) \<Longrightarrow> same R (halt e) (halt e)"
  by (rule sameI) (simp add: halt_eq)

lemma same_bnd [same_intros]:
  assumes "same R m m'" and "\<And>a. same R (f a) (f' a)"
  shows "same R (bnd m f) (bnd m' f')"
proof (rule sameI)
  fix s u assume R: "R s u"
  from same_run [OF assms(1) R] obtain r t v where
    r: "m s = (r, t)" "m' u = (r, v)" "\<not> jumps r" and R': "R t v" .
  show "\<exists>r t v. bnd m f s = (r, t) \<and> bnd m' f' u = (r, v) \<and> \<not> jumps r \<and> R t v"
  proof (cases r)
    case (Inr a)
    from same_run [OF assms(2) [of a] R'] Inr r show ?thesis by (simp add: bnd_def) metis
  qed (use r R' in \<open>simp add: bnd_def\<close>)
qed

lemma same_thn [same_intros]: "same R m m' \<Longrightarrow> same R k k' \<Longrightarrow> same R (thn m k) (thn m' k')"
  unfolding thn_def by (intro same_bnd)

lemma same_bnd_gets [same_intros]:
  "(\<And>s u. R s u \<Longrightarrow> g s = g' u) \<Longrightarrow> (\<And>a. same R (f a) (f' a)) \<Longrightarrow>
   same R (bnd (gets g) f) (bnd (gets g') f')"
  by (auto simp: same_def)

lemma same_modify [same_intros]: "(\<And>s u. R s u \<Longrightarrow> R (f s) (f' u)) \<Longrightarrow> same R (modify f) (modify f')"
  by (rule sameI) simp

lemma same_if [same_intros]:
  "(b \<Longrightarrow> same R m m') \<Longrightarrow> (\<not> b \<Longrightarrow> same R k k') \<Longrightarrow> same R (if b then m else k) (if b then m' else k')"
  by simp

lemma same_rd [same_intros]: "same R (rd xs i) (rd xs i)"
  by (simp add: rd_def same_ret same_halt)

lemma same_cfor [same_intros]:
  "(\<And>i. i \<in> set is \<Longrightarrow> same R (body i) (body' i)) \<Longrightarrow> same R (cfor is body) (cfor is body')"
  by (induction "is") (auto intro!: same_intros)

lemma same_cfold [same_intros]:
  "(\<And>i a. same R (body i a) (body' i a)) \<Longrightarrow> same R (cfold is body acc) (cfold is body' acc)"
  by (induction "is" arbitrary: acc) (auto intro!: same_intros)

lemma same_replicateM [same_intros]: "same R m m' \<Longrightarrow> same R (replicateM n m) (replicateM n m')"
  by (induction n) (auto intro!: same_intros)

lemma thn_ret_unit: "thn m (ret ()) = m"
  by (rule ext) (simp add: thn_def bnd_def ret_eq split: prod.split sum.split)

lemma same_then_ret: "same R m m' \<Longrightarrow> same R k (ret ()) \<Longrightarrow> same R (thn m k) m'"
  using same_thn [of R m m' k "ret ()"] by (simp add: thn_ret_unit)

lemma same_handle:
  assumes "same R m m'" and "\<And>e. (\<And>l. e \<noteq> Goto l) \<Longrightarrow> h e = halt e"
  shows "same R (handle m h) m'"
proof (rule sameI)
  fix s u assume R: "R s u"
  from same_run [OF assms(1) R] obtain r t v where
    r: "m s = (r, t)" "m' u = (r, v)" "\<not> jumps r" "R t v" .
  then have "handle m h s = (r, t)" using assms(2) by (cases r) (auto simp: handle_def halt_eq)
  with r show "\<exists>r t v. handle m h s = (r, t) \<and> m' u = (r, v) \<and> \<not> jumps r \<and> R t v" by auto
qed

lemma same_retrying: "same R m m' \<Longrightarrow> 0 < fuel \<Longrightarrow> same R (retrying fuel m) m'"
  by (cases fuel) (auto intro: same_handle)

lemma same_at_sqlerr: "same R m m' \<Longrightarrow> same R (at_sqlerr M b m) m'"
  unfolding at_sqlerr_def by (rule same_handle) auto

section \<open>Lemmas: the loader and the generator of files\<close>

text \<open>
  The rows that the loader has sent, committed or not, and the text that belongs to them.
\<close>

definition sent_rows :: "event list \<Rightarrow> stmts" where
  "sent_rows es = (case after_log es ([], [], \<lambda>_. []) of (c, p, b) \<Rightarrow> c @ p)"

definition table_of :: "nat \<Rightarrow> table" where
  "table_of k = [Item, Warehouse, StockTable, DistrictTable, CustomerTable, History, OrdersTable,
     NewOrders, OrdersTable, OrderLine, OrderLine] ! k"

definition text_of :: "stmts \<Rightarrow> table \<Rightarrow> string" where
  "text_of sts tab = concat (map (\<lambda>(k, ps). PrintBind_text ps) (filter (\<lambda>(k, ps). table_of k = tab) sts))"

text \<open>
  The states correspond: the same random numbers and memory to come, and the files hold the
  text of the rows sent.
\<close>

definition twins :: "'y support_scheme \<Rightarrow> 'z support_scheme \<Rightarrow> bool" where
  "twins s u \<longleftrightarrow> rng s = rng u \<and> garbage s = garbage u \<and> stamps s = stamps u \<and>
     nurand_first s = nurand_first u \<and> nums s = nums u \<and> perm_count s = perm_count u"

definition in_step :: "('s, 'y) ld_scheme \<Rightarrow> 'z gen_scheme \<Rightarrow> bool" where
  "in_step s u \<longleftrightarrow> twins s u \<and> timestamp s = gen_timestamp u \<and> min_ware s = gen_min_ware u \<and>
     max_ware s = gen_max_ware u \<and> streams u \<and> disk u = text_of (sent_rows (log s))"

text \<open>What both programs do with the random numbers.\<close>

lemma same_draw [same_intros]: "same in_step c_rand c_rand" "same in_step uninit uninit"
  by (auto simp: same_def c_rand_def uninit_def in_step_def twins_def)

lemma same_random [same_intros]: "same in_step (RandomNumber lo hi) (RandomNumber lo hi)"
  unfolding RandomNumber_def by (intro same_intros) simp

lemma same_nurand [same_intros]: "same in_step (NURand A x y) (NURand A x y)"
  unfolding NURand_def nurand_constants_def Let_def case_prod_beta
  by (intro same_intros) (auto simp: in_step_def twins_def)

lemma same_pick [same_intros]: "same in_step (pick_chars tab arrmax n) (pick_chars tab arrmax n)"
  by (induction n) (auto intro!: same_intros)

lemma same_strings [same_intros]:
  "same in_step (MakeAlphaString x y) (MakeAlphaString x y)"
  "same in_step (MakeNumberString x y) (MakeNumberString x y)"
  "same in_step (Lastname n) (Lastname n)"
  unfolding MakeAlphaString_def MakeNumberString_def Lastname_def by (intro same_intros)+

lemma same_parts [same_intros]:
  "same in_step MakeAddress MakeAddress" "same in_step (hundredths lo hi) (hundredths lo hi)"
  "same in_step (brand_original original data) (brand_original original data)"
  unfolding MakeAddress_def hundredths_def brand_original_def by (intro same_intros)+

lemma same_rows [same_intros]:
  "same in_step (item_row orig i) (item_row orig i)" "same in_step (ware_row w) (ware_row w)"
  "same in_step (stock_row orig w i) (stock_row orig w i)"
  "same in_step (district_row w d) (district_row w d)"
  "same in_step (customer_row ts d w c) (customer_row ts d w c)"
  "same in_step (history_row ts d w c) (history_row ts d w c)"
  "same in_step (order_line_row ts d w oid ol) (order_line_row ts d w oid ol)"
  unfolding item_row_def ware_row_def stock_row_def district_row_def customer_row_def
    history_row_def order_line_row_def Let_def
  by (intro same_intros)+

lemma same_marks [same_intros]: "same in_step (mark_originals fuel) (mark_originals fuel)"
proof -
  have "same in_step (find_free n orig) (find_free n orig)" for n and orig :: "bool list"
    by (induction n) (auto intro!: same_intros)
  moreover have "same in_step orig_start orig_start"
    by (auto simp: same_def orig_start_def Let_def in_step_def twins_def)
  ultimately show ?thesis unfolding mark_originals_def by (intro same_intros)
qed

lemma same_permutation [same_intros]: "same in_step InitPermutation InitPermutation"
  "same in_step GetPermutation GetPermutation"
proof -
  have "same in_step (swap_in nums set_nums i j) (swap_in nums set_nums i j)" for i j
    by (auto simp: same_def swap_in_def in_step_def twins_def)
  then show "same in_step InitPermutation InitPermutation"
    unfolding InitPermutation_def by (intro same_intros) (auto simp: in_step_def twins_def)
  show "same in_step GetPermutation GetPermutation"
    unfolding GetPermutation_def by (intro same_intros) (auto simp: in_step_def twins_def)
qed

text \<open>An insert that the server accepts, and the line that stands for it.\<close>

lemma sent_row: "sent_rows (es @ [Call t (BindParam k ps) 0 r, Call t (Execute k) 0 r']) =
    sent_rows es @ [(k, ps)]"
  by (cases "after_log es ([], [], \<lambda>_. [])") (simp add: sent_rows_def)

lemma sent_commit: "sent_rows (es @ [Call t Commit 0 r]) = sent_rows es"
  by (cases "after_log es ([], [], \<lambda>_. [])") (simp add: sent_rows_def)

lemma text_snoc: "text_of (sts @ [(k, ps)]) =
    (text_of sts)(table_of k := text_of sts (table_of k) @ PrintBind_text ps)"
  by (rule ext) (simp add: text_of_def)

lemma same_insert:
  fixes M :: "'s server"
  assumes M: "obliging M"
  shows "same in_step (insert_row M k ps :: (('s, 'y) ld_scheme, unit) cm) (PrintBind (table_of k) ps)"
proof (rule sameI)
  fix s :: "('s, 'y) ld_scheme" and u :: "'z gen_scheme"
  assume R: "in_step s u"
  obtain r w where 1: "M 0 (BindParam k ps) (srv s) = (0, r, w)" using obligingD [OF M] by force
  obtain r' w' where 2: "M 0 (Execute k) w = (0, r', w')" using obligingD [OF M] by force
  let ?t = "s\<lparr>srv := w', log := log s @ [Call 0 (BindParam k ps) 0 r, Call 0 (Execute k) 0 r']\<rparr>"
  let ?v = "u\<lparr>disk := (disk u)(table_of k := disk u (table_of k) @ PrintBind_text ps)\<rparr>"
  have "insert_row M k ps s = (Inr (), ?t)"
    using 1 2 by (simp add: insert_row_def checked_def try_stmt_execute_def sql_def thn_def bnd_def ret_eq)
  moreover have "PrintBind (table_of k) ps u = (Inr (), ?v)"
    using R by (simp add: PrintBind_def in_step_def)
  moreover have "in_step ?t ?v"
    using R by (simp add: in_step_def twins_def sent_row text_snoc)
  ultimately show "\<exists>r t v. insert_row M k ps s = (r, t) \<and> PrintBind (table_of k) ps u = (r, v) \<and>
    \<not> jumps r \<and> in_step t v" by auto
qed

lemma same_commit:
  fixes M :: "'s server"
  assumes M: "obliging M"
  shows "same in_step (checked M err 0 Commit :: (('s, 'y) ld_scheme, unit) cm) (ret ())"
proof (rule sameI)
  fix s :: "('s, 'y) ld_scheme" and u :: "'z gen_scheme"
  assume R: "in_step s u"
  obtain r w where 1: "M 0 Commit (srv s) = (0, r, w)" using obligingD [OF M] by force
  let ?t = "s\<lparr>srv := w, log := log s @ [Call 0 Commit 0 r]\<rparr>"
  have "checked M err 0 Commit s = (Inr (), ?t)"
    using 1 by (simp add: checked_def sql_def bnd_def ret_eq)
  moreover have "in_step ?t u" using R by (simp add: in_step_def twins_def sent_commit)
  ultimately show "\<exists>r t v. checked M err 0 Commit s = (r, t) \<and> ret () u = (r, v) \<and> \<not> jumps r \<and>
    in_step t v" by (auto simp: ret_eq)
qed

text \<open>The tables.\<close>

lemma same_table:
  assumes "obliging M" and "table_of k = tab" and "\<And>i. same in_step (row i) (row' i)"
  shows "same in_step (cfor is (\<lambda>i. bnd (row i) (insert_row M k))) (cfor is (\<lambda>i. bnd (row' i) (PrintBind tab)))"
  unfolding assms(2) [symmetric] by (intro same_intros assms(3) same_insert [OF assms(1)])

lemma same_LoadItems: "obliging M \<Longrightarrow> 0 < fuel \<Longrightarrow> same in_step (LoadItems M fuel) (gen_LoadItems fuel)"
  unfolding LoadItems_def gen_LoadItems_def items_pass_def
  by (intro same_at_sqlerr same_intros same_then_ret same_retrying same_table same_commit)
    (simp_all add: table_of_def)

lemma bnd_bnd: "bnd (bnd m f) g = bnd m (\<lambda>a. bnd (f a) g)"
  by (rule ext) (simp add: bnd_def split: prod.split sum.split)

lemma thn_thn: "thn (bnd m f) k = bnd m (\<lambda>a. thn (f a) k)" "thn (thn m k) k' = thn m (thn k k')"
  by (simp_all add: thn_def bnd_bnd)

text \<open>With such a server the loops that return an error code are the loops that jump.\<close>

lemma rows_loop_accepted:
  fixes M :: "'s server" and k' :: "(('s, 'y) db_scheme, int) cm"
  assumes M: "obliging M"
  shows "thn (checked M Sqlerr 0 (BindParam k ps))
    (bnd (try_stmt_execute M k) (\<lambda>error. if error \<noteq> 0 then ret error else k')) = thn (insert_row M k ps) k'"
proof
  fix s :: "('s, 'y) db_scheme"
  obtain r w where 1: "M 0 (BindParam k ps) (srv s) = (0, r, w)" using obligingD [OF M] by force
  obtain r' w' where 2: "M 0 (Execute k) w = (0, r', w')" using obligingD [OF M] by force
  show "thn (checked M Sqlerr 0 (BindParam k ps))
    (bnd (try_stmt_execute M k) (\<lambda>error. if error \<noteq> 0 then ret error else k')) s =
      thn (insert_row M k ps) k' s"
    using 1 2 by (simp add: insert_row_def checked_def try_stmt_execute_def sql_def thn_def bnd_def ret_eq)
qed

lemma same_rows_loop:
  assumes "obliging M" and "table_of k = tab" and "\<And>i. same in_step (row i) (row' i)"
  shows "same in_step (rows_loop M k row is) (thn (cfor is (\<lambda>i. bnd (row' i) (PrintBind tab))) (ret 0))"
proof (induction "is")
  case Nil
  show ?case by (simp add: same_ret)
next
  case (Cons i "is")
  show ?case
    unfolding rows_loop.simps rows_loop_accepted [OF assms(1)] cfor.simps thn_thn
    by (intro same_bnd same_thn assms(3) Cons.IH same_insert [OF assms(1), of k, unfolded assms(2)])
qed

lemma same_error_code:
  fixes m :: "(('s, 'y) ld_scheme, int) cm" and m' :: "('z gen_scheme, unit) cm"
  assumes "same in_step m (thn m' (ret 0))"
  shows "same in_step (bnd m (\<lambda>error. if error \<noteq> (0 :: int) then halt (Goto Retry) else ret ())) m'"
proof (rule sameI)
  fix s :: "('s, 'y) ld_scheme" and u :: "'z gen_scheme"
  assume R: "in_step s u"
  from same_run [OF assms R] obtain r t v where
    r: "m s = (r, t)" "thn m' (ret 0) u = (r, v)" "\<not> jumps r" "in_step t v" .
  show "\<exists>r t v. bnd m (\<lambda>error. if error \<noteq> 0 then halt (Goto Retry) else ret ()) s = (r, t) \<and>
    m' u = (r, v) \<and> \<not> jumps r \<and> in_step t v"
    using r by (cases "m' u") (auto simp: thn_def bnd_def ret_eq split: sum.splits)
qed

lemma same_LoadWare:
  assumes "obliging M" and "0 < fuel"
  shows "same in_step (LoadWare M fuel) (gen_LoadWare fuel)"
proof -
  have stock: "same in_step (Stock M fuel w) (thn (gen_Stock fuel w) (ret 0))" for w
    unfolding Stock_def gen_Stock_def thn_thn
    by (intro same_at_sqlerr same_intros same_rows_loop [OF assms(1)]) (simp_all add: table_of_def)
  have district: "same in_step (District M w) (thn (gen_District w) (ret 0))" for w
    unfolding District_def gen_District_def
    by (intro same_at_sqlerr same_intros same_rows_loop [OF assms(1)]) (simp_all add: table_of_def)
  have ware: "same in_step (bnd (ware_row w) (insert_row M 1)) (bnd (ware_row w) (PrintBind Warehouse))" for w
    using same_insert [OF assms(1), of 1] by (intro same_intros) (simp add: table_of_def)
  show ?thesis
    unfolding LoadWare_def gen_LoadWare_def ware_pass_def
    by (intro same_at_sqlerr same_bnd_gets same_cfor same_then_ret [OF same_retrying]
        same_thn ware same_error_code stock district same_commit assms)
      (simp_all add: in_step_def)
qed

lemma same_Customer:
  assumes "obliging M" and "0 < fuel"
  shows "same in_step (Customer M fuel d_id w_id) (gen_Customer d_id w_id)"
proof -
  have "same in_step (customer_pass M d_id w_id) (gen_Customer d_id w_id)"
    unfolding customer_pass_def gen_Customer_def
    using same_insert [OF assms(1), of 4] same_insert [OF assms(1), of 5]
    by (intro same_intros) (simp_all add: table_of_def in_step_def)
  then show ?thesis
    unfolding Customer_def
    by (intro same_at_sqlerr same_then_ret [OF same_retrying] same_commit assms)
qed

lemma same_Orders:
  assumes "obliging M" and "0 < fuel"
  shows "same in_step (Orders M fuel d_id w_id) (gen_Orders d_id w_id)"
proof -
  note ins = same_insert [OF assms(1)]
  have head: "same in_step (order_head M ts d_id w_id oid c car n) (gen_order ts d_id w_id oid c car n)"
    for ts oid c car n
    unfolding order_head_def gen_order_def
    using ins [of 6] ins [of 7] ins [of 8] by (intro same_intros) (simp_all add: table_of_def)
  have line: "same in_step (bnd (order_line_row ts d_id w_id oid ol) (\<lambda>(k, ps). insert_row M k ps))
      (bnd (order_line_row ts d_id w_id oid ol) (\<lambda>(_, ps). PrintBind OrderLine ps))" for ts oid ol
    unfolding order_line_row_def bnd_bnd bnd_ret
    using ins [of 9] ins [of 10] by (cases "2100 < oid") (auto simp: table_of_def intro!: same_intros)
  have "same in_step (orders_pass M d_id w_id) (gen_Orders d_id w_id)"
    unfolding orders_pass_def gen_Orders_def gen_order_lines_def order_rows_def
    by (intro same_intros head line) (simp add: in_step_def)
  then show ?thesis
    unfolding Orders_def
    by (intro same_at_sqlerr same_then_ret [OF same_retrying] same_commit assms)
qed

lemma same_by_district:
  assumes "obliging M" and "\<And>d w. same in_step (f d w) (f' d w)"
  shows "same in_step (by_district M f) (gen_by_district f')"
  unfolding by_district_def gen_by_district_def
  by (intro same_at_sqlerr same_bnd_gets same_then_ret same_cfor assms same_commit)
    (simp_all add: in_step_def)

lemma same_tables:
  assumes "obliging M" and "0 < fuel"
  shows "same in_step
    (thn (LoadItems M fuel) (thn (LoadWare M fuel) (thn (LoadCust M fuel) (LoadOrd M fuel))))
    (thn (gen_LoadItems fuel) (thn (gen_LoadWare fuel) (thn gen_LoadCust gen_LoadOrd)))"
  unfolding LoadCust_def LoadOrd_def gen_LoadCust_def gen_LoadOrd_def
  by (intro same_thn same_LoadItems same_LoadWare same_by_district same_Customer same_Orders assms)

text \<open>The calls that only the loader makes.\<close>

lemma sent_idle: "idle c \<Longrightarrow> sent_rows (es @ [Call t c rc r]) = sent_rows es"
  by (cases "after_log es ([], [], \<lambda>_. [])") (simp add: sent_rows_def idle_perform)

lemma same_idle:
  fixes M :: "'s server"
  assumes M: "obliging M" and c: "idle c" "\<not> at_cursor c"
  shows "same in_step (checked M err 0 c :: (('s, 'y) ld_scheme, unit) cm) (ret ())"
    and "same in_step (ignored M c :: (('s, 'y) ld_scheme, unit) cm) (ret ())"
proof -
  have step: "\<exists>t. checked M err 0 c s = (Inr (), t) \<and> ignored M c s = (Inr (), t) \<and> in_step t u"
    if R: "in_step s u" for s :: "('s, 'y) ld_scheme" and u :: "'z gen_scheme"
  proof -
    obtain r w where 1: "M 0 c (srv s) = (0, r, w)" using obligingD [OF M c(2)] by force
    let ?t = "s\<lparr>srv := w, log := log s @ [Call 0 c 0 r]\<rparr>"
    have "in_step ?t u" using R by (simp add: in_step_def twins_def sent_idle [OF c(1)])
    moreover have "checked M err 0 c s = (Inr (), ?t)" "ignored M c s = (Inr (), ?t)"
      using 1 by (simp_all add: checked_def ignored_def sql_def bnd_def ret_eq)
    ultimately show ?thesis by auto
  qed
  show "same in_step (checked M err 0 c :: (('s, 'y) ld_scheme, unit) cm) (ret ())"
    by (rule sameI) (use step in \<open>fastforce simp: ret_eq\<close>)
  show "same in_step (ignored M c :: (('s, 'y) ld_scheme, unit) cm) (ret ())"
    by (rule sameI) (use step in \<open>fastforce simp: ret_eq\<close>)
qed

lemma same_ret_then: "same R k (ret ()) \<Longrightarrow> same R m m' \<Longrightarrow> same R (thn k m) m'"
  using same_thn [of R k "ret ()" m m'] by simp

lemma same_cfor_ret: "(\<And>i. i \<in> set is \<Longrightarrow> same R (body i) (ret ())) \<Longrightarrow> same R (cfor is body) (ret ())"
  by (induction "is") (auto intro!: same_ret same_ret_then)

lemma same_connect: "obliging M \<Longrightarrow> same in_step (connect M a) (ret ())"
  unfolding connect_def Let_def case_prod_beta
  by (intro same_ret_then same_cfor_ret same_idle) (simp_all add: at_cursor_def)

lemma same_load_work:
  assumes "obliging M" and "0 < fuel" and "part_no a = None"
  shows "same in_step (load_work M fuel a)
    (thn (gen_LoadItems fuel) (thn (gen_LoadWare fuel) (thn gen_LoadCust gen_LoadOrd)))"
  unfolding load_work_def load_parts_def assms(3) option.case
  by (intro same_at_sqlerr same_ret_then [OF same_connect] same_then_ret [OF same_tables]
      same_ret_then [OF same_commit] same_ret_then [OF same_cfor_ret] same_idle assms)
    (simp_all add: at_cursor_def)

lemma lands_sent: "lands sts es \<Longrightarrow> sent_rows es = committed_rows es"
  unfolding lands_def sent_rows_def committed_rows_def
  by (metis (no_types, lifting) append.right_neutral case_prod_conv fst_conv)

lemma OpenFiles_run: "OpenFiles (\<lambda>_. True) s = (Inr (), s\<lparr>streams := True, disk := \<lambda>_. []\<rparr>)"
proof -
  have "(disk s)(Item := [], Warehouse := [], StockTable := [], DistrictTable := [], CustomerTable := [],
      History := [], OrdersTable := [], NewOrders := [], OrderLine := []) = (\<lambda>_. [])" (is "?d = _")
  proof
    fix tab show "?d tab = []" by (cases tab) simp_all
  qed
  then show ?thesis by (simp add: OpenFiles_def tables_def thn_thn)
qed

lemma gen_main_run:
  assumes "0 < atoi n" and "shd (stamps u) = Some ts"
  shows "gen_main fuel (\<lambda>_. True) [prog, n] u = thn (thn (gen_LoadItems fuel) (thn (gen_LoadWare fuel)
      (thn gen_LoadCust gen_LoadOrd))) (thn CloseFiles (halt (Exit 0)))
    (u\<lparr>streams := False, gen_min_ware := 1, gen_max_ware := atoi n, stamps := stl (stamps u),
       gen_timestamp := ts, streams := True, disk := \<lambda>_. []\<rparr>)"
proof -
  have args: "gen_args [prog, n] s = (Inr None, s\<lparr>gen_min_ware := 1, gen_max_ware := atoi n\<rparr>)"
    for s :: "'a gen_scheme" using assms(1) by (simp add: gen_args_def bnd_def ret_eq)
  have time: "bnd gettimestamp k s = k ts (s\<lparr>stamps := stl (stamps s)\<rparr>)"
    if "shd (stamps s) = Some ts" for s :: "'a gen_scheme" and k :: "string \<Rightarrow> ('a gen_scheme, unit) cm"
    using that by (simp add: gettimestamp_def bnd_def)
  show ?thesis
    using assms(2) by (simp add: gen_main_def gen_parts_def bnd_Inr [OF OpenFiles_run] thn_def [of "OpenFiles _"]
        bnd_Inr [OF args] time thn_thn)
qed

lemma parse_args_run:
  assumes "parse_args [prog, host, db, usr, pw, n] s = (Inr a, s1)"
  shows "s1 = s\<lparr>min_ware := 1, max_ware := atoi n\<rparr> \<and> 0 < atoi n \<and> part_no a = None"
  using assms unfolding parse_args_def Let_def fail_exit_def
  by (auto simp: thn_ok emit_def split: if_splits option.splits)

section \<open>The files hold the rows that the loader inserts\<close>


definition example_gen :: gen where
  "example_gen = support.extend (support.truncate example_ld)
     \<lparr>gen_timestamp = [], gen_min_ware = 0, gen_max_ware = 0, streams = False, disk = \<lambda>_. []\<rparr>"

lemma example_twins: "twins example_ld example_gen"
  by (simp add: twins_def example_gen_def support.defs)


section \<open>A part of the files\<close>

text \<open>Without open files nothing is written.\<close>

definition idle_disk :: "'z gen_scheme \<Rightarrow> 'z gen_scheme \<Rightarrow> bool" where
  "idle_disk s t \<longleftrightarrow> (\<not> streams s \<longrightarrow> \<not> streams t \<and> disk t = disk s)"

interpretation idd: state_relation idle_disk
  by unfold_locales (simp_all add: idle_disk_def)

lemma draws_idle_disk:
  fixes m :: "('z gen_scheme, 'a) cm"
  assumes "keeps draws m"
  shows "keeps idle_disk m"
proof (rule keeps_mono [OF assms])
  fix s t :: "'z gen_scheme"
  assume "draws s t"
  then show "idle_disk s t" by (cases s, cases t) (auto simp: draws_def idle_disk_def)
qed

lemma print_idle [keeps_intros]: "keeps idle_disk (PrintBind tab ps)"
  by (simp add: PrintBind_def keeps_def idle_disk_def halt_eq)

lemma modify_idle:
  "(\<And>s. streams (f s) = streams s \<and> disk (f s) = disk s) \<Longrightarrow> keeps idle_disk (modify f)"
  by (rule keeps_modify) (simp add: idle_disk_def)

lemma permutation_idle [keeps_intros]:
  "keeps idle_disk (InitPermutation :: ('z gen_scheme, unit) cm)"
  "keeps idle_disk (GetPermutation :: ('z gen_scheme, int) cm)"
proof -
  have "keeps idle_disk (swap_in nums set_nums i j :: ('z gen_scheme, unit) cm)" for i j
    by (simp add: keeps_def swap_in_def idle_disk_def)
  then show "keeps idle_disk (InitPermutation :: ('z gen_scheme, unit) cm)"
    unfolding InitPermutation_def
    by (intro keeps_intros modify_idle draws_idle_disk [OF RandomNumber_draws]) simp_all
  show "keeps idle_disk (GetPermutation :: ('z gen_scheme, int) cm)"
    unfolding GetPermutation_def by (intro keeps_intros modify_idle) simp
qed

lemma gen_tables_idle:
  "keeps idle_disk (gen_LoadItems fuel)" "keeps idle_disk (gen_LoadWare fuel)"
  "keeps idle_disk gen_LoadCust" "keeps idle_disk gen_LoadOrd"
  unfolding gen_LoadItems_def gen_LoadWare_def gen_Stock_def gen_District_def gen_LoadCust_def
    gen_LoadOrd_def gen_by_district_def gen_Customer_def gen_Orders_def gen_order_def gen_order_lines_def case_prod_beta
  by (intro idd.bnd_keeps idd.thn_keeps idd.gets_keeps idd.cfor_keeps idd.if_keeps print_idle
      permutation_idle draws_idle_disk [OF marks_draws] draws_idle_disk [OF RandomNumber_draws]
      draws_idle_disk [OF rows_draws(1)] draws_idle_disk [OF rows_draws(2)]
      draws_idle_disk [OF rows_draws(3)] draws_idle_disk [OF rows_draws(4)]
      draws_idle_disk [OF rows_draws(5)] draws_idle_disk [OF rows_draws(6)]
      draws_idle_disk [OF rows_draws(7)])+

lemma gen_args_run:
  assumes "length argv = 5"
  shows "gen_args argv u = (if atoi (argv ! 1) \<le> 0 then (Inl (Exit 1), u)
    else (Inr (Some (atoi (argv ! 2))), u\<lparr>gen_min_ware := atoi (argv ! 3), gen_max_ware := atoi (argv ! 4)\<rparr>))"
  using assms by (simp add: gen_args_def Let_def thn_def bnd_def halt_eq ret_eq)

lemma gen_part_idle: "keeps idle_disk (thn (bnd gettimestamp (\<lambda>tstamp. modify (\<lambda>s. s\<lparr>gen_timestamp := tstamp\<rparr>)))
    (thn (gen_parts fuel can_open (Some n)) (halt (Exit 0))))"
proof -
  have time: "keeps idle_disk gettimestamp"
    by (simp add: keeps_def gettimestamp_def idle_disk_def split: option.split)
  show ?thesis
    unfolding gen_parts_def option.case
    by (intro idd.thn_keeps idd.bnd_keeps idd.if_keeps idd.halt_keeps idd.ret_keeps time modify_idle
        gen_tables_idle) simp_all
qed

lemma gen_main_idle:
  assumes "length argv = 5"
  shows "disk (snd (gen_main fuel can_open argv u)) = disk u"
proof (cases "atoi (argv ! 1) \<le> 0")
  case True
  then show ?thesis using gen_args_run [OF assms, of "u\<lparr>streams := False\<rparr>"]
    by (simp add: gen_main_def thn_def bnd_def)
next
  case False
  let ?u = "u\<lparr>streams := False, gen_min_ware := atoi (argv ! 3), gen_max_ware := atoi (argv ! 4)\<rparr>"
  have "gen_main fuel can_open argv u = thn (bnd gettimestamp (\<lambda>tstamp. modify (\<lambda>s. s\<lparr>gen_timestamp := tstamp\<rparr>)))
    (thn (gen_parts fuel can_open (Some (atoi (argv ! 2)))) (halt (Exit 0))) ?u"
    unfolding gen_main_def using False gen_args_run [OF assms, of "u\<lparr>streams := False\<rparr>"]
    by (simp add: thn_modify bnd_Inr)
  moreover have "idle_disk s (snd (thn (bnd gettimestamp (\<lambda>tstamp. modify (\<lambda>s. s\<lparr>gen_timestamp := tstamp\<rparr>)))
    (thn (gen_parts fuel can_open (Some n)) (halt (Exit 0))) s))" for n s
    by (rule keepsD [OF gen_part_idle prod.collapse [symmetric]])
  ultimately have "idle_disk ?u (snd (gen_main fuel can_open argv u))" by (simp only:)
  then show ?thesis by (simp add: idle_disk_def)
qed

lemma cfor_stops: "body i s = (Inl e, t) \<Longrightarrow> cfor (i # is) body s = (Inl e, t)"
  by (simp add: thn_def bnd_def)

lemma gen_items_stop:
  assumes "reaches fuel (rng u)" and "\<not> streams u"
  shows "fst (gen_LoadItems fuel u) = Inl OutOfBounds"
proof -
  from mark_originals_live assms(1) obtain orig t where run: "mark_originals fuel u = (Inr orig, t)"
    unfolding live_def returns_def by blast
  then have "\<not> streams t" using keepsD [OF draws_idle_disk [OF marks_draws] run] assms(2)
    by (simp add: idle_disk_def)
  moreover have "original_marks orig" by (rule mark_originals_result [OF run])
  then have "succeeds (item_row orig 1)"
    by (intro succeeds_intros) (simp_all add: original_marks_def MAXITEMS_def)
  then obtain ps v where row: "item_row orig 1 t = (Inr ps, v)" unfolding succeeds_def by blast
  ultimately have "\<not> streams v"
    using keepsD [OF draws_idle_disk [OF rows_draws(1)] row] by (simp add: idle_disk_def)
  then have print: "bnd (item_row orig 1) (PrintBind Item) t = (Inl OutOfBounds, v)"
    using bnd_Inr [of "item_row orig 1" t ps v "PrintBind Item", OF row] by (simp add: PrintBind_def halt_eq)
  have "[1..MAXITEMS] = 1 # [1 + 1..MAXITEMS]" by (rule upto_rec1) (simp add: MAXITEMS_def)
  moreover have "gen_LoadItems fuel u = cfor [1..MAXITEMS] (\<lambda>i_id. bnd (item_row orig i_id) (PrintBind Item)) t"
    unfolding gen_LoadItems_def by (rule bnd_Inr) (rule run)
  moreover note cfor_stops [of "\<lambda>i_id. bnd (item_row orig i_id) (PrintBind Item)", OF print]
  ultimately have "gen_LoadItems fuel u = (Inl OutOfBounds, v)" by (simp only:)
  then show ?thesis by simp
qed

text \<open>
  Called for a part of the data the generator writes nothing: it opens no files, and
  the first row of the items goes to a stream that is NULL.
\<close>

theorem gen_part_writes_nothing:
  assumes "length argv = 5"
  shows "disk (snd (gen_main fuel can_open argv u)) = disk u \<and>
    (0 < atoi (argv ! 1) \<and> atoi (argv ! 2) = 1 \<and> shd (stamps u) = Some ts \<and> reaches fuel (rng u) \<longrightarrow>
     fst (gen_main fuel can_open argv u) = Inl OutOfBounds)"
proof (intro conjI impI)
  assume a: "0 < atoi (argv ! 1) \<and> atoi (argv ! 2) = 1 \<and> shd (stamps u) = Some ts \<and> reaches fuel (rng u)"
  let ?u = "u\<lparr>streams := False, gen_min_ware := atoi (argv ! 3), gen_max_ware := atoi (argv ! 4),
    stamps := stl (stamps u), gen_timestamp := ts\<rparr>"
  have "fst (gen_LoadItems fuel ?u) = Inl OutOfBounds" using a by (intro gen_items_stop) simp_all
  moreover have "gen_main fuel can_open argv u = thn (gen_LoadItems fuel) (halt (Exit 0)) ?u"
    using a assms by (simp add: gen_main_def gen_args_def gen_parts_def gettimestamp_def thn_thn
        bnd_def thn_def ret_eq)
  ultimately show "fst (gen_main fuel can_open argv u) = Inl OutOfBounds"
    by (auto simp: thn_def bnd_def split: prod.splits sum.splits)
qed (rule gen_main_idle [OF assms])

theorem gen_part_writes_nothing_witness:
  "disk (snd (gen_main 100001 (\<lambda>_. True) [''tpcc_gen'', ''1'', ''1'', ''1'', ''1''] example_gen)) = (\<lambda>_. []) \<and>
   fst (gen_main 100001 (\<lambda>_. True) [''tpcc_gen'', ''1'', ''1'', ''1'', ''1''] example_gen) = Inl OutOfBounds"
proof -
  have "atoi ''1'' = 1" 
    by (simp add: atoi_def strtol_def sign_of_def c_isspace_def c_isdigit_def digits_value_def clamp_long_def
        c_int_def Let_def)
  moreover have "reaches 100001 (rng example_gen)"
    using example_twins by (simp add: twins_def every_number_reaches)
  moreover have "shd (stamps example_gen) = Some ''2014-11-01 00:00:00''"
    using example_twins example_ld_simps(2) by (simp add: twins_def)
  moreover have "disk example_gen = (\<lambda>_. [])" by (simp add: example_gen_def support.defs)
  ultimately show ?thesis
    using gen_part_writes_nothing [of "[''tpcc_gen'', ''1'', ''1'', ''1'', ''1'']" 100001 "\<lambda>_. True" example_gen
        "''2014-11-01 00:00:00''"]
    by simp
qed

end
