(* ===== verification/Tsv.thy ===== *)
theory Tsv
  imports Gen
begin

text \<open>
  What a reader of the generated files gets back: the lines, their fields, and the value of each
  field. The reader is the reference, it is not part of the program.
\<close>

section \<open>The reader\<close>

definition read_table :: "string \<Rightarrow> string list list" where
  "read_table file = map (split_at (CHR 0x09)) (butlast (split_at (CHR 0x0A) file))"

definition read_fixed :: "string \<Rightarrow> rat" where
  "read_fixed str = (case sign_of str of (neg, cs) \<Rightarrow>
     (if neg then - 1 else 1) * of_int (digits_value (filter c_isdigit cs)) / 1000000)"

text \<open>A number that \<^verbatim>\<open>%f\<close> has printed comes back within half of the last digit.\<close>

fun reads_as :: "param \<Rightarrow> string \<Rightarrow> bool" where
  "reads_as (PLong n) str \<longleftrightarrow> atoi str = n"
| "reads_as (PString v) str \<longleftrightarrow> str = cstr v"
| "reads_as (PFloat x) str \<longleftrightarrow> \<bar>read_fixed str - x\<bar> \<le> 1 / 2000000"

fun printable :: "param \<Rightarrow> bool" where
  "printable (PLong n) \<longleftrightarrow> - 2147483648 \<le> n \<and> n < 2147483648"
| "printable (PString v) \<longleftrightarrow> CHR 0x09 \<notin> set (cstr v) \<and> CHR 0x0A \<notin> set (cstr v)"
| "printable (PFloat x) \<longleftrightarrow> True"

section \<open>Lemmas\<close>

lemma digits_value_append:
  "digits_value (xs @ ys) = digits_value xs * 10 ^ length ys + digits_value ys"
proof (induction ys rule: rev_induct)
  case (snoc y ys)
  then show ?case
    using digits_value_snoc [of "xs @ ys" y] by (simp add: digits_value_snoc algebra_simps)
qed (simp add: digits_value_def)

lemma digits_value_zeros: "digits_value (replicate n (CHR ''0'')) = 0"
proof (induction n)
  case (Suc n)
  then show ?case
    using digits_value_snoc [of "replicate n (CHR ''0'')" "CHR ''0''"]
    by (simp add: replicate_append_same)
qed (simp add: digits_value_def)

lemma decimal_nat_length: "0 < k \<Longrightarrow> n < 10 ^ k \<Longrightarrow> length (decimal_nat n) \<le> k"
proof (induction n arbitrary: k rule: decimal_nat.induct)
  case (1 n)
  show ?case
  proof (cases "n < 10")
    case True
    with "1.prems"(1) show ?thesis by (subst decimal_nat.simps) simp
  next
    case False
    obtain j where k: "k = Suc j" using "1.prems"(1) by (cases k) auto
    have "0 < j" using False "1.prems"(2) k by (cases j) auto
    moreover have "n div 10 < 10 ^ j" using "1.prems"(2) k by (simp add: less_mult_imp_div_less mult.commute)
    ultimately have "length (decimal_nat (n div 10)) \<le> j" using "1.IH" [OF False] by blast
    with False k show ?thesis by (subst decimal_nat.simps) simp
  qed
qed

lemma six_digits_props:
  assumes "n < 1000000"
  shows "digits_value (six_digits n) = int n" "length (six_digits n) = 6"
    "\<forall>c \<in> set (six_digits n). c_isdigit c"
proof -
  show "digits_value (six_digits n) = int n"
    by (simp add: six_digits_def Let_def digits_value_append digits_value_zeros decimal_nat_props(1))
  show "length (six_digits n) = 6"
    using decimal_nat_length [of 6 n] assms by (simp add: six_digits_def Let_def)
  show "\<forall>c \<in> set (six_digits n). c_isdigit c"
    using decimal_nat_props(2) [of n] by (auto simp: six_digits_def Let_def c_isdigit_def)
qed

lemma filter_digits: "\<forall>c \<in> set cs. c_isdigit c \<Longrightarrow> filter c_isdigit cs = cs"
  by (simp add: filter_id_conv)

lemma int_div_mod: "int (n div m) * int m + int (n mod m) = int n"
  by (metis div_mult_mod_eq of_nat_add of_nat_mult)

lemma read_fixed6: "\<bar>read_fixed (fixed6 x) - x\<bar> \<le> 1 / 2000000"
proof -
  define n where "n = nat (rne (\<bar>x\<bar> * 1000000))"
  have n: "int n = rne (\<bar>x\<bar> * 1000000)" by (simp add: n_def rne_nonneg)
  let ?d = "decimal_nat (n div 1000000) @ ''.'' @ six_digits (n mod 1000000)"
  have "digits_value (filter c_isdigit ?d) = int (n div 1000000) * 1000000 + int (n mod 1000000)"
    using decimal_nat_props(1,2) [of "n div 1000000"] six_digits_props [of "n mod 1000000"]
    by (simp add: filter_digits digits_value_append) (simp add: c_isdigit_def)
  also have "\<dots> = int n"
    using int_div_mod [of n 1000000] by (simp only: of_nat_numeral)
  finally have d: "digits_value (filter c_isdigit ?d) = int n" .
  have "sign_of ((if x < 0 then ''-'' else '''') @ ?d) = (x < 0, ?d)"
  proof (cases "x < 0")
    case False
    obtain c cs where c: "decimal_nat (n div 1000000) = c # cs"
      using decimal_nat_props(3) [of "n div 1000000"] by (cases "decimal_nat (n div 1000000)") auto
    with decimal_nat_hd [of "n div 1000000"] False show ?thesis by (simp add: sign_of_def)
  qed (simp add: sign_of_def)
  then have "read_fixed (fixed6 x) = (if x < 0 then - 1 else 1) * of_int (int n) / 1000000"
    by (simp only: fixed6_def read_fixed_def Let_def n_def [symmetric] prod.case d)
  moreover have "\<bar>of_int (int n) - \<bar>x\<bar> * 1000000\<bar> \<le> 1 / 2"
    unfolding n by (rule rne_error)
  ultimately show ?thesis by (cases "x < 0") (simp_all add: abs_if field_simps split: if_splits)
qed

lemma decimal_plain:
  "c \<in> set (decimal n) \<Longrightarrow> c_isdigit c \<or> c = CHR ''-''"
  using decimal_nat_props(2) by (auto simp: decimal_def split: if_splits)

lemma fixed6_plain:
  assumes "c \<in> set (fixed6 x)"
  shows "c_isdigit c \<or> c = CHR ''-'' \<or> c = CHR ''.''"
proof -
  let ?n = "nat (rne (\<bar>x\<bar> * 1000000))"
  have "?n mod 1000000 < 1000000" by simp
  from assms decimal_nat_props(2) [of "?n div 1000000"] six_digits_props(3) [OF this]
  show ?thesis by (auto simp: fixed6_def Let_def split: if_splits)
qed

lemma plain_char: "\<not> c_isdigit (CHR 0x09)" "\<not> c_isdigit (CHR 0x0A)"
  by (simp_all add: c_isdigit_def)

lemma field_plain: "printable p \<Longrightarrow> c \<in> set (PrintOneBind p) \<Longrightarrow> c \<noteq> CHR 0x09 \<and> c \<noteq> CHR 0x0A"
  using plain_char by (cases p) (auto dest!: decimal_plain fixed6_plain)

lemma field_read: "printable p \<Longrightarrow> reads_as p (PrintOneBind p)"
  using read_fixed6 by (cases p) (simp_all only: printable.simps reads_as.simps PrintOneBind.simps atoi_decimal simp_thms)

text \<open>A line is the fields between tabs, and the newline.\<close>

lemma line_read:
  assumes "ps \<noteq> []" and "\<forall>p \<in> set ps. printable p"
  shows "\<exists>line. PrintBind_text ps = line @ [CHR 0x0A] \<and> CHR 0x0A \<notin> set line \<and>
    list_all2 reads_as ps (split_at (CHR 0x09) line)"
  using assms
proof (induction ps rule: PrintBind_text.induct)
  case (2 p)
  then have "CHR 0x09 \<notin> set (PrintOneBind p)" "CHR 0x0A \<notin> set (PrintOneBind p)"
    using field_plain [of p] by auto
  then show ?case
    using 2 field_read [of p] by (intro exI [of _ "PrintOneBind p"]) (simp add: split_at_none)
next
  case (3 p q ps)
  then obtain line where line: "PrintBind_text (q # ps) = line @ [CHR 0x0A]" "CHR 0x0A \<notin> set line"
    "list_all2 reads_as (q # ps) (split_at (CHR 0x09) line)" by auto
  have "CHR 0x09 \<notin> set (PrintOneBind p)" "CHR 0x0A \<notin> set (PrintOneBind p)"
    using 3 field_plain [of p] by auto
  then show ?case
    using 3 line field_read [of p]
    by (intro exI [of _ "PrintOneBind p @ CHR 0x09 # line"]) (simp add: split_at_append)
qed simp

lemma lines_read:
  assumes "\<forall>ps \<in> set rows. ps \<noteq> [] \<and> (\<forall>p \<in> set ps. printable p)"
  shows "list_all2 (list_all2 reads_as) rows (read_table (concat (map PrintBind_text rows)))"
  using assms
proof (induction rows)
  case (Cons ps rows)
  then obtain line where "PrintBind_text ps = line @ [CHR 0x0A]" "CHR 0x0A \<notin> set line"
    "list_all2 reads_as ps (split_at (CHR 0x09) line)" using line_read [of ps] by auto
  with Cons show ?case by (simp add: read_table_def split_at_append split_at_not_Nil)
qed (simp add: read_table_def)

section \<open>The files can be read back\<close>

text \<open>
  Property C22. A table's file, split at its newlines and tabs, gives the rows of the table in
  their order, each with its fields: the numbers as they were, the strings as they were, and the
  amounts within half a millionth; if no string of a row holds a tab or a newline.
\<close>

theorem files_read_back:
  assumes "\<forall>(k, ps) \<in> set sts. ps \<noteq> [] \<and> (\<forall>p \<in> set ps. printable p)"
  shows "list_all2 (list_all2 reads_as) (map snd (filter (\<lambda>(k, ps). table_of k = tab) sts))
    (read_table (text_of sts tab))"
proof -
  let ?rows = "map snd (filter (\<lambda>(k, ps). table_of k = tab) sts)"
  have "\<forall>ps \<in> set ?rows. ps \<noteq> [] \<and> (\<forall>p \<in> set ps. printable p)" using assms by auto
  from lines_read [OF this]
  have "list_all2 (list_all2 reads_as) ?rows (read_table (concat (map PrintBind_text ?rows)))" .
  moreover have "text_of sts tab = concat (map PrintBind_text ?rows)"
    by (simp add: text_of_def case_prod_unfold comp_def)
  ultimately show ?thesis by simp
qed

theorem files_read_back_witness:
  "list_all2 (list_all2 reads_as) [[PLong (- 7), PString ''ab'', PFloat (1 / 8)]]
    (read_table (text_of [(0, [PLong (- 7), PString ''ab'', PFloat (1 / 8)]), (7, [PLong 1])] Item))"
  using files_read_back [of "[(0, [PLong (- 7), PString ''ab'', PFloat (1 / 8)]), (7, [PLong 1])]" Item]
  by (simp add: table_of_def cstr_def)

end
