(* ===== verification/LockOrder.thy ===== *)
theory LockOrder
  imports Neword
begin

text \<open>
  The order in which New-Order (\<^verbatim>\<open>neword.c\<close>) locks the rows of \<open>stock\<close>, for which it sorts the lines of the
  order: what every run of \<open>neword\<close> requests, however it ends, and that runs which wait for each
  other's rows do not wait in a circle.
\<close>

section \<open>The rows requested\<close>

text \<open>The stock rows that the statements of a trace lock, as warehouse and item.\<close>

fun lock_of :: "call \<Rightarrow> (int \<times> int) list" where
  "lock_of (BindParam k [PLong i, PLong w]) = (if k = 6 then [(w, i)] else [])"
| "lock_of c = []"

definition stock_locks :: "event list \<Rightarrow> (int \<times> int) list" where
  "stock_locks es = concat (map lock_of (cmds es))"

definition lex_le :: "int \<times> int \<Rightarrow> int \<times> int \<Rightarrow> bool" where
  "lex_le = (\<lambda>(w, i) (w', i'). w < w' \<or> w = w' \<and> i \<le> i')"

lemma line_script_locks:
  "concat (map lock_of (run_of (line_script w_id d_id o_id c_row d_row itemid supware qty ol r))) =
   [(supware ! snd ol, itemid ! snd ol)]"
  by (cases ol; cases r) (simp add: line_script_def)

lemma script_locks:
  assumes "length rows = nat o_ol_cnt"
  shows "concat (map lock_of (run_of (neword_script w_id d_id c_id o_ol_cnt o_all_local itemid supware
      qty datetime c_row d_row rows))) =
    map (\<lambda>q. (supware ! q, itemid ! q)) (ol_sort (ol_key supware itemid) (nat o_ol_cnt))"
proof -
  let ?ls = "line_script w_id d_id (col_long d_row 0) c_row d_row itemid supware qty"
  have lines: "concat (map lock_of (run_of (concat (map2 ?ls ols rows)))) =
      map (\<lambda>ol. (supware ! snd ol, itemid ! snd ol)) ols"
    if "length ols = length rows" for ols
    using that by (induction ols rows rule: list_induct2) (simp_all add: line_script_locks)
  have "length (zip [1..o_ol_cnt] (ol_sort (ol_key supware itemid) (nat o_ol_cnt))) = length rows"
    using assms by (simp add: length_ol_sort)
  note lines [OF this]
  moreover have "map (\<lambda>ol. (supware ! snd ol, itemid ! snd ol)) (zip ks ns) =
      map (\<lambda>q. (supware ! q, itemid ! q)) ns" if "length ks = length ns" for ks :: "int list" and ns
    using that by (induction ks ns rule: list_induct2) simp_all
  ultimately show ?thesis by (simp add: neword_script_def Let_def length_ol_sort)
qed

lemma key_lex:
  assumes "(MAXITEMS + 1) * w + i \<le> (MAXITEMS + 1) * w' + i'"
    and "1 \<le> i" "i \<le> MAXITEMS + 1" "1 \<le> i'" "i' \<le> MAXITEMS + 1"
  shows "lex_le (w, i) (w', i')"
proof (cases w w' rule: linorder_cases)
  case greater
  then have "(MAXITEMS + 1) * (w' + 1) \<le> (MAXITEMS + 1) * w"
    by (intro mult_left_mono) (simp_all add: MAXITEMS_def)
  with assms show ?thesis by (simp add: MAXITEMS_def)
qed (use assms in \<open>auto simp: lex_le_def\<close>)

lemma ol_sort_lex:
  assumes "\<forall>q < cnt. 1 \<le> itemid ! q \<and> itemid ! q \<le> MAXITEMS + 1"
    and "\<forall>q < cnt. 0 \<le> supware ! q \<and> supware ! q \<le> 21473"
  shows "sorted_wrt lex_le (map (\<lambda>q. (supware ! q, itemid ! q)) (ol_sort (ol_key supware itemid) cnt))"
proof -
  let ?ns = "ol_sort (ol_key supware itemid) cnt"
  have key: "ol_key supware itemid q = (MAXITEMS + 1) * supware ! q + itemid ! q" if "q < cnt" for q
  proof -
    have "0 \<le> supware ! q" "supware ! q \<le> 21473" "1 \<le> itemid ! q" "itemid ! q \<le> 100001"
      using assms that by (auto simp: MAXITEMS_def)
    then show ?thesis unfolding ol_key_def MAXITEMS_def by (intro c_int_id) simp_all
  qed
  have "sorted_wrt (\<lambda>p q. ol_key supware itemid p \<le> ol_key supware itemid q) ?ns"
    using sorted_ol_sort by (simp add: sorted_wrt_map)
  then have "sorted_wrt (\<lambda>p q. lex_le (supware ! p, itemid ! p) (supware ! q, itemid ! q)) ?ns"
  proof (rule sorted_wrt_mono_rel [rotated])
    fix p q assume "p \<in> set ?ns" "q \<in> set ?ns" "ol_key supware itemid p \<le> ol_key supware itemid q"
    with assms show "lex_le (supware ! p, itemid ! p) (supware ! q, itemid ! q)"
      by (intro key_lex) (auto simp: set_ol_sort key)
  qed
  then show ?thesis by (simp add: sorted_wrt_map)
qed

lemma ol_key_overflow: "ol_key [21475, 1] [1, 1] 0 < ol_key [21475, 1] [1, 1] 1"
  by (simp add: ol_key_def MAXITEMS_def c_int_def)

section \<open>Every run requests rows in the order of the sort\<close>

text \<open>
  \<open>asks N E m\<close>: when \<open>m\<close> returns it has requested the rows \<open>N\<close>, and a prefix of \<open>E\<close> when it stops.
\<close>

definition asks :: "(int \<times> int) list \<Rightarrow> (int \<times> int) list \<Rightarrow> (('s, 'z) db_scheme, 'a) cm \<Rightarrow> bool" where
  "asks N E m \<longleftrightarrow> traced (\<lambda>_ es. stock_locks es = N) (\<lambda>_ es. prefix (stock_locks es) E) m"

lemma stock_locks_simps [simp]:
  "stock_locks [] = []" "stock_locks (ev # es) = concat (map lock_of (cmd_of ev)) @ stock_locks es"
  "stock_locks (es @ es') = stock_locks es @ stock_locks es'"
  by (simp_all add: stock_locks_def)

lemma lock_of_other: "k \<noteq> 6 \<Longrightarrow> lock_of (BindParam k ps) = []"
  by (cases "BindParam k ps" rule: lock_of.cases) auto

lemma call_locks: "lock_of c = [] \<Longrightarrow> concat (map lock_of (cmd_of (Call t_num c rc r))) = []"
  by (cases c) simp_all

lemma asks_bnd:
  assumes "asks N E m" and "\<And>a. asks N' E' (f a)" and "prefix E (N @ E')"
  shows "asks (N @ N') (N @ E') (bnd m f)"
  unfolding asks_def
  by (rule traced_bnd [OF assms(1) [unfolded asks_def] assms(2) [unfolded asks_def]])
    (use assms(3) in \<open>auto intro: prefix_order.trans\<close>)

lemma asks_quiet_bnd: "asks [] [] m \<Longrightarrow> (\<And>a. asks N E (f a)) \<Longrightarrow> asks N E (bnd m f)"
  using asks_bnd [of "[]" "[]" m N E f] by simp

lemma asks_then_quiet: "asks N E m \<Longrightarrow> (\<And>a. asks [] [] (f a)) \<Longrightarrow> prefix E N \<Longrightarrow> asks N N (bnd m f)"
  using asks_bnd [of N E m "[]" "[]" f] by simp

lemma asks_weaken: "asks N E m \<Longrightarrow> prefix E E' \<Longrightarrow> asks N E' m"
  unfolding asks_def by (erule traced_conseq) (auto intro: prefix_order.trans)

lemma asks_nothing:
  "asks [] E (ret a)" "asks N E (halt e)" "asks [] E (gets g)" "asks [] E (set_proceed n)"
  "asks [] E clock_gettime" "asks [] E gettimestamp" "cmd_of ev = [] \<Longrightarrow> asks [] E (emit ev)"
  "lock_of c = [] \<Longrightarrow> asks [] E (sql M t_num c)"
  unfolding asks_def
  by (rule tracedI; auto simp: ret_eq halt_eq set_proceed_def clock_gettime_def gettimestamp_def emit_def sql_def
      call_locks simp del: concat_eq_Nil_conv split: option.splits prod.splits)+

lemma asks_thn: "asks [] [] m \<Longrightarrow> asks N E k \<Longrightarrow> asks N E (thn m k)"
  unfolding thn_def by (rule asks_quiet_bnd)

lemma asks_checked: "lock_of c = [] \<Longrightarrow> asks [] E (checked M err t_num c)"
  unfolding checked_def case_prod_beta
  by (intro asks_quiet_bnd) (auto simp: asks_nothing)

text \<open>The operations on the database request nothing, but those of statement 6, the stock.\<close>

lemma asks_exec: "k \<noteq> 6 \<Longrightarrow> asks [] E (sql_exec M err t_num k ps)"
  unfolding sql_exec_def
  by (intro asks_thn asks_checked) (simp_all add: lock_of_other)

lemma asks_exec_6: "asks [(w, i)] [(w, i)] (sql_exec M err t_num 6 [PLong i, PLong w])"
proof -
  have bind: "asks [(w, i)] [(w, i)] (checked M err t_num (BindParam 6 [PLong i, PLong w]))"
    unfolding asks_def by (rule tracedI) (auto simp: checked_def sql_def bnd_def ret_eq halt_eq split: prod.splits)
  show ?thesis unfolding sql_exec_def thn_def
    by (rule asks_then_quiet [OF bind]) (simp_all add: asks_checked)
qed

lemma asks_result:
  "asks [] E (open_result M err t_num k cols)" "asks [] E (free_result M t_num k)"
  "asks [] E (fetch_row M lbl t_num k oks)"
  unfolding open_result_def free_result_def fetch_row_def case_prod_beta
  by (auto intro!: asks_thn asks_checked asks_quiet_bnd simp: asks_nothing)

lemma asks_query:
  assumes "asks N N (sql_exec M err t_num k ps :: (('s, 'z) db_scheme, unit) cm)"
  shows "asks N N (query1 M err t_num k ps cols oks :: (('s, 'z) db_scheme, row) cm)"
  unfolding query1_def thn_def [of "sql_exec M err t_num k ps"]
  by (rule asks_then_quiet [OF assms]) (auto intro!: asks_thn asks_quiet_bnd asks_result asks_nothing)

lemmas asks_intros = asks_thn asks_quiet_bnd asks_nothing asks_exec asks_result asks_query asks_checked

definition order_lines :: "int list \<Rightarrow> int list \<Rightarrow> int \<Rightarrow> (int \<times> int) list" where
  "order_lines itemid supware o_ol_cnt =
     map (\<lambda>q. (supware ! q, itemid ! q)) (ol_sort (ol_key supware itemid) (nat o_ol_cnt))"

lemma line_asks:
  "asks [(supware ! snd ol, itemid ! snd ol)] [(supware ! snd ol, itemid ! snd ol)]
     (neword_line M t_num w_id d_id o_id w_tax d_tax c_discount itemid supware qty ol l)"
proof -
  have item: "asks [] E (neword_item M t_num i)" for E i
    unfolding neword_item_def by (intro asks_intros) simp_all
  have stock: "asks [(w, i)] [(w, i)] (neword_stock M t_num i w)" for i w
    unfolding neword_stock_def by (intro asks_thn asks_nothing asks_query asks_exec_6)
  show ?thesis
    unfolding neword_line_def case_prod_beta Let_def
    by (intro asks_quiet_bnd [OF item] asks_then_quiet [OF stock])
      (auto intro!: asks_intros simp: neword_upd_stock_def neword_insert_line_def)
qed

lemma lines_ask:
  "asks (map (\<lambda>ol. (supware ! snd ol, itemid ! snd ol)) ols) (map (\<lambda>ol. (supware ! snd ol, itemid ! snd ol)) ols)
     (cfold ols (neword_line M t_num w_id d_id o_id w_tax d_tax c_discount itemid supware qty) l)"
proof (induction ols arbitrary: l)
  case Nil
  then show ?case by (simp add: asks_nothing)
next
  case (Cons ol ols)
  show ?case
    using asks_bnd [OF line_asks Cons, of supware ol itemid] by simp
qed

lemma neword_work_asks:
  "asks (order_lines itemid supware o_ol_cnt) (order_lines itemid supware o_ol_cnt)
     (neword_work M t_num w_id d_id c_id o_ol_cnt o_all_local itemid supware qty)"
proof -
  let ?ns = "ol_sort (ol_key supware itemid) (nat o_ol_cnt)"
  have "map (\<lambda>ol. (supware ! snd ol, itemid ! snd ol)) (zip [1..o_ol_cnt] ?ns) =
      map (\<lambda>q. (supware ! q, itemid ! q)) (map snd (zip [1..o_ol_cnt] ?ns))" by simp
  also have "map snd (zip [1..o_ol_cnt] ?ns) = ?ns" by (simp add: length_ol_sort)
  finally have eq: "order_lines itemid supware o_ol_cnt =
      map (\<lambda>ol. (supware ! snd ol, itemid ! snd ol)) (zip [1..o_ol_cnt] ?ns)" by (simp add: order_lines_def)
  have "asks (order_lines itemid supware o_ol_cnt) (order_lines itemid supware o_ol_cnt)
      (neword_lines M t_num w_id d_id o_id c_row d_row o_ol_cnt itemid supware qty)" for o_id c_row d_row
    unfolding neword_lines_def eq Let_def by (simp only: lines_ask asks_nothing split: if_split) simp
  from asks_then_quiet [OF this asks_nothing(1) prefix_order.refl]
  have lines: "asks (order_lines itemid supware o_ol_cnt) (order_lines itemid supware o_ol_cnt)
      (thn (neword_lines M t_num w_id d_id o_id c_row d_row o_ol_cnt itemid supware qty) (ret b))" for o_id c_row d_row b
    by (simp add: thn_def)
  show ?thesis
    unfolding neword_work_def Let_def neword_customer_def neword_district_def neword_next_o_id_def
      neword_order_def neword_new_order_def
    by (intro lines asks_intros) simp_all
qed

lemma neword_asks:
  "traced (\<lambda>_ es. prefix (stock_locks es) (order_lines itemid supware o_ol_cnt))
     (\<lambda>_ es. prefix (stock_locks es) (order_lines itemid supware o_ol_cnt))
     (neword M t_num w_id d_id c_id o_ol_cnt o_all_local itemid supware qty)"
proof -
  let ?ls = "order_lines itemid supware o_ol_cnt"
  have trx: "asks [] [] (trx_line t_num a b)" for a b
    unfolding trx_line_def on_cond_def by (auto intro!: asks_quiet_bnd simp: asks_nothing)
  have body: "asks ?ls ?ls (neword_body M t_num w_id d_id c_id o_ol_cnt o_all_local itemid supware qty)"
    unfolding neword_body_def
    by (rule asks_then_quiet [OF neword_work_asks]) (auto intro!: asks_intros trx)
  have handler: "traced (\<lambda>_ es. stock_locks es = []) (\<lambda>_ es. stock_locks es = [])
      (if e = Goto Invaliditem then thn (sql M t_num Rollback) (ret 1)
       else if e = Goto Sqlerr then sqlerr M ''neword'' t_num else halt e)" for e
  proof -
    have "asks [] [] (if e = Goto Invaliditem then thn (sql M t_num Rollback) (ret 1)
       else if e = Goto Sqlerr then sqlerr M ''neword'' t_num else halt e)"
      by (auto simp: sqlerr_def error_def intro!: asks_intros)
    then show ?thesis unfolding asks_def by simp
  qed
  show ?thesis
    unfolding neword_def
    by (rule traced_handle [OF asks_thn [OF asks_nothing(4) body, unfolded asks_def] handler]) auto
qed

section \<open>No circle\<close>

text \<open>
  Runs \<open>k < n\<close> that request what \<open>L k\<close> lists, in the order of \<open>lex_le\<close>, and hold the first \<open>i k\<close> of it: not
  each of them can wait for a row that the next one holds, since no row is held twice.
\<close>

lemma lex_le_trans: "lex_le p q \<Longrightarrow> lex_le q r \<Longrightarrow> lex_le p r"
  by (auto simp: lex_le_def split: prod.splits)

lemma lex_le_antisym: "lex_le p q \<Longrightarrow> lex_le q p \<Longrightarrow> p = q"
  by (auto simp: lex_le_def split: prod.splits)

lemma lex_le_refl: "lex_le p p"
  by (simp add: lex_le_def split: prod.split)

lemma no_circle:
  assumes "2 \<le> n" and "\<forall>k<n. sorted_wrt lex_le (L k)" and "\<forall>k<n. i k < length (L k)"
    and "\<forall>k<n. \<forall>l<n. k \<noteq> l \<longrightarrow> set (take (i k) (L k)) \<inter> set (take (i l) (L l)) = {}"
  shows "\<exists>k<n. L k ! i k \<notin> set (take (i (Suc k mod n)) (L (Suc k mod n)))"
proof (rule ccontr)
  assume "\<not> ?thesis"
  then have wait: "L k ! i k \<in> set (take (i (Suc k mod n)) (L (Suc k mod n)))" if "k < n" for k using that by auto
  define r where "r k = L k ! i k" for k
  have step: "lex_le (r k) (r (Suc k mod n))" if k: "k < n" for k
  proof -
    let ?l = "Suc k mod n"
    have l: "?l < n" using assms(1) by simp
    from wait [OF k] obtain j where j: "j < i ?l" "j < length (L ?l)" "r k = L ?l ! j"
      by (auto simp: in_set_conv_nth r_def)
    with assms(2,3) l show ?thesis by (auto simp: r_def sorted_wrt_iff_nth_less)
  qed
  have up: "lex_le (r j) (r k)" if "j \<le> k" "k < n" for j k
    using that
  proof (induction k)
    case (Suc k)
    show ?case
    proof (cases "j = Suc k")
      case False
      with Suc have "lex_le (r j) (r k)" by simp
      moreover have "lex_le (r k) (r (Suc k))" using step [of k] Suc.prems(2) by simp
      ultimately show ?thesis by (rule lex_le_trans)
    qed (simp add: lex_le_refl)
  qed (simp add: lex_le_refl)
  have last: "lex_le (r (n - 1)) (r 0)" using step [of "n - 1"] assms(1) by simp
  have "r 0 = r (n - 1)" using up [of 0 "n - 1"] last assms(1) by (intro lex_le_antisym) simp_all
  moreover have "r (n - 1) \<in> set (take (i 0) (L 0))" using wait [of "n - 1"] assms(1) by (simp add: r_def)
  moreover have "r 0 \<in> set (take (i 1) (L 1))" using wait [of 0] assms(1) by (simp add: r_def)
  moreover have "set (take (i 0) (L 0)) \<inter> set (take (i 1) (L 1)) = {}"
    using assms(1) assms(4) [rule_format, of 0 1] by simp
  ultimately show False by auto
qed

section \<open>Properties\<close>

text \<open>
  Property C3. The rows of \<open>stock\<close> that a New-Order requests are, however it ends, a prefix of the rows
  of its lines sorted by warehouse and then by item, and all of them when it commits. So any
  number of New-Orders, of which each has been granted some of its requests and no row is granted twice,
  do not wait in a circle for each other's stock rows. The warehouses are at most 21473: from 21474 on the
  key of the sort overflows, and rows are requested in another order (lemma \<open>ol_key_overflow\<close>).
\<close>

theorem neword_lock_order:
  assumes "\<forall>k<n. neword (M k) (t_num k) (w_id k) (d_id k) (c_id k) (o_ol_cnt k) (o_all_local k) (itemid k)
      (supware k) (qty k) (s k) = (v k, t k) \<and> log (t k) = log (s k) @ es k"
    and "\<forall>k<n. \<forall>q < nat (o_ol_cnt k). 1 \<le> itemid k ! q \<and> itemid k ! q \<le> MAXITEMS + 1 \<and>
      0 \<le> supware k ! q \<and> supware k ! q \<le> 21473"
  shows "(\<forall>k<n. sorted_wrt lex_le (stock_locks (es k)) \<and>
      prefix (stock_locks (es k)) (order_lines (itemid k) (supware k) (o_ol_cnt k)) \<and>
      (v k = Inr 1 \<and> committed (t_num k) (es k) \<and> 1 \<le> d_id k \<and> d_id k \<le> 10 \<longrightarrow>
        mset (stock_locks (es k)) = mset (map (\<lambda>q. (supware k ! q, itemid k ! q)) [0..<nat (o_ol_cnt k)]))) \<and>
    (2 \<le> n \<and> (\<forall>k<n. granted k < length (stock_locks (es k))) \<and>
      (\<forall>k<n. \<forall>l<n. k \<noteq> l \<longrightarrow>
        set (take (granted k) (stock_locks (es k))) \<inter> set (take (granted l) (stock_locks (es l))) = {}) \<longrightarrow>
      (\<exists>k<n. stock_locks (es k) ! granted k \<notin>
        set (take (granted (Suc k mod n)) (stock_locks (es (Suc k mod n))))))"
proof -
  have part: "prefix (stock_locks (es k)) (order_lines (itemid k) (supware k) (o_ol_cnt k))" if "k < n" for k
  proof -
    let ?ls = "order_lines (itemid k) (supware k) (o_ol_cnt k)"
    have "traced (\<lambda>_ es. prefix (stock_locks es) ?ls) (\<lambda>_ es. prefix (stock_locks es) ?ls)
        (neword (M k) (t_num k) (w_id k) (d_id k) (c_id k) (o_ol_cnt k) (o_all_local k) (itemid k) (supware k) (qty k))"
      by (rule neword_asks)
    from this [unfolded traced_def, THEN spec, of "s k"] assms(1) that show ?thesis
      by (auto split: sum.splits)
  qed
  have order: "sorted_wrt lex_le (stock_locks (es k))" if "k < n" for k
  proof -
    have "sorted_wrt lex_le (order_lines (itemid k) (supware k) (o_ol_cnt k))"
      unfolding order_lines_def by (rule ol_sort_lex) (use assms(2) that in auto)
    then show ?thesis using part [OF that] by (auto simp: prefix_def sorted_wrt_append)
  qed
  have all: "mset (stock_locks (es k)) = mset (map (\<lambda>q. (supware k ! q, itemid k ! q)) [0..<nat (o_ol_cnt k)])"
    if "k < n" "v k = Inr 1" "committed (t_num k) (es k)" "1 \<le> d_id k" "d_id k \<le> 10" for k
  proof -
    have "stock_locks (es k) = map (\<lambda>q. (supware k ! q, itemid k ! q)) (ol_sort (ol_key (supware k) (itemid k)) (nat (o_ol_cnt k)))"
      using neword_committed_did [of "M k" "t_num k" "w_id k" "d_id k" "c_id k" "o_ol_cnt k" "o_all_local k"
          "itemid k" "supware k" "qty k" "s k" 1 "t k" "es k"] assms(1) that script_locks
      by (auto simp: stock_locks_def)
    then show ?thesis by (simp only: mset_map mset_ol_sort)
  qed
  show ?thesis
    using part order all no_circle [of n "\<lambda>k. stock_locks (es k)" granted] by blast
qed

text \<open>Two orders of the same lines, of which one has locked item 3 of warehouse 1 and the other nothing.\<close>

theorem neword_lock_order_witness:
  "\<exists>t es. neword calm_server 0 1 4 9 2 0 example_items example_ware example_qty example_db = (Inr 1, t) \<and>
    log t = log example_db @ es \<and> sorted_wrt lex_le (stock_locks es) \<and> mset (stock_locks es) = {#(2, 7), (1, 3)#} \<and>
    (\<exists>k<2. stock_locks es ! (1 - k) \<notin> set (take (1 - Suc k mod 2) (stock_locks es)))"
proof -
  obtain t es where run:
    "neword calm_server 0 1 4 9 2 0 example_items example_ware example_qty example_db = (Inr 1, t)"
    "log t = log example_db @ es" "committed 0 es"
    by (rule example_order)
  have lines: "\<forall>q < nat 2. 1 \<le> example_items ! q \<and> example_items ! q \<le> MAXITEMS + 1 \<and>
      0 \<le> example_ware ! q \<and> example_ware ! q \<le> 21473"
    by (simp add: example_items_def example_ware_def MAXITEMS_def less_2_cases_iff)
  note order = neword_lock_order [of 2 "\<lambda>_. calm_server" "\<lambda>_. 0" "\<lambda>_. 1" "\<lambda>_. 4" "\<lambda>_. 9" "\<lambda>_. 2" "\<lambda>_. 0"
      "\<lambda>_. example_items" "\<lambda>_. example_ware" "\<lambda>_. example_qty" "\<lambda>_. example_db" "\<lambda>_. Inr 1" "\<lambda>_. t" "\<lambda>_. es" "\<lambda>k. 1 - k"]
  have set: "mset (stock_locks es) = {#(2, 7), (1, 3)#}" "sorted_wrt lex_le (stock_locks es)"
    using order run lines by (auto simp: example_items_def example_ware_def upt_rec)
  then have "length (stock_locks es) = 2" by (metis size_mset size_add_mset size_empty One_nat_def numeral_2_eq_2)
  with order run lines set show ?thesis by (auto simp: less_2_cases_iff)
qed

end
