(* ===== verification/SbTimer.thy ===== *)
theory SbTimer
  imports CInt
begin

text \<open>
  The timers of sysbench, \<^verbatim>\<open>sb_timer.c\<close> of
  \<^verbatim>\<open>tokudb/software/sysbench/sysbench-0.5-rate-limited/sysbench\<close>. A function that reads the clock
  gets the time as its argument \<open>now\<close>; \<open>None\<close> is the abort on a timer that was not initialised.
  The warnings are not modelled. Nanoseconds are \<open>unsigned long long\<close>, 64-bit words that wrap.
\<close>

section \<open>State\<close>

record timespec =
  tv_sec :: int
  tv_nsec :: int

datatype timer_state = Timer_Uninitialized | Timer_Initialized | Timer_Stopped | Timer_Running

record sb_timer =
  time_start :: timespec
  time_end :: timespec
  time_split :: timespec
  elapsed :: "64 word"
  min_time :: "64 word"
  max_time :: "64 word"
  sum_time :: "64 word"
  events :: "64 word"
  timer_state :: timer_state

definition no_time :: timespec where
  "no_time = \<lparr>tv_sec = 0, tv_nsec = 0\<rparr>"

definition timespec_diff :: "timespec \<Rightarrow> timespec \<Rightarrow> 64 word" where
  "timespec_diff a b = word_of_int (tv_sec a - tv_sec b) * 1000000000 + word_of_int (tv_nsec a - tv_nsec b)"

section \<open>Operations\<close>

definition sb_timer_update :: "timespec \<Rightarrow> sb_timer \<Rightarrow> sb_timer" where
  "sb_timer_update now t = t\<lparr>time_end := now, elapsed := timespec_diff now (time_start t)\<rparr>"

definition sb_timer_reset :: "sb_timer \<Rightarrow> sb_timer" where
  "sb_timer_reset t = t\<lparr>min_time := - 1, max_time := 0, sum_time := 0, events := 0, elapsed := 0\<rparr>"

definition sb_timer_init :: "sb_timer \<Rightarrow> sb_timer" where
  "sb_timer_init t =
     (sb_timer_reset (t\<lparr>time_start := no_time, time_end := no_time, time_split := no_time\<rparr>))
       \<lparr>timer_state := Timer_Initialized\<rparr>"

definition sb_timer_initialized :: "sb_timer \<Rightarrow> bool" where
  "sb_timer_initialized t \<longleftrightarrow> timer_state t \<noteq> Timer_Uninitialized"

definition sb_timer_start :: "timespec \<Rightarrow> sb_timer \<Rightarrow> sb_timer option" where
  "sb_timer_start now t =
     (if timer_state t = Timer_Uninitialized then None
      else Some (t\<lparr>time_start := now, time_split := now, timer_state := Timer_Running\<rparr>))"

definition sb_timer_stop :: "timespec \<Rightarrow> sb_timer \<Rightarrow> sb_timer option" where
  "sb_timer_stop now t =
     (if timer_state t = Timer_Uninitialized then None
      else let t = sb_timer_update now t in
        Some (t\<lparr>events := events t + 1, sum_time := sum_time t + elapsed t,
                min_time := if elapsed t < min_time t then elapsed t else min_time t,
                max_time := if elapsed t > max_time t then elapsed t else max_time t,
                timer_state := Timer_Stopped\<rparr>))"

definition sb_timer_value :: "timespec \<Rightarrow> sb_timer \<Rightarrow> (64 word \<times> sb_timer) option" where
  "sb_timer_value now t = (case timer_state t of
       Timer_Initialized \<Rightarrow> Some (0, t)
     | Timer_Stopped \<Rightarrow> Some (elapsed t, t)
     | Timer_Running \<Rightarrow> let t = sb_timer_update now t in Some (elapsed t, t)
     | Timer_Uninitialized \<Rightarrow> None)"

definition split_stopped :: "sb_timer \<Rightarrow> 64 word \<times> sb_timer" where
  "split_stopped t = (timespec_diff (time_end t) (time_split t), t\<lparr>time_split := time_end t\<rparr>)"

definition sb_timer_split :: "timespec \<Rightarrow> sb_timer \<Rightarrow> (64 word \<times> sb_timer) option" where
  "sb_timer_split now t = (case timer_state t of
       Timer_Initialized \<Rightarrow> Some (0, t)
     | Timer_Stopped \<Rightarrow> Some (split_stopped t)
     | Timer_Running \<Rightarrow> Some (timespec_diff now (time_split t),
         t\<lparr>elapsed := timespec_diff now (time_start t), time_split := now\<rparr>)
     | Timer_Uninitialized \<Rightarrow> None)"

text \<open>The variant for the rate limit, which leaves the start of the interval as it is.\<close>

definition sb_timer_split_tmc :: "timespec \<Rightarrow> sb_timer \<Rightarrow> (64 word \<times> sb_timer) option" where
  "sb_timer_split_tmc now t = (case timer_state t of
       Timer_Initialized \<Rightarrow> Some (0, t)
     | Timer_Stopped \<Rightarrow> Some (split_stopped t)
     | Timer_Running \<Rightarrow> Some (timespec_diff now (time_split t),
         t\<lparr>elapsed := timespec_diff now (time_start t)\<rparr>)
     | Timer_Uninitialized \<Rightarrow> None)"

definition get_avg_time :: "sb_timer \<Rightarrow> 64 word" where
  "get_avg_time t = (if events t = 0 then 0 else sum_time t div events t)"

definition merge_timers :: "sb_timer \<Rightarrow> sb_timer \<Rightarrow> sb_timer" where
  "merge_timers t1 t2 = \<lparr>time_start = no_time, time_end = no_time, time_split = no_time,
     elapsed = elapsed t1 + elapsed t2,
     min_time = if min_time t1 < min_time t2 then min_time t1 else min_time t2,
     max_time = if max_time t1 > max_time t2 then max_time t1 else max_time t2,
     sum_time = sum_time t1 + sum_time t2, events = events t1 + events t2,
     timer_state = Timer_Uninitialized\<rparr>"

text \<open>Division truncates towards zero.\<close>

definition add_ns_to_timespec :: "timespec \<Rightarrow> int \<Rightarrow> timespec" where
  "add_ns_to_timespec dest delta =
     (let x = tv_nsec dest + delta in
      if x > 1000000000 then
        \<lparr>tv_sec = tv_sec dest + x sdiv 1000000000, tv_nsec = x smod 1000000000\<rparr>
      else if x < 0 then
        \<lparr>tv_sec = tv_sec dest - 1 + x sdiv 1000000000, tv_nsec = x smod 1000000000 + 1000000000\<rparr>
      else dest\<lparr>tv_nsec := x\<rparr>)"

section \<open>Measurements\<close>

text \<open>A timer that is started and stopped for each of several intervals.\<close>

fun timed :: "(timespec \<times> timespec) list \<Rightarrow> sb_timer \<Rightarrow> sb_timer option" where
  "timed [] t = Some t"
| "timed ((a, b) # ds) t = Option.bind (sb_timer_start a t) (\<lambda>t. Option.bind (sb_timer_stop b t) (timed ds))"

text \<open>What the reports are made of.\<close>

definition stats :: "sb_timer \<Rightarrow> 64 word \<times> 64 word \<times> 64 word \<times> 64 word" where
  "stats t = (events t, sum_time t, min_time t, max_time t)"

definition durations :: "(timespec \<times> timespec) list \<Rightarrow> 64 word list" where
  "durations ds = map (\<lambda>(a, b). timespec_diff b a) ds"

definition stats_of :: "64 word list \<Rightarrow> 64 word \<times> 64 word \<times> 64 word \<times> 64 word" where
  "stats_of xs = (word_of_nat (length xs), sum_list xs, fold min xs (- 1), fold max xs 0)"

text \<open>A timer that runs and is split at each of several times.\<close>

fun splits :: "timespec list \<Rightarrow> sb_timer \<Rightarrow> (64 word list \<times> sb_timer) option" where
  "splits [] t = Some ([], t)"
| "splits (now # ts) t = Option.bind (sb_timer_split now t) (\<lambda>(d, t).
     Option.bind (splits ts t) (\<lambda>(ds, t). Some (d # ds, t)))"

definition nanoseconds :: "timespec \<Rightarrow> int" where
  "nanoseconds ts = tv_sec ts * 1000000000 + tv_nsec ts"

section \<open>Lemmas\<close>

lemma timespec_diff_nanoseconds: "timespec_diff a b = word_of_int (nanoseconds a - nanoseconds b)"
  by (simp add: timespec_diff_def nanoseconds_def algebra_simps)

lemma timespec_diff_trans: "timespec_diff b a + timespec_diff c b = timespec_diff c a"
  by (simp add: timespec_diff_nanoseconds)

lemma timespec_diff_self [simp]: "timespec_diff a a = 0"
  by (simp add: timespec_diff_def)

lemma uint_timespec_diff:
  assumes "0 \<le> nanoseconds a - nanoseconds b" and "nanoseconds a - nanoseconds b < 2 ^ 64"
  shows "uint (timespec_diff a b) = nanoseconds a - nanoseconds b"
  unfolding timespec_diff_nanoseconds uint_word_of_int_eq
  using assms by (intro take_bit_int_eq_self) simp_all

lemma if_min_max:
  "(if a < b then a else b) = min a (b :: 64 word)" "(if b < a then a else b) = max a (b :: 64 word)"
  by (auto simp: min_def max_def)

lemma fold_min_top: "fold min xs (a :: 64 word) = min a (fold min xs (- 1))"
proof (induction xs arbitrary: a)
  case (Cons x xs)
  have "min x (- 1) = x" by (simp add: min_def)
  with Cons [of "min x a"] Cons [of "min x (- 1)"] show ?case by (simp add: ac_simps)
qed (simp add: min_def)

lemma fold_max_bot: "fold max xs (a :: 64 word) = max a (fold max xs 0)"
proof (induction xs arbitrary: a)
  case (Cons x xs)
  have "max x 0 = x" by (simp add: max_def)
  with Cons [of "max x a"] Cons [of "max x 0"] show ?case by (simp add: ac_simps)
qed (simp add: max_def)

lemma timed_stats:
  assumes "timer_state t \<noteq> Timer_Uninitialized"
  shows "\<exists>u. timed ds t = Some u \<and> timer_state u \<noteq> Timer_Uninitialized \<and>
    events u = events t + word_of_nat (length ds) \<and> sum_time u = sum_time t + sum_list (durations ds) \<and>
    min_time u = fold min (durations ds) (min_time t) \<and> max_time u = fold max (durations ds) (max_time t)"
  using assms
proof (induction ds arbitrary: t)
  case (Cons d ds)
  obtain a b where d: "d = (a, b)" by force
  obtain v where v: "Option.bind (sb_timer_start a t) (sb_timer_stop b) = Some v"
    "timer_state v \<noteq> Timer_Uninitialized" "events v = events t + 1"
    "sum_time v = sum_time t + timespec_diff b a" "min_time v = min (timespec_diff b a) (min_time t)"
    "max_time v = max (timespec_diff b a) (max_time t)"
    using Cons.prems
    by (auto simp: sb_timer_start_def sb_timer_stop_def sb_timer_update_def Let_def
        if_min_max [symmetric])
  moreover have "timed (d # ds) t = Option.bind (Option.bind (sb_timer_start a t) (sb_timer_stop b)) (timed ds)"
    by (simp add: d)
  ultimately show ?case using Cons.IH [OF v(2)] by (simp add: d durations_def ac_simps)
qed (simp add: durations_def)

lemma timed_init:
  "\<exists>u. timed ds (sb_timer_init t) = Some u \<and> stats u = stats_of (durations ds)"
  using timed_stats [of "sb_timer_init t" ds]
  by (auto simp: sb_timer_init_def sb_timer_reset_def stats_def stats_of_def durations_def)

lemma merge_stats_of:
  assumes "stats t = stats_of xs" and "stats u = stats_of ys"
  shows "stats (merge_timers t u) = stats_of (xs @ ys)"
  using assms fold_min_top [of ys "fold min xs (- 1)"] fold_max_bot [of ys "fold max xs 0"]
  by (simp add: stats_def stats_of_def merge_timers_def if_min_max)

lemma splits_run:
  assumes "timer_state t = Timer_Running"
  shows "\<exists>ds u. splits ts t = Some (ds, u) \<and> timer_state u = Timer_Running \<and>
    time_start u = time_start t \<and> time_split u = last (time_split t # ts) \<and>
    sum_list ds = timespec_diff (last (time_split t # ts)) (time_split t)"
  using assms
proof (induction ts arbitrary: t)
  case (Cons now ts)
  let ?t = "t\<lparr>elapsed := timespec_diff now (time_start t), time_split := now\<rparr>"
  from Cons.IH [of ?t] Cons.prems obtain ds u where
    "splits ts ?t = Some (ds, u)" "timer_state u = Timer_Running" "time_start u = time_start t"
    "time_split u = last (now # ts)" "sum_list ds = timespec_diff (last (now # ts)) now" by auto
  with Cons.prems show ?case
    by (simp add: sb_timer_split_def timespec_diff_trans)
qed simp

lemma smod_int_parts:
  "0 \<le> x \<Longrightarrow> 0 < n \<Longrightarrow> 0 \<le> x smod n \<and> x smod n < (n :: int)"
  "0 < n \<Longrightarrow> x < 0 \<Longrightarrow> - n < x smod n \<and> x smod n \<le> (0 :: int)"
  "0 < n \<Longrightarrow> x < 0 \<Longrightarrow> x smod n = 0 \<longleftrightarrow> n dvd (x :: int)"
proof -
  show "0 \<le> x \<Longrightarrow> 0 < n \<Longrightarrow> 0 \<le> x smod n \<and> x smod n < n"
    by (cases "x = 0") (simp_all add: signed_modulo_int_def)
  assume x: "0 < n" "x < 0"
  then have "x smod n = - (- x mod n)" by (simp add: signed_modulo_int_def)
  with x show "- n < x smod n \<and> x smod n \<le> 0" "x smod n = 0 \<longleftrightarrow> n dvd x"
    by (simp_all add: dvd_eq_mod_eq_0 [symmetric])
qed

section \<open>Properties\<close>

text \<open>
  Property C23. Merging the timers of two threads gives the number of events, the sum, the
  minimum and the maximum that one timer would have had for the intervals of both; and one timer
  has those of the intervals it was started and stopped for.
\<close>

theorem merge_timers_measures:
  "\<exists>t u. timed xs (sb_timer_init v) = Some t \<and> timed ys (sb_timer_init w) = Some u \<and>
    stats t = stats_of (durations xs) \<and> stats (merge_timers t u) = stats_of (durations (xs @ ys))"
proof -
  obtain t where t: "timed xs (sb_timer_init v) = Some t" "stats t = stats_of (durations xs)"
    using timed_init by blast
  obtain u where u: "timed ys (sb_timer_init w) = Some u" "stats u = stats_of (durations ys)"
    using timed_init by blast
  have "durations (xs @ ys) = durations xs @ durations ys" by (simp add: durations_def)
  with t u merge_stats_of [OF t(2) u(2)] show ?thesis by simp
qed

text \<open>
  The intervals that \<open>sb_timer_split\<close> returns, and the rest that it returns
  after the timer is stopped, add up to the elapsed time, whatever the clock does between.
\<close>

theorem splits_partition:
  "\<exists>t ds u v rest w. sb_timer_start a (sb_timer_init s) = Some t \<and> splits ts t = Some (ds, u) \<and>
    sb_timer_stop z u = Some v \<and> sb_timer_split now v = Some (rest, w) \<and>
    sum_list ds + rest = elapsed v \<and> elapsed v = timespec_diff z a \<and> sb_timer_split now w = Some (0, w)"
proof -
  let ?t = "(sb_timer_init s)\<lparr>time_start := a, time_split := a, timer_state := Timer_Running\<rparr>"
  obtain ds u where u: "splits ts ?t = Some (ds, u)" "timer_state u = Timer_Running" "time_start u = a"
    "time_split u = last (a # ts)" "sum_list ds = timespec_diff (last (a # ts)) a"
    using splits_run [of ?t ts] by auto
  then show ?thesis
    by (simp add: sb_timer_start_def sb_timer_init_def sb_timer_stop_def sb_timer_update_def Let_def
        sb_timer_split_def split_stopped_def timespec_diff_trans)
qed

text \<open>
  \<open>add_ns_to_timespec\<close> adds exactly the nanoseconds given, and the result is a
  normal time, except for a sum of one second and for a negative sum that is a whole number of
  seconds: then \<open>tv_nsec\<close> is 1000000000.
\<close>

theorem add_ns_exact:
  "nanoseconds (add_ns_to_timespec ts delta) = nanoseconds ts + delta \<and>
   0 \<le> tv_nsec (add_ns_to_timespec ts delta) \<and> tv_nsec (add_ns_to_timespec ts delta) \<le> 1000000000 \<and>
   (tv_nsec (add_ns_to_timespec ts delta) = 1000000000 \<longleftrightarrow>
      tv_nsec ts + delta = 1000000000 \<or> tv_nsec ts + delta < 0 \<and> 1000000000 dvd tv_nsec ts + delta)"
proof -
  let ?n = "1000000000 :: int"
  define x where "x = tv_nsec ts + delta"
  have r: "add_ns_to_timespec ts delta =
      (if x > ?n then \<lparr>tv_sec = tv_sec ts + x sdiv ?n, tv_nsec = x smod ?n\<rparr>
       else if x < 0 then \<lparr>tv_sec = tv_sec ts - 1 + x sdiv ?n, tv_nsec = x smod ?n + ?n\<rparr>
       else ts\<lparr>tv_nsec := x\<rparr>)"
    by (simp only: add_ns_to_timespec_def x_def Let_def)
  consider "x > ?n" | "x < 0" | "0 \<le> x" "x \<le> ?n" by linarith
  then have "nanoseconds (add_ns_to_timespec ts delta) = nanoseconds ts - tv_nsec ts + x \<and>
   0 \<le> tv_nsec (add_ns_to_timespec ts delta) \<and> tv_nsec (add_ns_to_timespec ts delta) \<le> ?n \<and>
   (tv_nsec (add_ns_to_timespec ts delta) = ?n \<longleftrightarrow> x = ?n \<or> x < 0 \<and> ?n dvd x)"
  proof cases
    case 1
    with smod_int_parts(1) [of x ?n] sdiv_mult_smod_eq [of x ?n]
    show ?thesis by (simp add: r nanoseconds_def)
  next
    case 2
    with smod_int_parts(2,3) [of ?n x] sdiv_mult_smod_eq [of x ?n]
    show ?thesis by (auto simp: r nanoseconds_def)
  qed (auto simp: r nanoseconds_def)
  then show ?thesis by (simp add: x_def)
qed

end
