(* ===== verification/SbList.thy ===== *)
theory SbList
  imports Main
begin

text \<open>
  The lists of sysbench, the macros of \<^verbatim>\<open>sb_list.h\<close> (directory
  \<^verbatim>\<open>tokudb/software/sysbench/sysbench-0.5-rate-limited/sysbench\<close>): circular and doubly linked, the
  head is an item without data. The memory is explicit, two maps from the address of an item
  to its links, because the macros assign the links of neighbours. \<open>is_list\<close> relates it to a
  list of addresses; the other theories about sysbench use the latter.
\<close>

section \<open>Items and macros\<close>

type_synonym item = nat

record links =
  next_p :: "item \<Rightarrow> item"
  prev_p :: "item \<Rightarrow> item"

definition set_next_p :: "item \<Rightarrow> item \<Rightarrow> links \<Rightarrow> links" where
  "set_next_p p q h = h\<lparr>next_p := (next_p h)(p := q)\<rparr>"

definition set_prev_p :: "item \<Rightarrow> item \<Rightarrow> links \<Rightarrow> links" where
  "set_prev_p p q h = h\<lparr>prev_p := (prev_p h)(p := q)\<rparr>"

definition SB_LIST_INIT :: "item \<Rightarrow> links \<Rightarrow> links" where
  "SB_LIST_INIT head_p h = set_prev_p head_p head_p (set_next_p head_p head_p h)"

definition SB_LIST_ADD :: "item \<Rightarrow> item \<Rightarrow> links \<Rightarrow> links" where
  "SB_LIST_ADD item_p head_p h =
     (let h = set_next_p item_p (next_p h head_p) h;
          h = set_prev_p item_p head_p h;
          h = set_next_p head_p item_p h
      in set_prev_p (next_p h item_p) item_p h)"

definition SB_LIST_ADD_TAIL :: "item \<Rightarrow> item \<Rightarrow> links \<Rightarrow> links" where
  "SB_LIST_ADD_TAIL item_p head_p h =
     (let h = set_prev_p item_p (prev_p h head_p) h;
          h = set_next_p item_p head_p h;
          h = set_prev_p head_p item_p h
      in set_next_p (prev_p h item_p) item_p h)"

definition SB_LIST_DELETE :: "item \<Rightarrow> links \<Rightarrow> links" where
  "SB_LIST_DELETE old_item_p h =
     (let h = set_prev_p (next_p h old_item_p) (prev_p h old_item_p) h
      in set_next_p (prev_p h old_item_p) (next_p h old_item_p) h)"

definition SB_LIST_REPLACE :: "item \<Rightarrow> item \<Rightarrow> links \<Rightarrow> links" where
  "SB_LIST_REPLACE item_p old_item_p h =
     (let h = set_next_p item_p (next_p h old_item_p) h;
          h = set_prev_p item_p (prev_p h old_item_p) h;
          h = set_prev_p (next_p h item_p) item_p h
      in set_next_p (prev_p h item_p) item_p h)"

definition SB_LIST_IS_EMPTY :: "item \<Rightarrow> links \<Rightarrow> bool" where
  "SB_LIST_IS_EMPTY head_p h \<longleftrightarrow> next_p h head_p = head_p"

definition SB_LIST_ITEM_IN_LIST :: "item \<Rightarrow> links \<Rightarrow> bool" where
  "SB_LIST_ITEM_IN_LIST item_p h \<longleftrightarrow> next_p h item_p \<noteq> item_p"

text \<open>The comparison is the wrong way round in the source.\<close>

definition SB_LIST_ITEM_FIRST :: "item \<Rightarrow> item \<Rightarrow> links \<Rightarrow> bool" where
  "SB_LIST_ITEM_FIRST item_p head_p h \<longleftrightarrow> prev_p h item_p \<noteq> head_p"

definition SB_LIST_ITEM_LAST :: "item \<Rightarrow> item \<Rightarrow> links \<Rightarrow> bool" where
  "SB_LIST_ITEM_LAST item_p head_p h \<longleftrightarrow> next_p h item_p = head_p"

definition SB_LIST_ENUM_NEXT :: "item \<Rightarrow> item \<Rightarrow> links \<Rightarrow> item option" where
  "SB_LIST_ENUM_NEXT pos_p head_p h = (if next_p h pos_p \<noteq> head_p then Some (next_p h pos_p) else None)"

text \<open>
  The loops, with fuel for the circle: \<open>None\<close> when it is used up. The body of the first leaves the
  links alone and maps a state; the body of the second may delete the item it is called for.
\<close>

primrec each_from :: "nat \<Rightarrow> item \<Rightarrow> item \<Rightarrow> links \<Rightarrow> (item \<Rightarrow> 'a \<Rightarrow> 'a) \<Rightarrow> 'a \<Rightarrow> 'a option" where
  "each_from 0 pos_p head_p h body a = None"
| "each_from (Suc fuel) pos_p head_p h body a =
     (if pos_p = head_p then Some a else each_from fuel (next_p h pos_p) head_p h body (body pos_p a))"

definition SB_LIST_FOR_EACH :: "nat \<Rightarrow> item \<Rightarrow> links \<Rightarrow> (item \<Rightarrow> 'a \<Rightarrow> 'a) \<Rightarrow> 'a \<Rightarrow> 'a option" where
  "SB_LIST_FOR_EACH fuel head_p h = each_from fuel (next_p h head_p) head_p h"

primrec each_safe_from :: "nat \<Rightarrow> item \<Rightarrow> item \<Rightarrow> item \<Rightarrow> (item \<Rightarrow> links \<Rightarrow> links) \<Rightarrow> links \<Rightarrow> links option" where
  "each_safe_from 0 pos_p temp_p head_p body h = None"
| "each_safe_from (Suc fuel) pos_p temp_p head_p body h =
     (if pos_p = head_p then Some h
      else let h = body pos_p h in each_safe_from fuel temp_p (next_p h temp_p) head_p body h)"

definition SB_LIST_FOR_EACH_SAFE :: "nat \<Rightarrow> item \<Rightarrow> (item \<Rightarrow> links \<Rightarrow> links) \<Rightarrow> links \<Rightarrow> links option" where
  "SB_LIST_FOR_EACH_SAFE fuel head_p body h =
     (let pos_p = next_p h head_p in each_safe_from fuel pos_p (next_p h pos_p) head_p body h)"

section \<open>The list that the links hold\<close>

fun linked :: "links \<Rightarrow> item list \<Rightarrow> bool" where
  "linked h (p # q # ps) \<longleftrightarrow> next_p h p = q \<and> prev_p h q = p \<and> linked h (q # ps)"
| "linked h ps \<longleftrightarrow> True"

definition is_list :: "links \<Rightarrow> item \<Rightarrow> item list \<Rightarrow> bool" where
  "is_list h head_p ps \<longleftrightarrow> distinct (head_p # ps) \<and> linked h (head_p # ps @ [head_p])"

section \<open>Lemmas\<close>

lemma links_simps [simp]:
  "next_p (set_next_p p q h) = (next_p h)(p := q)" "prev_p (set_next_p p q h) = prev_p h"
  "prev_p (set_prev_p p q h) = (prev_p h)(p := q)" "next_p (set_prev_p p q h) = next_p h"
  by (simp_all add: set_next_p_def set_prev_p_def)

lemma linked_append: "linked h (ps @ q # qs) \<longleftrightarrow> linked h (ps @ [q]) \<and> linked h (q # qs)"
proof (induction ps)
  case (Cons p ps)
  then show ?case by (cases ps) auto
qed simp

lemma linked_frame:
  assumes "linked h ps" and "\<And>p. p \<in> set (butlast ps) \<Longrightarrow> next_p h' p = next_p h p"
    and "\<And>p. p \<in> set (tl ps) \<Longrightarrow> prev_p h' p = prev_p h p"
  shows "linked h' ps"
  using assms by (induction h ps rule: linked.induct) auto

lemma is_list_init: "is_list (SB_LIST_INIT head_p h) head_p []"
  by (simp add: is_list_def SB_LIST_INIT_def)

lemma is_list_first: "is_list h head_p ps \<Longrightarrow> next_p h head_p = hd (ps @ [head_p])"
  by (cases ps) (auto simp: is_list_def)

lemma is_list_last: "is_list h head_p ps \<Longrightarrow> prev_p h head_p = last (head_p # ps)"
  by (cases ps rule: rev_cases)
    (auto simp: is_list_def linked_append [of h "head_p # _" _ "[head_p]", simplified])

text \<open>
  An item put between two neighbours, or taken out between them. In the circle the head
  is both ends, so the items that have a successor are the list without its last element, and
  those that have a predecessor the list without its first.
\<close>

lemma linked_insert:
  assumes "linked h (as @ p # q # bs)" and "distinct (as @ p # butlast (q # bs))"
    and "distinct (tl (as @ [p]) @ q # bs)" and "x \<notin> set (as @ p # q # bs)"
    and "next_p h' = (next_p h)(x := q, p := x)" and "prev_p h' = (prev_p h)(x := p, q := x)"
  shows "linked h' (as @ p # x # q # bs)"
proof -
  have l: "linked h (as @ [p])" "linked h (q # bs)"
    using assms(1) linked_append [of h as p "q # bs"] by simp_all
  have "x \<notin> set (butlast (q # bs))" using assms(4) by (auto dest: in_set_butlastD)
  have "x \<notin> set (tl (as @ [p]))" using assms(4) by (cases as) auto
  have "p \<notin> set as" "p \<notin> set (butlast (q # bs))"
    "q \<notin> set (tl (as @ [p]))" "q \<notin> set bs" using assms(2-4) by auto
  have "linked h' (as @ [p])"
    by (rule linked_frame [OF l(1)])
      (use assms(4) \<open>p \<notin> set as\<close> \<open>x \<notin> set (tl (as @ [p]))\<close> \<open>q \<notin> set (tl (as @ [p]))\<close> in \<open>auto simp: assms(5,6)\<close>)
  moreover have "linked h' (q # bs)"
    by (rule linked_frame [OF l(2)])
      (use assms(4) \<open>x \<notin> set (butlast (q # bs))\<close> \<open>p \<notin> set (butlast (q # bs))\<close> \<open>q \<notin> set bs\<close>
        in \<open>auto simp: assms(5,6) simp del: butlast.simps\<close>)
  moreover have "x \<noteq> p" "x \<noteq> q" using assms(4) by auto
  ultimately show ?thesis
    using assms(5,6) by (simp add: linked_append [of h' as p "x # q # bs"])
qed

lemma linked_delete:
  assumes "linked h (as @ p # x # q # bs)" and "distinct (as @ p # x # butlast (q # bs))"
    and "distinct (tl (as @ [p]) @ x # q # bs)"
    and "next_p h' = (next_p h)(p := q)" and "prev_p h' = (prev_p h)(q := p)"
  shows "linked h' (as @ p # q # bs)"
proof -
  have l: "linked h (as @ [p])" "linked h (q # bs)"
    using assms(1) linked_append [of h as p "x # q # bs"] by simp_all
  have d: "p \<notin> set as" "p \<notin> set (butlast (q # bs))" "q \<notin> set (tl (as @ [p]))" "q \<notin> set bs"
    using assms(2,3) by auto
  have "linked h' (as @ [p])"
    by (rule linked_frame [OF l(1)]) (use d in \<open>auto simp: assms(4,5)\<close>)
  moreover have "linked h' (q # bs)"
    by (rule linked_frame [OF l(2)]) (use d in \<open>auto simp: assms(4,5) simp del: butlast.simps\<close>)
  ultimately show ?thesis using assms(4,5) by (simp add: linked_append [of h' as p "q # bs"])
qed

lemma is_list_insert:
  assumes "is_list h head_p (as @ bs)" and "x \<noteq> head_p" and "x \<notin> set (as @ bs)"
    and "p = last (head_p # as)" and "q = hd (bs @ [head_p])"
    and "next_p h' = (next_p h)(x := q, p := x)" and "prev_p h' = (prev_p h)(x := p, q := x)"
  shows "is_list h' head_p (as @ x # bs)"
proof -
  obtain as' where as: "head_p # as = as' @ [p]" using assms(4) by (metis append_butlast_last_id list.distinct(1))
  obtain bs' where bs: "bs @ [head_p] = q # bs'" using assms(5) by (cases "bs @ [head_p]") auto
  have split: "head_p # (as @ ys) @ [head_p] = as' @ p # ys @ [head_p]" for ys
    using as by (metis append_Cons append_assoc append_Nil)
  have "butlast (q # bs') = bs" "tl (as' @ [p]) = as" using as bs by (metis butlast_snoc, metis list.sel(3))
  moreover have "set (as' @ [p]) = insert head_p (set as)" "set (q # bs') = insert head_p (set bs)"
    using arg_cong [OF as, of set] arg_cong [OF bs, of set] by auto
  moreover have "distinct ((as' @ [p]) @ bs)" "distinct (as @ q # bs')"
    using assms(1) as [symmetric] bs [symmetric] by (auto simp: is_list_def simp del: append_Cons)
  moreover have "linked h (as' @ p # q # bs')" using assms(1) unfolding split [of bs, symmetric] bs [symmetric] is_list_def by simp
  ultimately have "linked h' (as' @ p # x # q # bs')"
    using assms(2,3,6,7) by (intro linked_insert [of h]) auto
  moreover have "head_p # as @ x # bs @ [head_p] = as' @ p # x # q # bs'" using split [of "x # bs"] bs by simp
  ultimately have "linked h' (head_p # as @ x # bs @ [head_p])" by (simp only:)
  with assms(1-3) show ?thesis by (auto simp: is_list_def)
qed

lemma is_list_delete:
  assumes "is_list h head_p (as @ x # bs)"
  shows "is_list (SB_LIST_DELETE x h) head_p (as @ bs)"
proof -
  define p where "p = last (head_p # as)"
  define q where "q = hd (bs @ [head_p])"
  obtain as' where as: "head_p # as = as' @ [p]" unfolding p_def by (metis append_butlast_last_id list.distinct(1))
  obtain bs' where bs: "bs @ [head_p] = q # bs'" unfolding q_def by (cases "bs @ [head_p]") auto
  have split: "head_p # (as @ ys) @ [head_p] = as' @ p # ys @ [head_p]" for ys
    using as by (metis append_Cons append_assoc append_Nil)
  have parts: "butlast (q # bs') = bs" "tl (as' @ [p]) = as" using as bs by (metis butlast_snoc, metis list.sel(3))
  have d: "distinct ((as' @ [p]) @ x # bs)" "distinct (as @ x # q # bs')"
    using assms as [symmetric] bs [symmetric] by (auto simp: is_list_def simp del: append_Cons)
  have l: "linked h (as' @ p # x # q # bs')" using assms split [of "x # bs"] bs by (metis append_Cons is_list_def)
  then have x: "next_p h x = q" "prev_p h x = p"
    by (simp_all add: linked_append [of h as' p "x # q # bs'"])
  have "p \<noteq> x" "q \<noteq> x" using d by auto
  then have "linked (SB_LIST_DELETE x h) (as' @ p # q # bs')"
    using d parts x by (intro linked_delete [OF l]) (simp_all add: SB_LIST_DELETE_def Let_def)
  moreover have "head_p # as @ bs @ [head_p] = as' @ p # q # bs'" using split [of bs] bs by simp
  ultimately have "linked (SB_LIST_DELETE x h) (head_p # as @ bs @ [head_p])" by (simp only:)
  with assms show ?thesis by (auto simp: is_list_def)
qed

lemma is_list_add:
  assumes "is_list h head_p ps" and "x \<noteq> head_p" and "x \<notin> set ps"
  shows "is_list (SB_LIST_ADD x head_p h) head_p (x # ps)"
  using is_list_insert [of h head_p "[]" ps x head_p "next_p h head_p"] is_list_first [OF assms(1)] assms
  by (auto simp: SB_LIST_ADD_def Let_def fun_upd_twist)

lemma is_list_add_tail:
  assumes "is_list h head_p ps" and "x \<noteq> head_p" and "x \<notin> set ps"
  shows "is_list (SB_LIST_ADD_TAIL x head_p h) head_p (ps @ [x])"
  using is_list_insert [of h head_p ps "[]" x "prev_p h head_p" head_p] is_list_last [OF assms(1)] assms
  by (auto simp: SB_LIST_ADD_TAIL_def Let_def fun_upd_twist)

lemma is_list_next:
  assumes "is_list h head_p (as @ x # bs)"
  shows "next_p h x = hd (bs @ [head_p])"
  using assms linked_append [of h "head_p # as" x "bs @ [head_p]"]
  by (cases bs) (auto simp: is_list_def)

lemma is_list_prev:
  assumes "is_list h head_p (as @ x # bs)"
  shows "prev_p h x = last (head_p # as)"
proof -
  have "head_p # (as @ x # bs) @ [head_p] = (butlast (head_p # as) @ [last (head_p # as)]) @ x # bs @ [head_p]"
    by simp
  then have "linked h (butlast (head_p # as) @ last (head_p # as) # x # bs @ [head_p])"
    using assms unfolding is_list_def by (metis append.assoc append_Cons append_Nil)
  then show ?thesis
    using linked_append [of h "butlast (head_p # as)" "last (head_p # as)" "x # bs @ [head_p]"] by simp
qed

lemma each_from_list:
  "is_list h head_p (as @ bs) \<Longrightarrow> length bs < fuel \<Longrightarrow>
   each_from fuel (hd (bs @ [head_p])) head_p h body a = Some (fold body bs a)"
proof (induction bs arbitrary: as fuel a)
  case Nil
  then show ?case by (cases fuel) simp_all
next
  case (Cons b bs)
  then obtain n where n: "fuel = Suc n" by (cases fuel) auto
  have "b \<noteq> head_p" using Cons.prems(1) by (auto simp: is_list_def)
  moreover have "next_p h b = hd (bs @ [head_p])" by (rule is_list_next [OF Cons.prems(1)])
  moreover have "each_from n (hd (bs @ [head_p])) head_p h body (body b a) = Some (fold body bs (body b a))"
    using Cons.IH [of "as @ [b]" n "body b a"] Cons.prems n by simp
  ultimately show ?case using n by simp
qed

lemma each_list:
  "is_list h head_p ps \<Longrightarrow> length ps < fuel \<Longrightarrow>
   SB_LIST_FOR_EACH fuel head_p h body a = Some (fold body ps a)"
  using each_from_list [of h head_p "[]" ps fuel body a] is_list_first
  by (simp add: SB_LIST_FOR_EACH_def)

text \<open>
  The loop whose body deletes some of the items it visits leaves the others, in order; it visits the
  items after a deleted one although the links have changed.
\<close>

lemma each_safe_delete:
  "is_list h head_p (as @ ps) \<Longrightarrow> length ps < fuel \<Longrightarrow> pos = hd (ps @ [head_p]) \<Longrightarrow> temp = next_p h pos \<Longrightarrow>
   \<exists>h'. each_safe_from fuel pos temp head_p (\<lambda>p h. if D p then SB_LIST_DELETE p h else h) h = Some h' \<and>
     is_list h' head_p (as @ filter (\<lambda>p. \<not> D p) ps)"
proof (induction ps arbitrary: as h fuel pos temp)
  case Nil
  then show ?case by (cases fuel) auto
next
  case (Cons b ps)
  then obtain n where n: "fuel = Suc n" by (cases fuel) auto
  have b: "b \<noteq> head_p" using Cons.prems(1) by (auto simp: is_list_def)
  have temp: "temp = hd (ps @ [head_p])" using is_list_next [OF Cons.prems(1)] Cons.prems by simp
  show ?case
  proof (cases "D b")
    case True
    from Cons.IH [OF is_list_delete [OF Cons.prems(1)], of n temp] Cons.prems(2,3) n b temp True
    show ?thesis by (simp add: Let_def)
  next
    case False
    from Cons.IH [of h "as @ [b]" n temp] Cons.prems n b temp False show ?thesis by (simp add: Let_def)
  qed
qed

lemma is_list_replace:
  assumes "is_list h head_p (as @ y # bs)" and "x \<noteq> head_p" and "x \<notin> set (as @ y # bs)"
  shows "is_list (SB_LIST_REPLACE x y h) head_p (as @ x # bs)"
proof -
  have y: "next_p h y = hd (bs @ [head_p])" "prev_p h y = last (head_p # as)"
    using is_list_next [OF assms(1)] is_list_prev [OF assms(1)] by simp_all
  have mem: "hd (bs @ [head_p]) \<in> set bs \<union> {head_p}" "last (head_p # as) \<in> set as \<union> {head_p}"
    by (cases bs, auto)
  let ?d = "SB_LIST_DELETE y h"
  have d: "is_list ?d head_p (as @ bs)" by (rule is_list_delete [OF assms(1)])
  have ne: "y \<noteq> hd (bs @ [head_p])" "y \<noteq> last (head_p # as)" "x \<noteq> y"
    "x \<noteq> hd (bs @ [head_p])" "x \<noteq> last (head_p # as)"
    using assms mem by (auto simp: is_list_def)
  show ?thesis
    by (rule is_list_insert [OF d _ _ refl refl])
      (use assms y ne in \<open>auto simp: SB_LIST_REPLACE_def SB_LIST_DELETE_def Let_def\<close>)
qed

section \<open>Properties\<close>

text \<open>
  Property C24. The macros implement a list. \<open>SB_LIST_INIT\<close> makes it empty; adding at either end,
  deleting and replacing an item change it as they should and keep the links in both directions. Of
  an item \<open>y\<close> of the list the tests tell whether it is the last one, and \<open>SB_LIST_ENUM_NEXT\<close> the one after
  it; \<open>SB_LIST_ITEM_FIRST\<close> is the wrong way round, true of every item but the first. The loop visits the
  items once each, in order; the one for bodies that delete leaves the items that its body does
  not delete, whichever they are. Fuel above the number of items is enough.
\<close>

theorem list_macros_refine:
  assumes "is_list h head_p (as @ y # bs)" and "x \<noteq> head_p" and "x \<notin> set (as @ y # bs)"
    and "length (as @ y # bs) < fuel"
  shows "is_list (SB_LIST_INIT head_p h) head_p [] \<and> SB_LIST_IS_EMPTY head_p (SB_LIST_INIT head_p h) \<and>
    is_list (SB_LIST_ADD x head_p h) head_p (x # as @ y # bs) \<and>
    is_list (SB_LIST_ADD_TAIL x head_p h) head_p (as @ y # bs @ [x]) \<and>
    is_list (SB_LIST_DELETE y h) head_p (as @ bs) \<and>
    is_list (SB_LIST_REPLACE x y h) head_p (as @ x # bs) \<and>
    \<not> SB_LIST_IS_EMPTY head_p h \<and> (SB_LIST_ITEM_LAST y head_p h \<longleftrightarrow> bs = []) \<and>
    (SB_LIST_ITEM_FIRST y head_p h \<longleftrightarrow> as \<noteq> []) \<and>
    SB_LIST_ENUM_NEXT y head_p h = (case bs of [] \<Rightarrow> None | z # zs \<Rightarrow> Some z) \<and>
    SB_LIST_FOR_EACH fuel head_p h body a = Some (fold body (as @ y # bs) a) \<and>
    (\<exists>h'. SB_LIST_FOR_EACH_SAFE fuel head_p (\<lambda>p h. if D p then SB_LIST_DELETE p h else h) h = Some h' \<and>
      is_list h' head_p (filter (\<lambda>p. \<not> D p) (as @ y # bs)))"
proof (intro conjI)
  have "is_list (SB_LIST_ADD_TAIL x head_p h) head_p ((as @ y # bs) @ [x])"
    by (rule is_list_add_tail [OF assms(1-3)])
  then show "is_list (SB_LIST_ADD_TAIL x head_p h) head_p (as @ y # bs @ [x])" by simp
  show "SB_LIST_IS_EMPTY head_p (SB_LIST_INIT head_p h)" by (simp add: SB_LIST_IS_EMPTY_def SB_LIST_INIT_def)
  show "\<not> SB_LIST_IS_EMPTY head_p h"
    using is_list_first [OF assms(1)] assms(1) by (cases as) (auto simp: SB_LIST_IS_EMPTY_def is_list_def)
  show "SB_LIST_ITEM_LAST y head_p h \<longleftrightarrow> bs = []"
    using is_list_next [OF assms(1)] assms(1) by (cases bs) (auto simp: SB_LIST_ITEM_LAST_def is_list_def)
  show "SB_LIST_ENUM_NEXT y head_p h = (case bs of [] \<Rightarrow> None | z # zs \<Rightarrow> Some z)"
    using is_list_next [OF assms(1)] assms(1) by (cases bs) (auto simp: SB_LIST_ENUM_NEXT_def is_list_def)
  show "SB_LIST_ITEM_FIRST y head_p h \<longleftrightarrow> as \<noteq> []"
    using is_list_prev [OF assms(1)] assms(1) last_in_set [of as]
    by (auto simp: SB_LIST_ITEM_FIRST_def is_list_def)
  show "\<exists>h'. SB_LIST_FOR_EACH_SAFE fuel head_p (\<lambda>p h. if D p then SB_LIST_DELETE p h else h) h = Some h' \<and>
      is_list h' head_p (filter (\<lambda>p. \<not> D p) (as @ y # bs))"
    using each_safe_delete [of h head_p "[]", OF _ assms(4) is_list_first [OF assms(1)] refl] assms(1)
    by (simp add: SB_LIST_FOR_EACH_SAFE_def Let_def)
qed (intro is_list_init is_list_add is_list_delete is_list_replace each_list assms)+

text \<open>Item 1 in the list of head 0.\<close>

definition example_links :: links where
  "example_links = SB_LIST_ADD_TAIL 1 0 (SB_LIST_INIT 0 \<lparr>next_p = \<lambda>_. 9, prev_p = \<lambda>_. 9\<rparr>)"

theorem list_macros_refine_witness:
  "is_list (SB_LIST_REPLACE 2 1 example_links) 0 [2] \<and>
   SB_LIST_FOR_EACH 2 0 example_links (\<lambda>p ps. p # ps) [] = Some [1] \<and>
   (\<exists>h'. SB_LIST_FOR_EACH_SAFE 2 0 (\<lambda>p h. if p = 1 then SB_LIST_DELETE p h else h) example_links = Some h' \<and>
     is_list h' 0 [])"
proof -
  have "is_list example_links 0 ([] @ 1 # [])"
    using is_list_add_tail [OF is_list_init, of 1 0] by (simp add: example_links_def)
  from list_macros_refine [OF this, of 2 2 "\<lambda>p ps. p # ps" "[]" "\<lambda>p. p = 1"] show ?thesis by simp
qed

end
