(* ===== verification/SbOptions.thy ===== *)
theory SbOptions
  imports CText SbList
begin

text \<open>
  The options of sysbench, \<^verbatim>\<open>sb_options.c\<close>, and the command line, \<^verbatim>\<open>parse_arguments\<close> of
  \<^verbatim>\<open>sysbench.c\<close> (directory \<^verbatim>\<open>tokudb/software/sysbench/sysbench-0.5-rate-limited/sysbench\<close>). The lists of
  options and values are HOL lists, see theory SbList. Running out of memory, the printing of
  options and the configuration files, which the program does not use, are not modelled.
\<close>

section \<open>State\<close>

datatype sb_arg_type = Arg_Null | Arg_Flag | Arg_Int | Arg_Size | Arg_Float | Arg_String | Arg_List

record option_t =
  opt_name :: string
  opt_type :: sb_arg_type
  opt_values :: "string list"

type_synonym option_list = "option_t list"

record sb_arg =
  arg_name :: string
  arg_type :: sb_arg_type
  arg_value :: "string option"

section \<open>Names\<close>

definition convert_dashes :: "string \<Rightarrow> string" where
  "convert_dashes = map (\<lambda>c. if c = CHR ''-'' then CHR ''_'' else c)"

text \<open>The difference at the first characters that differ by more than dash and underscore.\<close>

fun opt_name_cmp :: "string \<Rightarrow> string \<Rightarrow> int" where
  "opt_name_cmp [] [] = 0"
| "opt_name_cmp [] (d # ds) = - of_char d"
| "opt_name_cmp (c # cs) [] = of_char c"
| "opt_name_cmp (c # cs) (d # ds) =
     (if c = d then opt_name_cmp cs ds
      else if (c \<noteq> CHR ''-'' \<and> c \<noteq> CHR ''_'') \<or> (d \<noteq> CHR ''-'' \<and> d \<noteq> CHR ''_'') then of_char c - of_char d
      else opt_name_cmp cs ds)"

section \<open>Operations\<close>

definition find_option :: "option_list \<Rightarrow> string \<Rightarrow> option_t option" where
  "find_option opts name = find (\<lambda>opt. opt_name_cmp (opt_name opt) name = 0) opts"

definition new_option :: option_t where
  "new_option = \<lparr>opt_name = [], opt_type = Arg_Null, opt_values = []\<rparr>"

definition add_option :: "option_list \<Rightarrow> string \<Rightarrow> option_list" where
  "add_option opts name = (if find_option opts name \<noteq> None then opts
     else opts @ [new_option\<lparr>opt_name := convert_dashes name\<rparr>])"

text \<open>An assignment to the option that \<open>find_option\<close> or \<open>add_option\<close> has returned.\<close>

fun at_option :: "string \<Rightarrow> (option_t \<Rightarrow> option_t) \<Rightarrow> option_list \<Rightarrow> option_list" where
  "at_option name f [] = []"
| "at_option name f (opt # opts) =
     (if opt_name_cmp (opt_name opt) name = 0 then f opt # opts else opt # at_option name f opts)"

definition add_value :: "string \<Rightarrow> option_t \<Rightarrow> option_t" where
  "add_value data opt = opt\<lparr>opt_values := opt_values opt @ [data]\<rparr>"

text \<open>\<open>strtok\<close> skips empty pieces.\<close>

definition strtok_comma :: "string \<Rightarrow> string list" where
  "strtok_comma str = filter (\<lambda>t. t \<noteq> []) (split_at (CHR '','') str)"

text \<open>True is the return value 1, for an unknown type.\<close>

definition sb_set_option :: "string \<Rightarrow> string option \<Rightarrow> sb_arg_type \<Rightarrow> option_list \<Rightarrow> bool \<times> option_list" where
  "sb_set_option name value t opts =
     (let opts = at_option name (\<lambda>opt. opt\<lparr>opt_values := [], opt_type := t\<rparr>) (add_option opts name);
          add = (\<lambda>v. at_option name (add_value v) opts)
      in if t \<noteq> Arg_Flag \<and> (value = None \<or> value = Some []) then (False, opts)
         else case t of
           Arg_Flag \<Rightarrow> (False, if value = None \<or> value = Some ''on'' then add ''on'' else opts)
         | Arg_List \<Rightarrow> (False, fold (\<lambda>v. at_option name (add_value v)) (strtok_comma (the value)) opts)
         | Arg_Null \<Rightarrow> (True, opts)
         | _ \<Rightarrow> (False, add (the value)))"

fun sb_register_arg_set :: "sb_arg list \<Rightarrow> option_list \<Rightarrow> bool \<times> option_list" where
  "sb_register_arg_set [] opts = (False, opts)"
| "sb_register_arg_set (arg # args) opts =
     (case sb_set_option (arg_name arg) (arg_value arg) (arg_type arg) opts of
       (True, opts) \<Rightarrow> (True, opts)
     | (False, opts) \<Rightarrow> sb_register_arg_set args opts)"

definition sb_opt_to_flag :: "option_t \<Rightarrow> bool" where
  "sb_opt_to_flag opt \<longleftrightarrow> opt_values opt \<noteq> []"

definition sb_get_value_flag :: "string \<Rightarrow> option_list \<Rightarrow> bool" where
  "sb_get_value_flag name opts = (case find_option opts name of None \<Rightarrow> False | Some opt \<Rightarrow> sb_opt_to_flag opt)"

text \<open>\<open>None\<close> is the exit after an invalid value.\<close>

definition sb_opt_to_int :: "option_t \<Rightarrow> int option" where
  "sb_opt_to_int opt = (case opt_values opt of
       [] \<Rightarrow> Some 0
     | v # _ \<Rightarrow> (case strtol v of (res, endptr) \<Rightarrow>
         if endptr \<noteq> [] \<or> res > 2147483647 \<or> res < - 2147483648 then None else Some res))"

definition sb_get_value_int :: "string \<Rightarrow> option_list \<Rightarrow> int option" where
  "sb_get_value_int name opts = (case find_option opts name of None \<Rightarrow> Some 0 | Some opt \<Rightarrow> sb_opt_to_int opt)"

text \<open>The digits as \<open>unsigned long long\<close>; then the first other character is the modifier.\<close>

definition size_digits :: "string \<Rightarrow> 64 word" where
  "size_digits ds = foldl (\<lambda>res c. res * 10 + word_of_int (of_char c) - 48) 0 ds"

definition c_toupper :: "char \<Rightarrow> char" where
  "c_toupper c = (let n = of_char c :: int in if 97 \<le> n \<and> n \<le> 122 then char_of (n - 32) else c)"

fun position :: "'a \<Rightarrow> 'a list \<Rightarrow> nat option" where
  "position x [] = None"
| "position x (y # ys) = (if x = y then Some 0 else map_option Suc (position x ys))"

definition sb_opt_to_size :: "option_t \<Rightarrow> 64 word" where
  "sb_opt_to_size opt = (case opt_values opt of
       [] \<Rightarrow> 0
     | v # _ \<Rightarrow>
         let ds = takeWhile c_isdigit v; rest = dropWhile c_isdigit v; res = size_digits ds in
         if ds = [] \<or> rest = [] then res
         else case position (c_toupper (hd rest)) ''KMGT'' of
             Some n \<Rightarrow> res * 1024 ^ Suc n
           | None \<Rightarrow> 0)"

definition sb_get_value_size :: "string \<Rightarrow> option_list \<Rightarrow> 64 word" where
  "sb_get_value_size name opts = (case find_option opts name of None \<Rightarrow> 0 | Some opt \<Rightarrow> sb_opt_to_size opt)"

definition sb_opt_to_string :: "option_t \<Rightarrow> string option" where
  "sb_opt_to_string opt = (case opt_values opt of [] \<Rightarrow> None | v # _ \<Rightarrow> Some v)"

definition sb_get_value_string :: "string \<Rightarrow> option_list \<Rightarrow> string option" where
  "sb_get_value_string name opts =
     (case find_option opts name of None \<Rightarrow> None | Some opt \<Rightarrow> sb_opt_to_string opt)"

definition sb_get_value_list :: "string \<Rightarrow> option_list \<Rightarrow> string list option" where
  "sb_get_value_list name opts = map_option opt_values (find_option opts name)"

text \<open>True is the return value 1.\<close>

definition remove_option :: "option_list \<Rightarrow> string \<Rightarrow> bool \<times> option_list" where
  "remove_option opts name = (case find_option opts name of
       None \<Rightarrow> (True, opts)
     | Some _ \<Rightarrow> (False,
         takeWhile (\<lambda>opt. opt_name_cmp (opt_name opt) name \<noteq> 0) opts @
         tl (dropWhile (\<lambda>opt. opt_name_cmp (opt_name opt) name \<noteq> 0) opts)))"

section \<open>The command line\<close>

datatype sb_cmd = Cmd_Null | Cmd_Prepare | Cmd_Run | Cmd_Cleanup | Cmd_Help | Cmd_Version

definition parse_command :: "string \<Rightarrow> sb_cmd" where
  "parse_command cmd =
     (if cmd = ''prepare'' then Cmd_Prepare
      else if cmd = ''run'' then Cmd_Run
      else if cmd = ''help'' then Cmd_Help
      else if cmd = ''cleanup'' then Cmd_Cleanup
      else if cmd = ''version'' then Cmd_Version
      else Cmd_Null)"

text \<open>An argument after its two dashes: the name, and the value after the first \<^verbatim>\<open>=\<close>.\<close>

definition split_argument :: "string \<Rightarrow> string \<times> string option" where
  "split_argument arg = (if CHR ''='' \<in> set arg
     then (takeWhile (\<lambda>c. c \<noteq> CHR ''='') arg, Some (tl (dropWhile (\<lambda>c. c \<noteq> CHR ''='') arg)))
     else (arg, None))"

text \<open>The loop over the arguments; the result is the return value, the command and the options.\<close>

fun parse_argv :: "string list \<Rightarrow> sb_cmd \<Rightarrow> option_list \<Rightarrow> bool \<times> sb_cmd \<times> option_list" where
  "parse_argv [] command opts = (False, command, opts)"
| "parse_argv (arg # argv) command opts =
     (if take 2 arg \<noteq> ''--'' then
        if command \<noteq> Cmd_Null then (True, command, opts)
        else if parse_command arg = Cmd_Null then (True, Cmd_Null, opts)
        else parse_argv argv (parse_command arg) opts
      else case split_argument (drop 2 arg) of (name, value) \<Rightarrow>
        if command = Cmd_Help then (True, command, opts)
        else if command = Cmd_Version then (False, command, opts)
        else case sb_set_option name value
            (case find_option opts name of None \<Rightarrow> Arg_String | Some opt \<Rightarrow> opt_type opt) opts of
          (True, opts) \<Rightarrow> (True, command, opts)
        | (False, opts) \<Rightarrow> parse_argv argv command opts)"

text \<open>
  The defaults are those of the general arguments and of the tests in the order of registration, up
  to the first test without arguments.
\<close>

definition parse_arguments :: "sb_arg list \<Rightarrow> sb_arg list option list \<Rightarrow> string list \<Rightarrow> option_list \<Rightarrow>
    bool \<times> sb_cmd \<times> option_list" where
  "parse_arguments general_args tests argv opts =
     (case sb_register_arg_set (general_args @ concat (map the (takeWhile (\<lambda>args. args \<noteq> None) tests))) opts of
       (True, opts) \<Rightarrow> (True, Cmd_Null, opts)
     | (False, opts) \<Rightarrow> parse_argv argv Cmd_Null opts)"

section \<open>Lemmas: names\<close>

text \<open>A C string holds no NUL, and nor does the name of an option.\<close>

definition c_string :: "string \<Rightarrow> bool" where
  "c_string str \<longleftrightarrow> CHR 0x00 \<notin> set str"

definition wf_options :: "option_list \<Rightarrow> bool" where
  "wf_options opts \<longleftrightarrow> (\<forall>opt \<in> set opts. c_string (opt_name opt))"

lemma of_char_eq [simp]: "(of_char c :: int) = of_char d \<longleftrightarrow> c = d"
  by (metis char_of_char)

lemma of_char_zero: "(of_char c :: int) = 0 \<longleftrightarrow> c = CHR 0x00"
  using of_char_eq [of c "CHR 0x00"] by simp

lemma cmp_dashes:
  "c_string cs \<Longrightarrow> c_string ds \<Longrightarrow> opt_name_cmp cs ds = 0 \<longleftrightarrow> convert_dashes cs = convert_dashes ds"
  by (induction cs ds rule: opt_name_cmp.induct) (auto simp: convert_dashes_def c_string_def of_char_zero)

lemma convert_dashes_c_string [simp]: "c_string (convert_dashes name) \<longleftrightarrow> c_string name"
  by (auto simp: c_string_def convert_dashes_def image_iff)

lemma convert_dashes_idem [simp]: "convert_dashes (convert_dashes name) = convert_dashes name"
  by (simp add: convert_dashes_def comp_def)

section \<open>Lemmas: the options as a map\<close>

text \<open>What the program can learn of an option by its name; and what \<open>sb_set_option\<close> stores.\<close>

definition lookup :: "option_list \<Rightarrow> string \<Rightarrow> (sb_arg_type \<times> string list) option" where
  "lookup opts name = map_option (\<lambda>opt. (opt_type opt, opt_values opt)) (find_option opts name)"

definition stored_values :: "sb_arg_type \<Rightarrow> string option \<Rightarrow> string list" where
  "stored_values t value =
     (if t = Arg_Flag then if value = None \<or> value = Some ''on'' then [''on''] else []
      else case value of
        None \<Rightarrow> []
      | Some v \<Rightarrow> if t = Arg_Null then [] else if t = Arg_List then strtok_comma v
                  else if v = [] then [] else [v])"

lemma find_option_Nil [simp]: "find_option [] name = None"
  by (simp add: find_option_def)

lemma find_option_Cons:
  "find_option (opt # opts) name = (if opt_name_cmp (opt_name opt) name = 0 then Some opt else find_option opts name)"
  by (simp add: find_option_def)

lemma wf_options_simps [simp]:
  "wf_options []" "wf_options (opt # opts) \<longleftrightarrow> c_string (opt_name opt) \<and> wf_options opts"
  "wf_options (opts @ opts') \<longleftrightarrow> wf_options opts \<and> wf_options opts'"
  by (auto simp: wf_options_def)

lemma find_at_option:
  assumes "\<And>opt. opt_name (f opt) = opt_name opt" and "c_string name" and "c_string name'" and "wf_options opts"
  shows "find_option (at_option name f opts) name' =
    (if convert_dashes name' = convert_dashes name then map_option f (find_option opts name')
     else find_option opts name')"
  using assms(4) by (induction opts) (auto simp: find_option_Cons assms cmp_dashes)

lemma wf_at_option:
  "(\<And>opt. opt_name (f opt) = opt_name opt) \<Longrightarrow> wf_options (at_option name f opts) = wf_options opts"
  by (induction opts) auto

lemma find_add_option:
  assumes "c_string name" and "c_string name'" and "wf_options opts"
  shows "find_option (add_option opts name) name' =
      (if convert_dashes name' = convert_dashes name \<and> find_option opts name' = None
       then Some (new_option\<lparr>opt_name := convert_dashes name\<rparr>) else find_option opts name')"
    and "wf_options (add_option opts name)"
proof -
  have same: "find_option opts name = find_option opts name'" if "convert_dashes name' = convert_dashes name"
    using assms that by (induction opts) (auto simp: find_option_Cons cmp_dashes)
  have "find_option (opts @ [opt]) name' =
      (if find_option opts name' = None then find_option [opt] name' else find_option opts name')" for opt
    by (induction opts) (auto simp: find_option_Cons)
  with same assms show "find_option (add_option opts name) name' =
      (if convert_dashes name' = convert_dashes name \<and> find_option opts name' = None
       then Some (new_option\<lparr>opt_name := convert_dashes name\<rparr>) else find_option opts name')"
    by (auto simp: add_option_def find_option_Cons cmp_dashes)
  show "wf_options (add_option opts name)" using assms by (simp add: add_option_def)
qed

lemma add_values:
  fixes opts :: option_list
  assumes "c_string name" and "c_string name'" and "wf_options opts"
  shows "find_option (fold (\<lambda>v. at_option name (add_value v)) vs opts) name' =
      (if convert_dashes name' = convert_dashes name
       then map_option (\<lambda>opt. opt\<lparr>opt_values := opt_values opt @ vs\<rparr>) (find_option opts name')
       else find_option opts name')"
    and "wf_options (fold (\<lambda>v. at_option name (add_value v)) vs opts)"
proof -
  have name: "opt_name (add_value v opt) = opt_name opt" for v opt by (simp add: add_value_def)
  have more: "(add_value v opt)\<lparr>opt_values := opt_values (add_value v opt) @ vs\<rparr> =
      opt\<lparr>opt_values := opt_values opt @ v # vs\<rparr>" for v opt vs by (simp add: add_value_def)
  have "find_option (fold (\<lambda>v. at_option name (add_value v)) vs opts) name' =
      (if convert_dashes name' = convert_dashes name
       then map_option (\<lambda>opt. opt\<lparr>opt_values := opt_values opt @ vs\<rparr>) (find_option opts name')
       else find_option opts name') \<and> wf_options (fold (\<lambda>v. at_option name (add_value v)) vs opts)"
    using assms(3)
  proof (induction vs arbitrary: opts)
    case Nil
    then show ?case by (cases "find_option opts name'") auto
  next
    case (Cons v vs)
    from Cons.IH [of "at_option name (add_value v) opts"] Cons.prems show ?case
      by (auto simp: find_at_option name assms wf_at_option option.map_comp comp_def more)
  qed
  then show "find_option (fold (\<lambda>v. at_option name (add_value v)) vs opts) name' =
      (if convert_dashes name' = convert_dashes name
       then map_option (\<lambda>opt. opt\<lparr>opt_values := opt_values opt @ vs\<rparr>) (find_option opts name')
       else find_option opts name')" and "wf_options (fold (\<lambda>v. at_option name (add_value v)) vs opts)"
    by blast+
qed

text \<open>Whatever the type, \<open>sb_set_option\<close> adds the stored values to an option that it has emptied.\<close>

lemma sb_set_option_stored:
  "snd (sb_set_option name value t opts) = fold (\<lambda>v. at_option name (add_value v)) (stored_values t value)
     (at_option name (\<lambda>opt. opt\<lparr>opt_values := [], opt_type := t\<rparr>) (add_option opts name))"
  by (cases t; cases "value") (auto simp: sb_set_option_def stored_values_def Let_def strtok_comma_def)

lemma sb_set_option_lookup:
  assumes "c_string name" and "c_string name'" and "wf_options opts"
  shows "lookup (snd (sb_set_option name value t opts)) name' =
      (if convert_dashes name' = convert_dashes name then Some (t, stored_values t value) else lookup opts name')"
    and "wf_options (snd (sb_set_option name value t opts))"
  using assms by (auto simp: lookup_def sb_set_option_stored add_values find_at_option find_add_option
      wf_at_option option.map_comp comp_def)

section \<open>Lemmas: values\<close>

lemma get_by_lookup:
  assumes "lookup opts name = Some (t, vs)"
  shows "\<exists>opt. find_option opts name = Some opt \<and> opt_values opt = vs"
  using assms by (auto simp: lookup_def)

lemma stored_values_read:
  assumes "c_string name" and "wf_options opts"
  obtains opt where "find_option (snd (sb_set_option name value t opts)) name = Some opt"
    "opt_values opt = stored_values t value"
  using get_by_lookup [of "snd (sb_set_option name value t opts)" name t "stored_values t value"]
    sb_set_option_lookup(1) [OF assms(1,1,2)] by auto

lemma size_digits_value: "size_digits ds = word_of_int (digits_value ds)"
proof (induction ds rule: rev_induct)
  case (snoc d ds)
  then show ?case by (simp add: size_digits_def digits_value_def)
qed (simp add: size_digits_def digits_value_def)

fun join_comma :: "string list \<Rightarrow> string" where
  "join_comma [] = []"
| "join_comma [v] = v"
| "join_comma (v # w # vs) = v @ CHR '','' # join_comma (w # vs)"

lemma strtok_join:
  "\<forall>v \<in> set vs. v \<noteq> [] \<and> CHR '','' \<notin> set v \<Longrightarrow> strtok_comma (join_comma vs) = vs"
  by (induction vs rule: join_comma.induct)
    (simp_all add: strtok_comma_def split_at_append split_at_none)

lemma modifier:
  assumes "i < 4"
  shows "\<not> c_isdigit (''KMGT'' ! i)" and "position (c_toupper (''KMGT'' ! i)) ''KMGT'' = Some i"
    and "position (c_toupper (''kmgt'' ! i)) ''KMGT'' = Some i" and "\<not> c_isdigit (''kmgt'' ! i)"
proof -
  from assms have "i = 0 \<or> i = 1 \<or> i = 2 \<or> i = 3" by auto
  then show "\<not> c_isdigit (''KMGT'' ! i)" "position (c_toupper (''KMGT'' ! i)) ''KMGT'' = Some i"
    "position (c_toupper (''kmgt'' ! i)) ''KMGT'' = Some i" "\<not> c_isdigit (''kmgt'' ! i)"
    by (elim disjE; simp only:; code_simp)+
qed

lemma size_with_modifier:
  assumes "\<not> c_isdigit c" and "position (c_toupper c) ''KMGT'' = Some i"
    and "opt_values opt = [decimal_nat k @ [c]]"
  shows "sb_opt_to_size opt = word_of_nat (k * 1024 ^ Suc i)"
proof -
  have "takeWhile c_isdigit (decimal_nat k @ [c]) = decimal_nat k"
    "dropWhile c_isdigit (decimal_nat k @ [c]) = [c]"
    using assms(1) decimal_nat_props(2) [of k] by simp_all
  with assms show ?thesis
    using decimal_nat_props(3) [of k]
    by (simp add: sb_opt_to_size_def Let_def size_digits_value decimal_nat_props(1))
qed

section \<open>Properties\<close>

text \<open>
  Property C25. The options are a map from names, dash and underscore being the same, to a type and
  values: \<open>sb_set_option\<close> changes the entry of its name, whether it existed or not, and no other.
\<close>

theorem options_are_a_map:
  assumes "c_string name" and "c_string name'" and "wf_options opts"
  shows "lookup (snd (sb_set_option name value t opts)) name' =
      (if convert_dashes name' = convert_dashes name then Some (t, stored_values t value) else lookup opts name') \<and>
    wf_options (snd (sb_set_option name value t opts))"
  using sb_set_option_lookup [OF assms] by blast

theorem options_are_a_map_witness:
  "lookup (snd (sb_set_option ''tx-rate'' (Some ''7'') Arg_Int [])) ''tx_rate'' = Some (Arg_Int, [''7''])"
  using options_are_a_map [of "''tx-rate''" "''tx_rate''" "[]" "Some ''7''" Arg_Int]
  by (simp add: c_string_def convert_dashes_def stored_values_def)

text \<open>
  Property C26. What is set on the command line is what the program reads: an \<open>int\<close> in decimal, a size
  with a modifier (modulo \<open>2 ^ 64\<close>), a text, a list between commas, and a flag.
\<close>

theorem options_read_back:
  assumes "c_string name" and "wf_options opts" and "- 2147483648 \<le> n" and "n < 2147483648"
    and "i < 4" and "v \<noteq> []" and "\<forall>w \<in> set vs. w \<noteq> [] \<and> CHR '','' \<notin> set w"
  shows "sb_get_value_int name (snd (sb_set_option name (Some (decimal n)) Arg_Int opts)) = Some n \<and>
    sb_get_value_size name (snd (sb_set_option name (Some (decimal_nat k @ [''KMGT'' ! i])) Arg_Size opts)) =
      word_of_nat (k * 1024 ^ Suc i) \<and>
    sb_get_value_size name (snd (sb_set_option name (Some (decimal_nat k @ [''kmgt'' ! i])) Arg_Size opts)) =
      word_of_nat (k * 1024 ^ Suc i) \<and>
    sb_get_value_string name (snd (sb_set_option name (Some v) Arg_String opts)) = Some v \<and>
    sb_get_value_list name (snd (sb_set_option name (Some (join_comma vs)) Arg_List opts)) = Some vs \<and>
    (sb_get_value_flag name (snd (sb_set_option name value Arg_Flag opts)) \<longleftrightarrow>
       value = None \<or> value = Some ''on'')"
proof (intro conjI)
  note read = stored_values_read [OF assms(1,2)]
  have ne: "decimal n \<noteq> []" using decimal_nat_props(3) by (simp add: decimal_def)
  obtain opt where "find_option (snd (sb_set_option name (Some (decimal n)) Arg_Int opts)) name = Some opt"
    "opt_values opt = stored_values Arg_Int (Some (decimal n))" by (rule read)
  with ne assms(3,4) show "sb_get_value_int name (snd (sb_set_option name (Some (decimal n)) Arg_Int opts)) = Some n"
    by (simp add: sb_get_value_int_def sb_opt_to_int_def stored_values_def strtol_decimal)
  have size: "sb_get_value_size name (snd (sb_set_option name (Some (decimal_nat k @ [c])) Arg_Size opts)) =
      word_of_nat (k * 1024 ^ Suc i)"
    if "\<not> c_isdigit c" "position (c_toupper c) ''KMGT'' = Some i" for c
  proof -
    obtain opt where "find_option (snd (sb_set_option name (Some (decimal_nat k @ [c])) Arg_Size opts)) name = Some opt"
      "opt_values opt = stored_values Arg_Size (Some (decimal_nat k @ [c]))" by (rule read)
    with size_with_modifier [OF that, of opt k] show ?thesis
      by (simp add: sb_get_value_size_def stored_values_def)
  qed
  show "sb_get_value_size name (snd (sb_set_option name (Some (decimal_nat k @ [''KMGT'' ! i])) Arg_Size opts)) =
      word_of_nat (k * 1024 ^ Suc i)" by (rule size) (rule modifier(1,2) [OF assms(5)])+
  show "sb_get_value_size name (snd (sb_set_option name (Some (decimal_nat k @ [''kmgt'' ! i])) Arg_Size opts)) =
      word_of_nat (k * 1024 ^ Suc i)" by (rule size) (rule modifier(3,4) [OF assms(5)])+
  obtain opt where "find_option (snd (sb_set_option name (Some v) Arg_String opts)) name = Some opt"
    "opt_values opt = stored_values Arg_String (Some v)" by (rule read)
  with assms(6) show "sb_get_value_string name (snd (sb_set_option name (Some v) Arg_String opts)) = Some v"
    by (simp add: sb_get_value_string_def sb_opt_to_string_def stored_values_def)
  obtain opt where "find_option (snd (sb_set_option name (Some (join_comma vs)) Arg_List opts)) name = Some opt"
    "opt_values opt = stored_values Arg_List (Some (join_comma vs))" by (rule read)
  with assms(7) show "sb_get_value_list name (snd (sb_set_option name (Some (join_comma vs)) Arg_List opts)) = Some vs"
    by (simp add: sb_get_value_list_def stored_values_def strtok_join)
  obtain opt where "find_option (snd (sb_set_option name value Arg_Flag opts)) name = Some opt"
    "opt_values opt = stored_values Arg_Flag value" by (rule read)
  then show "sb_get_value_flag name (snd (sb_set_option name value Arg_Flag opts)) \<longleftrightarrow>
       value = None \<or> value = Some ''on''"
    by (simp add: sb_get_value_flag_def sb_opt_to_flag_def stored_values_def)
qed

theorem options_read_back_witness:
  "sb_get_value_int ''max-time'' (snd (sb_set_option ''max-time'' (Some (decimal 60)) Arg_Int [])) = Some 60 \<and>
   sb_get_value_size ''max-time'' (snd (sb_set_option ''max-time'' (Some (decimal_nat 64 @ ''K'')) Arg_Size [])) = 65536"
  using options_read_back [of "''max-time''" "[]" 60 0 "''x''" "[]" 64] by (simp add: c_string_def)

end
