(* ===== verification/SbDb.thy ===== *)
theory SbDb
  imports SbOptions "HOL-Library.Sublist"
begin

text \<open>
  The database layer of sysbench, \<^verbatim>\<open>db_driver.c\<close> of
  \<^verbatim>\<open>tokudb/software/sysbench/sysbench-0.5-rate-limited/sysbench\<close>: statistics, queries, rows and the
  inserts of many rows in one statement. The driver and the server behind it are parameters: from a
  state \<open>'w\<close> of their own they answer each call as they like, and every statement sent is logged with its
  answer. A function returns \<open>None\<close> where the program accesses memory that is not its own. Running
  out of memory and the reports' text are not modelled; the counters are those that the reports print.
\<close>

section \<open>State\<close>

datatype db_query_type = Query_Read | Query_Write | Query_Commit | Query_Other

datatype db_error = Db_None | Db_Deadlock | Db_Failed

record db_thread_stat =
  read_ops :: "64 word"
  write_ops :: "64 word"
  other_ops :: "64 word"
  transactions :: "64 word"
  deadlocks :: "64 word"

text \<open>
  The statistics and one connection. \<open>rs_row\<close> and \<open>rs_prepared\<close> belong to its result set;
  \<open>live_rows\<close> are the addresses of the rows allocated, \<open>next_row\<close> is the next one that \<open>calloc\<close> returns.
\<close>

record 'w sb_db =
  world :: 'w
  sent :: "(int \<times> string \<times> db_error) list"
  thread_stats :: "db_thread_stat list"
  last_transactions :: "64 word"
  last_read_ops :: "64 word"
  last_write_ops :: "64 word"
  thread_id :: int
  db_errno :: db_error
  rs_prepared :: bool
  rs_row :: "nat option"
  live_rows :: "nat list"
  next_row :: nat
  bulk_cnt :: nat
  bulk_buffer :: string
  bulk_buflen :: nat
  bulk_ptr :: nat
  bulk_ptr_orig :: nat
  bulk_commit_cnt :: nat
  bulk_commit_max :: nat

definition no_stat :: db_thread_stat where
  "no_stat = \<lparr>read_ops = 0, write_ops = 0, other_ops = 0, transactions = 0, deadlocks = 0\<rparr>"

section \<open>Statistics\<close>

definition c_tolower :: "char \<Rightarrow> char" where
  "c_tolower c = (let n = of_char c :: int in if 65 \<le> n \<and> n \<le> 90 then char_of (n + 32) else c)"

text \<open>\<open>strncasecmp\<close> with the length of the second string, which is in lower case.\<close>

definition starts_nocase :: "string \<Rightarrow> string \<Rightarrow> bool" where
  "starts_nocase s w \<longleftrightarrow> map c_tolower (take (length w) s) = w"

definition db_get_query_type :: "string \<Rightarrow> db_query_type" where
  "db_get_query_type query =
     (let query = dropWhile c_isspace query in
      if starts_nocase query ''select'' then Query_Read
      else if starts_nocase query ''insert'' \<or> starts_nocase query ''update'' \<or> starts_nocase query ''delete''
      then Query_Write
      else if starts_nocase query ''commit'' \<or> starts_nocase query ''unlock tables'' then Query_Commit
      else Query_Other)"

definition count_query :: "db_query_type \<Rightarrow> db_thread_stat \<Rightarrow> db_thread_stat" where
  "count_query t st = (case t of
       Query_Read \<Rightarrow> st\<lparr>read_ops := read_ops st + 1\<rparr>
     | Query_Write \<Rightarrow> st\<lparr>write_ops := write_ops st + 1\<rparr>
     | Query_Commit \<Rightarrow> st\<lparr>other_ops := other_ops st + 1, transactions := transactions st + 1\<rparr>
     | Query_Other \<Rightarrow> st\<lparr>other_ops := other_ops st + 1\<rparr>)"

definition db_update_thread_stats :: "int \<Rightarrow> db_query_type \<Rightarrow> 'w sb_db \<Rightarrow> 'w sb_db option" where
  "db_update_thread_stats tid t s =
     (if tid < 0 then Some s
      else if tid \<ge> int (length (thread_stats s)) then None
      else Some (s\<lparr>thread_stats := (thread_stats s)[nat tid := count_query t (thread_stats s ! nat tid)]\<rparr>))"

text \<open>The counter of deadlocks, without a check of the thread's number.\<close>

definition count_deadlock :: "'w sb_db \<Rightarrow> 'w sb_db option" where
  "count_deadlock s =
     (let tid = thread_id s in
      if tid < 0 \<or> tid \<ge> int (length (thread_stats s)) then None
      else let st = thread_stats s ! nat tid in
        Some (s\<lparr>thread_stats := (thread_stats s)[nat tid := st\<lparr>deadlocks := deadlocks st + 1\<rparr>]\<rparr>))"

definition sum_stats :: "(db_thread_stat \<Rightarrow> 64 word) \<Rightarrow> 'w sb_db \<Rightarrow> 64 word" where
  "sum_stats f s = sum_list (map f (thread_stats s))"

definition db_get_tps :: "'w sb_db \<Rightarrow> 64 word" where
  "db_get_tps s = sum_stats transactions s"

definition db_reset_stats :: "'w sb_db \<Rightarrow> 'w sb_db" where
  "db_reset_stats s = s\<lparr>thread_stats := replicate (length (thread_stats s)) no_stat,
     last_transactions := 0, last_read_ops := 0, last_write_ops := 0\<rparr>"

text \<open>The numbers of the two kinds of reports; the second one starts the counts again.\<close>

text \<open>
  The sums and what a report writes are one step here. In the program the sums hold one mutex after the
  other and the reset none, so what a thread counts between its sum and the reset is lost.
\<close>

definition db_stats_intermediate :: "'w sb_db \<Rightarrow> (64 word \<times> 64 word \<times> 64 word) \<times> 'w sb_db" where
  "db_stats_intermediate s =
     ((sum_stats transactions s - last_transactions s, sum_stats read_ops s - last_read_ops s,
       sum_stats write_ops s - last_write_ops s),
      s\<lparr>last_transactions := sum_stats transactions s, last_read_ops := sum_stats read_ops s,
        last_write_ops := sum_stats write_ops s\<rparr>)"

definition db_stats_cumulative :: "'w sb_db \<Rightarrow> (64 word \<times> 64 word \<times> 64 word) \<times> 'w sb_db" where
  "db_stats_cumulative s =
     ((sum_stats transactions s, sum_stats read_ops s, sum_stats write_ops s), db_reset_stats s)"

section \<open>Queries and rows\<close>

text \<open>The end of a query: it is counted, or a deadlock is; True: there is a result set.\<close>

definition count_result :: "db_query_type \<Rightarrow> 'w sb_db \<Rightarrow> (bool \<times> 'w sb_db) option" where
  "count_result t s = (case db_errno s of
       Db_None \<Rightarrow> map_option (Pair True) (db_update_thread_stats (thread_id s) t s)
     | Db_Deadlock \<Rightarrow> map_option (Pair False) (count_deadlock s)
     | Db_Failed \<Rightarrow> Some (False, s))"

definition ask :: "(string \<Rightarrow> 'w \<Rightarrow> db_error \<times> 'w) \<Rightarrow> string \<Rightarrow> 'w sb_db \<Rightarrow> 'w sb_db" where
  "ask drv query s = (case drv query (world s) of (e, w) \<Rightarrow>
     s\<lparr>world := w, db_errno := e, sent := sent s @ [(thread_id s, query, e)]\<rparr>)"

definition db_query :: "(string \<Rightarrow> 'w \<Rightarrow> db_error \<times> 'w) \<Rightarrow> string \<Rightarrow> 'w sb_db \<Rightarrow> (bool \<times> 'w sb_db) option" where
  "db_query drv query s =
     count_result (db_get_query_type query) (ask drv query (s\<lparr>rs_row := None, rs_prepared := False\<rparr>))"

text \<open>A prepared statement is its query with the type found when it was prepared.\<close>

definition db_prepare :: "(string \<Rightarrow> 'w \<Rightarrow> bool \<times> 'w) \<Rightarrow> string \<Rightarrow> 'w sb_db \<Rightarrow> (string \<times> db_query_type) option \<times> 'w sb_db" where
  "db_prepare prepare query s = (case prepare query (world s) of (failed, w) \<Rightarrow>
     (if failed then None else Some (query, db_get_query_type query), s\<lparr>world := w\<rparr>))"

definition db_execute :: "(string \<Rightarrow> 'w \<Rightarrow> db_error \<times> 'w) \<Rightarrow> string \<times> db_query_type \<Rightarrow> 'w sb_db \<Rightarrow> (bool \<times> 'w sb_db) option" where
  "db_execute execute stmt s =
     count_result (snd stmt) (ask execute (fst stmt) (s\<lparr>rs_row := None, rs_prepared := True\<rparr>))"

definition db_free_row :: "nat \<Rightarrow> 'w sb_db \<Rightarrow> 'w sb_db option" where
  "db_free_row row s = (if row \<in> set (live_rows s) then Some (s\<lparr>live_rows := removeAll row (live_rows s)\<rparr>) else None)"

definition free_old_row :: "'w sb_db \<Rightarrow> 'w sb_db option" where
  "free_old_row s = (case rs_row s of None \<Rightarrow> Some s | Some row \<Rightarrow> db_free_row row s)"

text \<open>\<open>fetch_row\<close> of the driver is True at the end of the rows.\<close>

definition db_fetch_row :: "('w \<Rightarrow> bool \<times> 'w) \<Rightarrow> 'w sb_db \<Rightarrow> (nat option \<times> 'w sb_db) option" where
  "db_fetch_row fetch_row s =
     (if rs_prepared s then Some (None, s)
      else Option.bind (free_old_row s) (\<lambda>s.
        let row = next_row s;
            s = s\<lparr>rs_row := Some row, live_rows := row # live_rows s, next_row := next_row s + 1\<rparr>
        in case fetch_row (world s) of (failed, w) \<Rightarrow>
          let s = s\<lparr>world := w\<rparr> in
          if failed then map_option (Pair None) (db_free_row row s) else Some (Some row, s)))"

definition db_free_results :: "('w \<Rightarrow> bool \<times> 'w) \<Rightarrow> 'w sb_db \<Rightarrow> (bool \<times> 'w sb_db) option" where
  "db_free_results free_results s = (case free_results (world s) of (rc, w) \<Rightarrow>
     map_option (Pair rc) (free_old_row (s\<lparr>world := w\<rparr>)))"

section \<open>Inserts of many rows\<close>

definition BULK_PACKET_SIZE :: nat where
  "BULK_PACKET_SIZE = 512 * 1024"

definition ROWS_BEFORE_COMMIT :: nat where
  "ROWS_BEFORE_COMMIT = 1000"

text \<open>
  The driver's capabilities are \<open>None\<close> when it does not tell them, else whether it needs commits.
  True is the return value 1. The buffer is modelled by the string in it.
\<close>

definition db_bulk_insert_init :: "bool option \<Rightarrow> string \<Rightarrow> 'w sb_db \<Rightarrow> bool \<times> 'w sb_db" where
  "db_bulk_insert_init caps query s = (case caps of
       None \<Rightarrow> (True, s)
     | Some needs_commit \<Rightarrow>
         if length query + 1 > BULK_PACKET_SIZE then (True, s)
         else (False, s\<lparr>bulk_buflen := BULK_PACKET_SIZE,
                bulk_commit_max := (if needs_commit then ROWS_BEFORE_COMMIT else 0), bulk_commit_cnt := 0,
                bulk_buffer := query, bulk_ptr := length query, bulk_ptr_orig := length query, bulk_cnt := 0\<rparr>))"

definition bulk_restart :: "'w sb_db \<Rightarrow> 'w sb_db" where
  "bulk_restart s = s\<lparr>bulk_ptr := bulk_ptr_orig s, bulk_cnt := 0\<rparr>"

definition db_bulk_do_insert :: "(string \<Rightarrow> 'w \<Rightarrow> db_error \<times> 'w) \<Rightarrow> bool \<Rightarrow> 'w sb_db \<Rightarrow> (bool \<times> 'w sb_db) option" where
  "db_bulk_do_insert drv is_last s =
     (if bulk_cnt s = 0 then Some (False, s)
      else Option.bind (db_query drv (bulk_buffer s) s) (\<lambda>(ok, s).
        if \<not> ok then Some (True, s)
        else if bulk_commit_max s \<noteq> 0 then
          let s = s\<lparr>bulk_commit_cnt := bulk_commit_cnt s + bulk_cnt s\<rparr> in
          if is_last \<or> bulk_commit_cnt s \<ge> bulk_commit_max s then
            Option.bind (db_query drv ''COMMIT'' s) (\<lambda>(ok, s).
              if \<not> ok then Some (True, s) else Some (False, bulk_restart (s\<lparr>bulk_commit_cnt := 0\<rparr>)))
          else Some (False, bulk_restart s)
        else Some (False, bulk_restart s)))"

text \<open>\<open>strcpy\<close> at the current position, after a comma unless the row is the first one.\<close>

definition append_row :: "string \<Rightarrow> 'w sb_db \<Rightarrow> (bool \<times> 'w sb_db) option" where
  "append_row query s =
     (let text = (if bulk_cnt s > 0 then CHR '','' # query else query) in
      if bulk_ptr s + length text + 1 > bulk_buflen s then None
      else Some (False, s\<lparr>bulk_buffer := take (bulk_ptr s) (bulk_buffer s) @ text,
             bulk_ptr := bulk_ptr s + length text, bulk_cnt := bulk_cnt s + 1\<rparr>))"

definition db_bulk_insert_next :: "(string \<Rightarrow> 'w \<Rightarrow> db_error \<times> 'w) \<Rightarrow> string \<Rightarrow> 'w sb_db \<Rightarrow> (bool \<times> 'w sb_db) option" where
  "db_bulk_insert_next drv query s =
     (if bulk_ptr s + length query + 1 + (if bulk_cnt s > 0 then 1 else 0) > bulk_buflen s then
        if bulk_cnt s = 0 then Some (True, s)
        else Option.bind (db_bulk_do_insert drv False s) (\<lambda>(failed, s).
          if failed then Some (True, s) else append_row query s)
      else append_row query s)"

definition db_bulk_insert_done :: "(string \<Rightarrow> 'w \<Rightarrow> db_error \<times> 'w) \<Rightarrow> 'w sb_db \<Rightarrow> 'w sb_db option" where
  "db_bulk_insert_done drv s = map_option (\<lambda>(failed, s). s\<lparr>bulk_buffer := []\<rparr>) (db_bulk_do_insert drv True s)"

section \<open>Choice of the driver\<close>

text \<open>
  The driver that \<open>db_init\<close> takes, of those available: the one asked for by the call or by the option;
  the loop leaves the last one of the list in \<open>drv\<close> when none has the name.
\<close>

fun driver_loop :: "string \<Rightarrow> string list \<Rightarrow> string option \<Rightarrow> string option" where
  "driver_loop name [] drv = drv"
| "driver_loop name (d # ds) drv = (if d = name then Some d else driver_loop name ds (Some d))"

definition db_select_driver :: "string list \<Rightarrow> string option \<Rightarrow> string option \<Rightarrow> string option" where
  "db_select_driver drivers name opt =
     (if drivers = [] then None
      else case (name, opt) of
        (None, None) \<Rightarrow> if length drivers = 1 then Some (hd drivers) else None
      | (None, Some d) \<Rightarrow> driver_loop d drivers None
      | (Some d, _) \<Rightarrow> driver_loop d drivers None)"

section \<open>Lemmas: what was sent\<close>

text \<open>Every answer was an acceptance.\<close>

definition accepted :: "(int \<times> string \<times> db_error) list \<Rightarrow> bool" where
  "accepted l \<longleftrightarrow> list_all (\<lambda>(t, q, e). e = Db_None) l"

definition statements :: "(int \<times> string \<times> db_error) list \<Rightarrow> string list" where
  "statements l = map (\<lambda>(t, q, e). q) l"

lemma accepted_simps [simp]:
  "accepted []" "accepted ((t, q, e) # l) \<longleftrightarrow> e = Db_None \<and> accepted l"
  "accepted (l1 @ l2) \<longleftrightarrow> accepted l1 \<and> accepted l2"
  by (simp_all add: accepted_def)

lemma statements_simps [simp]:
  "statements [] = []" "statements ((t, q, e) # l) = q # statements l"
  "statements (l1 @ l2) = statements l1 @ statements l2"
  by (simp_all add: statements_def)

text \<open>The number of the thread lies in the array of the statistics.\<close>

definition thread_ok :: "'w sb_db \<Rightarrow> bool" where
  "thread_ok s \<longleftrightarrow> 0 \<le> thread_id s \<and> thread_id s < int (length (thread_stats s))"

text \<open>What a query does not touch.\<close>

definition same_bulk :: "'w sb_db \<Rightarrow> 'w sb_db \<Rightarrow> bool" where
  "same_bulk s t \<longleftrightarrow> thread_id t = thread_id s \<and> length (thread_stats t) = length (thread_stats s) \<and>
     bulk_cnt t = bulk_cnt s \<and> bulk_buffer t = bulk_buffer s \<and> bulk_buflen t = bulk_buflen s \<and>
     bulk_ptr t = bulk_ptr s \<and> bulk_ptr_orig t = bulk_ptr_orig s \<and> bulk_commit_cnt t = bulk_commit_cnt s \<and>
     bulk_commit_max t = bulk_commit_max s"

lemma db_query_ok:
  assumes "thread_ok s"
  obtains e t where "db_query drv q s = Some (e = Db_None, t)" "sent t = sent s @ [(thread_id s, q, e)]"
    "same_bulk s t" "thread_ok t" "\<exists>w. e = fst (drv q w)"
proof -
  obtain e w where e: "drv q (world s) = (e, w)" by (metis surj_pair)
  obtain t where "db_query drv q s = Some (e = Db_None, t) \<and> sent t = sent s @ [(thread_id s, q, e)] \<and>
      same_bulk s t \<and> thread_ok t \<and> (\<exists>w. e = fst (drv q w))"
    using assms exI [of "\<lambda>w'. e = fst (drv q w')" "world s"] e by (cases e) (auto simp: db_query_def ask_def e count_result_def db_update_thread_stats_def
      count_deadlock_def thread_ok_def same_bulk_def Let_def)
  with that show thesis by blast
qed

section \<open>Lemmas: inserts of many rows\<close>

text \<open>The statement for some rows, and the greedy division of the rows among statements.\<close>

definition insert_text :: "string \<Rightarrow> string list \<Rightarrow> string" where
  "insert_text q rows = q @ join_comma rows"

fun pack :: "string \<Rightarrow> string list \<Rightarrow> string list \<Rightarrow> string list list" where
  "pack q pending [] = (if pending = [] then [] else [pending])"
| "pack q pending (r # rows) =
     (if pending \<noteq> [] \<and> length (insert_text q (pending @ [r])) + 1 > BULK_PACKET_SIZE
      then pending # pack q [r] rows else pack q (pending @ [r]) rows)"

text \<open>
  The statements for the divided rows: an insert for each group, and a commit after the last one and
  whenever at least \<open>m\<close> rows have been inserted; none when \<open>m\<close> is 0.
\<close>

fun bulk_script :: "nat \<Rightarrow> nat \<Rightarrow> string \<Rightarrow> string list list \<Rightarrow> string list" where
  "bulk_script m k q [] = []"
| "bulk_script m k q (rows # groups) = insert_text q rows #
     (if m = 0 then bulk_script m k q groups
      else if groups = [] \<or> k + length rows \<ge> m then ''COMMIT'' # bulk_script m 0 q groups
      else bulk_script m (k + length rows) q groups)"

lemma join_comma_snoc: "join_comma (vs @ [v]) = (if vs = [] then v else join_comma vs @ CHR '','' # v)"
  by (induction vs rule: join_comma.induct) simp_all

lemma insert_text_snoc:
  "insert_text q (rows @ [r]) = (if rows = [] then q @ r else insert_text q rows @ CHR '','' # r)"
  by (simp add: insert_text_def join_comma_snoc)

lemma concat_pack: "concat (pack q pending rows) = pending @ rows"
  by (induction q pending rows rule: pack.induct) simp_all

lemma pack_Nil [simp]: "pack q pending rows = [] \<longleftrightarrow> pending = [] \<and> rows = []"
  by (induction q pending rows rule: pack.induct) simp_all

lemma pack_fits:
  assumes "pending \<noteq> [] \<Longrightarrow> length (insert_text q pending) + 1 \<le> BULK_PACKET_SIZE"
    and "\<forall>r \<in> set rows. length q + length r + 1 \<le> BULK_PACKET_SIZE"
    and "g \<in> set (pack q pending rows)"
  shows "g \<noteq> [] \<and> length (insert_text q g) + 1 \<le> BULK_PACKET_SIZE"
  using assms
proof (induction q pending rows rule: pack.induct)
  case (2 q pending r rows)
  have r: "length (insert_text q [r]) + 1 \<le> BULK_PACKET_SIZE" using 2(4) by (simp add: insert_text_def)
  show ?case
  proof (cases "pending \<noteq> [] \<and> length (insert_text q (pending @ [r])) + 1 > BULK_PACKET_SIZE")
    case True
    with 2(5) have "g = pending \<or> g \<in> set (pack q [r] rows)" by auto
    then show ?thesis using 2(1) [OF True] 2(3,4) r True by auto
  next
    case False
    then have "length (insert_text q (pending @ [r])) + 1 \<le> BULK_PACKET_SIZE"
      using r by (cases "pending = []") (auto simp: not_less)
    then show ?thesis using 2(2) [OF False] 2(4,5) False by auto
  qed
qed (auto split: if_splits)

text \<open>The state between two rows.\<close>

definition bulk_ok :: "string \<Rightarrow> string list \<Rightarrow> 'w sb_db \<Rightarrow> bool" where
  "bulk_ok q pending s \<longleftrightarrow> thread_ok s \<and> bulk_buflen s = BULK_PACKET_SIZE \<and> bulk_cnt s = length pending \<and>
     bulk_ptr_orig s = length q \<and> bulk_ptr s = length (insert_text q pending) \<and>
     take (bulk_ptr s) (bulk_buffer s) = insert_text q pending \<and>
     (pending \<noteq> [] \<longrightarrow> bulk_buffer s = insert_text q pending) \<and> length (insert_text q pending) + 1 \<le> BULK_PACKET_SIZE"

text \<open>
  What a part of the work has sent: accepted statements up to the first failure, all of them if and
  only if it did not fail.
\<close>

definition sends :: "string list \<Rightarrow> 'w sb_db \<Rightarrow> bool \<Rightarrow> 'w sb_db \<Rightarrow> bool" where
  "sends qs s failed t \<longleftrightarrow> (\<exists>l. sent t = sent s @ l \<and> accepted (butlast l) \<and> prefix (statements l) qs \<and>
     (failed \<longleftrightarrow> \<not> accepted l) \<and> (accepted l \<longrightarrow> statements l = qs))"

lemma sends_Nil: "sent t = sent s \<Longrightarrow> sends [] s False t"
  by (simp add: sends_def)

lemma sends_sent: "sent t' = sent t \<Longrightarrow> sends qs s failed t' = sends qs s failed t"
  by (simp add: sends_def)

lemma sends_failed: "sends qs s True t \<Longrightarrow> sends (qs @ qs') s True t"
  unfolding sends_def by (metis prefix_prefix)

lemma sends_append:
  assumes "sends qs s False t" and "sends qs' t failed u"
  shows "sends (qs @ qs') s failed u"
proof -
  obtain l1 where l1: "sent t = sent s @ l1" "accepted l1" "statements l1 = qs"
    using assms(1) unfolding sends_def by blast
  obtain l2 where l2: "sent u = sent t @ l2" "accepted (butlast l2)" "prefix (statements l2) qs'"
    "failed \<longleftrightarrow> \<not> accepted l2" "accepted l2 \<longrightarrow> statements l2 = qs'"
    using assms(2) unfolding sends_def by blast
  have "accepted (butlast l1)" using l1(2) by (auto simp: accepted_def list_all_iff dest: in_set_butlastD)
  with l1 l2 show ?thesis unfolding sends_def
    by (intro exI [of _ "l1 @ l2"]) (auto simp: butlast_append)
qed

lemma sends_one: "sent t = sent s @ [(i, q, e)] \<Longrightarrow> sends [q] s (e \<noteq> Db_None) t"
  by (auto simp: sends_def)

lemma bulk_restart_ok:
  assumes "bulk_ok q pending s" and "same_bulk s t" and "thread_ok t"
  shows "bulk_ok q [] (bulk_restart (t\<lparr>bulk_commit_cnt := k\<rparr>)) \<and> bulk_ok q [] (bulk_restart t)"
proof -
  have "take (length q) (bulk_buffer s) = q"
    using assms(1) by (cases "pending = []") (auto simp: bulk_ok_def insert_text_def)
  with assms show ?thesis by (auto simp: bulk_ok_def same_bulk_def bulk_restart_def thread_ok_def insert_text_def)
qed

lemma do_insert_ok:
  assumes "bulk_ok q pending s" and "pending \<noteq> []"
    and "qs = insert_text q pending # (if bulk_commit_max s \<noteq> 0 \<and>
      (is_last \<or> bulk_commit_cnt s + length pending \<ge> bulk_commit_max s) then [''COMMIT''] else [])"
  obtains failed t where "db_bulk_do_insert drv is_last s = Some (failed, t)" "sends qs s failed t"
    "\<not> failed \<longrightarrow> bulk_ok q [] t \<and> bulk_commit_max t = bulk_commit_max s \<and>
      bulk_commit_cnt t = (if bulk_commit_max s = 0 then bulk_commit_cnt s
        else if is_last \<or> bulk_commit_cnt s + length pending \<ge> bulk_commit_max s then 0
        else bulk_commit_cnt s + length pending)"
    "(\<forall>q w. fst (drv q w) = Db_None) \<longrightarrow> \<not> failed"
proof -
  have s: "thread_ok s" "bulk_cnt s = length pending" "bulk_buffer s = insert_text q pending"
    using assms(1,2) by (auto simp: bulk_ok_def)
  obtain e t where t: "db_query drv (bulk_buffer s) s = Some (e = Db_None, t)"
    "sent t = sent s @ [(thread_id s, bulk_buffer s, e)]" "same_bulk s t" "thread_ok t"
    "\<exists>w. e = fst (drv (bulk_buffer s) w)"
    by (rule db_query_ok [OF s(1)])
  have st: "sends [insert_text q pending] s (e \<noteq> Db_None) t" using sends_one [OF t(2)] s(3) by simp
  note ok = bulk_restart_ok [OF assms(1)]
  have same: "bulk_commit_max t = bulk_commit_max s" "bulk_commit_cnt t = bulk_commit_cnt s" "bulk_cnt t = length pending"
    using t(3) s(2) by (simp_all add: same_bulk_def)
  show thesis
  proof (cases "e = Db_None")
    case False
    then have "db_bulk_do_insert drv is_last s = Some (True, t)"
      using t(1) assms(2) s(2) by (simp add: db_bulk_do_insert_def)
    moreover obtain qs' where "qs = [insert_text q pending] @ qs'" using assms(3) by simp
    then have "sends qs s True t" using sends_failed [of "[insert_text q pending]" s t qs'] st False by simp
    ultimately show thesis by (rule that) (use t(5) False in auto)
  next
    case True
    let ?t = "t\<lparr>bulk_commit_cnt := bulk_commit_cnt s + length pending\<rparr>"
    show thesis
    proof (cases "bulk_commit_max s \<noteq> 0 \<and> (is_last \<or> bulk_commit_cnt s + length pending \<ge> bulk_commit_max s)")
      case commit: True
      have "thread_ok ?t" using t(4) by (simp add: thread_ok_def)
      then obtain e' u where u: "db_query drv ''COMMIT'' ?t = Some (e' = Db_None, u)"
        "sent u = sent ?t @ [(thread_id ?t, ''COMMIT'', e')]" "same_bulk ?t u" "thread_ok u"
        "\<exists>w. e' = fst (drv ''COMMIT'' w)"
        by (rule db_query_ok)
      let ?u = "if e' = Db_None then bulk_restart (u\<lparr>bulk_commit_cnt := 0\<rparr>) else u"
      have run: "db_bulk_do_insert drv is_last s = Some (e' \<noteq> Db_None, ?u)"
        using t(1) u(1) True commit assms(2) s(2) same by (auto simp: db_bulk_do_insert_def Let_def)
      have "sends [''COMMIT''] t (e' \<noteq> Db_None) u" using sends_one [of u t] u(2) by simp
      then have "sends qs s (e' \<noteq> Db_None) u"
        using sends_append [OF st [unfolded True, simplified]] commit assms(3) by simp
      then have "sends qs s (e' \<noteq> Db_None) ?u"
        by (subst sends_sent [of _ u]) (simp_all add: bulk_restart_def)
      moreover have "same_bulk s (u\<lparr>bulk_commit_cnt := bulk_commit_cnt s\<rparr>)"
        using t(3) u(3) by (simp add: same_bulk_def)
      then have "bulk_ok q [] (bulk_restart (u\<lparr>bulk_commit_cnt := 0\<rparr>))"
        using ok [of "u\<lparr>bulk_commit_cnt := bulk_commit_cnt s\<rparr>" 0] u(4) by (simp add: thread_ok_def)
      moreover have "bulk_commit_max u = bulk_commit_max s" using t(3) u(3) by (simp add: same_bulk_def)
      ultimately show thesis using commit u(5) by (intro that [OF run]) (auto simp: bulk_restart_def)
    next
      case no_commit: False
      let ?u = "if bulk_commit_max s = 0 then bulk_restart t else bulk_restart ?t"
      have run: "db_bulk_do_insert drv is_last s = Some (False, ?u)"
        using t(1) True no_commit assms(2) s(2) same by (auto simp: db_bulk_do_insert_def Let_def)
      have "sends qs s False ?u"
        using st True no_commit assms(3) by (auto simp: sends_def bulk_restart_def)
      with run ok [OF t(3,4)] no_commit same show thesis by (intro that [OF run]) (auto simp: bulk_restart_def)
    qed
  qed
qed

text \<open>A whole insert: the rows up to the first failure, then what is left.\<close>

fun bulk_rows :: "(string \<Rightarrow> 'w \<Rightarrow> db_error \<times> 'w) \<Rightarrow> string list \<Rightarrow> 'w sb_db \<Rightarrow> (bool \<times> 'w sb_db) option" where
  "bulk_rows drv [] s = map_option (Pair False) (db_bulk_insert_done drv s)"
| "bulk_rows drv (r # rows) s = Option.bind (db_bulk_insert_next drv r s) (\<lambda>(failed, s).
     if failed then Some (True, s) else bulk_rows drv rows s)"

definition bulk_insert :: "(string \<Rightarrow> 'w \<Rightarrow> db_error \<times> 'w) \<Rightarrow> bool option \<Rightarrow> string \<Rightarrow> string list \<Rightarrow> 'w sb_db \<Rightarrow>
    (bool \<times> 'w sb_db) option" where
  "bulk_insert drv caps q rows s = (case db_bulk_insert_init caps q s of (failed, s) \<Rightarrow>
     if failed then Some (True, s) else bulk_rows drv rows s)"

lemma append_row_ok:
  assumes "bulk_ok q pending s" and "length (insert_text q (pending @ [r])) + 1 \<le> BULK_PACKET_SIZE"
  obtains t where "append_row r s = Some (False, t)" "bulk_ok q (pending @ [r]) t" "sent t = sent s"
    "bulk_commit_max t = bulk_commit_max s" "bulk_commit_cnt t = bulk_commit_cnt s"
proof -
  let ?text = "if pending = [] then r else CHR '','' # r"
  let ?t = "s\<lparr>bulk_buffer := take (bulk_ptr s) (bulk_buffer s) @ ?text,
    bulk_ptr := bulk_ptr s + length ?text, bulk_cnt := bulk_cnt s + 1\<rparr>"
  have snoc: "insert_text q (pending @ [r]) = insert_text q pending @ ?text"
    by (cases "pending = []") (simp_all add: insert_text_def join_comma_snoc)
  have "append_row r s = Some (False, ?t)"
    using assms unfolding snoc
    by (cases "pending = []") (simp_all add: append_row_def bulk_ok_def Let_def)
  moreover have "bulk_ok q (pending @ [r]) ?t"
    using assms unfolding bulk_ok_def snoc by (auto simp: thread_ok_def)
  ultimately show thesis by (rule that) simp_all
qed

lemma bulk_rows_ok:
  assumes "bulk_ok q pending s" and "\<forall>r \<in> set rows. length q + length r + 1 \<le> BULK_PACKET_SIZE"
  shows "\<exists>failed failed' t. bulk_rows drv rows s = Some (failed, t) \<and> (failed \<longrightarrow> failed') \<and>
    sends (bulk_script (bulk_commit_max s) (bulk_commit_cnt s) q (pack q pending rows)) s failed' t"
  using assms
proof (induction rows arbitrary: s pending)
  case Nil
  show ?case
  proof (cases "pending = []")
    case True
    then have "db_bulk_do_insert drv True s = Some (False, s)" using Nil.prems(1) by (simp add: bulk_ok_def db_bulk_do_insert_def)
    with True show ?thesis by (auto simp: db_bulk_insert_done_def sends_def accepted_def)
  next
    case False
    obtain failed t where "db_bulk_do_insert drv True s = Some (failed, t)"
      "sends (insert_text q pending # (if bulk_commit_max s \<noteq> 0 then [''COMMIT''] else [])) s failed t"
      by (rule do_insert_ok [OF Nil.prems(1) False refl, where is_last = True]) simp
    with False have "bulk_rows drv [] s = Some (False, t\<lparr>bulk_buffer := []\<rparr>) \<and>
        sends (bulk_script (bulk_commit_max s) (bulk_commit_cnt s) q (pack q pending [])) s failed (t\<lparr>bulk_buffer := []\<rparr>)"
      by (cases "bulk_commit_max s = 0") (simp_all add: db_bulk_insert_done_def sends_def)
    then show ?thesis by blast
  qed
next
  case (Cons r rows)
  have r: "length (insert_text q [r]) + 1 \<le> BULK_PACKET_SIZE" using Cons.prems(2) by (simp add: insert_text_def)
  have rows: "\<forall>r \<in> set rows. length q + length r + 1 \<le> BULK_PACKET_SIZE" using Cons.prems(2) by simp
  have ok: "bulk_ptr s = length (insert_text q pending)" "bulk_cnt s = length pending" "bulk_buflen s = BULK_PACKET_SIZE"
    using Cons.prems(1) by (simp_all add: bulk_ok_def)
  have len: "length (insert_text q (pending @ [r])) = bulk_ptr s + length r + (if bulk_cnt s > 0 then 1 else 0)"
    unfolding insert_text_snoc ok by (cases "pending = []") (simp_all add: insert_text_def)
  show ?case
  proof (cases "pending \<noteq> [] \<and> length (insert_text q (pending @ [r])) + 1 > BULK_PACKET_SIZE")
    case True
    let ?m = "bulk_commit_max s" and ?k = "bulk_commit_cnt s"
    let ?qs = "insert_text q pending # (if ?m \<noteq> 0 \<and> (False \<or> ?k + length pending \<ge> ?m) then [''COMMIT''] else [])"
    obtain failed t where t: "db_bulk_do_insert drv False s = Some (failed, t)" "sends ?qs s failed t"
      "\<not> failed \<longrightarrow> bulk_ok q [] t \<and> bulk_commit_max t = ?m \<and> bulk_commit_cnt t = (if ?m = 0 then ?k
        else if False \<or> ?k + length pending \<ge> ?m then 0 else ?k + length pending)"
      by (rule do_insert_ok [OF Cons.prems(1) _ refl, of drv False]) (use True in simp)
    let ?k' = "if ?m = 0 then ?k else if ?k + length pending \<ge> ?m then 0 else ?k + length pending"
    have script: "bulk_script ?m ?k q (pack q pending (r # rows)) = ?qs @ bulk_script ?m ?k' q (pack q [r] rows)"
      using True by simp
    have cond: "bulk_ptr s + length r + 1 + (if bulk_cnt s > 0 then 1 else 0) > bulk_buflen s" "bulk_cnt s \<noteq> 0"
      using True len ok(2,3) by linarith (simp add: ok(2) True)
    have step: "db_bulk_insert_next drv r s = (if failed then Some (True, t) else append_row r t)"
      unfolding db_bulk_insert_next_def if_P [OF cond(1)] if_not_P [OF cond(2)] t(1) by simp
    show ?thesis
    proof (cases failed)
      case failed: True
      then have "bulk_rows drv (r # rows) s = Some (True, t)" by (simp add: step)
      moreover have "sends (?qs @ bulk_script ?m ?k' q (pack q [r] rows)) s True t"
        using t(2) failed by (intro sends_failed) simp
      ultimately show ?thesis unfolding script by (intro exI [of _ True] exI [of _ t]) simp
    next
      case False
      have t3: "bulk_ok q [] t" "bulk_commit_max t = ?m" "bulk_commit_cnt t = ?k'"
        using t(3) False by simp_all
      obtain u where u: "append_row r t = Some (False, u)" "bulk_ok q ([] @ [r]) u" "sent u = sent t"
        "bulk_commit_max u = ?m" "bulk_commit_cnt u = ?k'"
        by (rule append_row_ok [OF t3(1), of r]) (use r t3(2,3) in simp_all)
      have run: "bulk_rows drv (r # rows) s = bulk_rows drv rows u"
        using u(1) False by (simp add: step)
      have su: "sends ?qs s False u" using t(2) False u(3) by (simp add: sends_def)
      obtain f f' v where "bulk_rows drv rows u = Some (f, v)" "f \<longrightarrow> f'"
        "sends (bulk_script ?m ?k' q (pack q [r] rows)) u f' v"
        using Cons.IH [OF u(2) rows] u(4,5) by auto
      then show ?thesis unfolding run script using sends_append [OF su, of _ f' v]
        by (intro exI [of _ f] exI [of _ f'] exI [of _ v]) simp
    qed
  next
    case False
    have fits: "length (insert_text q (pending @ [r])) + 1 \<le> BULK_PACKET_SIZE"
      using False r by (cases "pending = []") auto
    obtain t where t: "append_row r s = Some (False, t)" "bulk_ok q (pending @ [r]) t" "sent t = sent s"
      "bulk_commit_max t = bulk_commit_max s" "bulk_commit_cnt t = bulk_commit_cnt s"
      by (rule append_row_ok [OF Cons.prems(1) fits])
    have run: "bulk_rows drv (r # rows) s = bulk_rows drv rows t"
      using fits len ok t(1) by (simp add: db_bulk_insert_next_def)
    have p: "pack q pending (r # rows) = pack q (pending @ [r]) rows" using False by auto
    from Cons.IH [OF t(2) rows] t(3-5) show ?thesis unfolding run p by (simp add: sends_def)
  qed
qed

section \<open>Lemmas: the counters\<close>

datatype db_event = Ask int string | Interval | Cumulative

text \<open>Queries of several threads, with the two kinds of reports between them; True marks a cumulative one.\<close>

fun db_run :: "(string \<Rightarrow> 'w \<Rightarrow> db_error \<times> 'w) \<Rightarrow> db_event list \<Rightarrow> 'w sb_db \<Rightarrow>
    ((bool \<times> 64 word \<times> 64 word \<times> 64 word) list \<times> 'w sb_db) option" where
  "db_run drv [] s = Some ([], s)"
| "db_run drv (Ask i q # es) s =
     Option.bind (db_query drv q (s\<lparr>thread_id := i\<rparr>)) (\<lambda>(ok, s). db_run drv es s)"
| "db_run drv (Interval # es) s = (case db_stats_intermediate s of (n, s) \<Rightarrow>
     map_option (\<lambda>(ns, s). ((False, n) # ns, s)) (db_run drv es s))"
| "db_run drv (Cumulative # es) s = (case db_stats_cumulative s of (n, s) \<Rightarrow>
     map_option (\<lambda>(ns, s). ((True, n) # ns, s)) (db_run drv es s))"

text \<open>The accepted statements of a type.\<close>

definition done_of :: "db_query_type \<Rightarrow> (int \<times> string \<times> db_error) list \<Rightarrow> 64 word" where
  "done_of t l = sum_list (map (\<lambda>(i, q, e). if e = Db_None \<and> db_get_query_type q = t then 1 else 0) l)"

lemma done_of_simps [simp]:
  "done_of t [] = 0" "done_of t (l1 @ l2) = done_of t l1 + done_of t l2"
  "done_of t [(i, q, e)] = (if e = Db_None \<and> db_get_query_type q = t then 1 else 0)"
  by (simp_all add: done_of_def)

text \<open>The sum of a component of the reports of one kind.\<close>

definition printed :: "bool \<Rightarrow> (64 word \<times> 64 word \<times> 64 word \<Rightarrow> 64 word) \<Rightarrow>
    (bool \<times> 64 word \<times> 64 word \<times> 64 word) list \<Rightarrow> 64 word" where
  "printed b k ns = sum_list (map (\<lambda>(c, n). if c = b then k n else 0) ns)"

lemma printed_simps [simp]:
  "printed b k [] = 0" "printed b k ((c, n) # ns) = (if c = b then k n else 0) + printed b k ns"
  by (simp_all add: printed_def)

text \<open>What an answered query changes.\<close>

lemma db_query_cases:
  assumes "db_query drv q s = Some (ok, u)" and "thread_ok s"
  obtains e i where "sent u = sent s @ [(thread_id s, q, e)]" "i < length (thread_stats s)"
    "thread_stats u = (case e of
         Db_None \<Rightarrow> (thread_stats s)[i := count_query (db_get_query_type q) (thread_stats s ! i)]
       | Db_Deadlock \<Rightarrow> (thread_stats s)[i := (thread_stats s ! i)\<lparr>deadlocks := deadlocks (thread_stats s ! i) + 1\<rparr>]
       | Db_Failed \<Rightarrow> thread_stats s)"
    "last_transactions u = last_transactions s" "last_read_ops u = last_read_ops s" "last_write_ops u = last_write_ops s"
proof -
  obtain e w where e: "drv q (world s) = (e, w)" by (metis surj_pair)
  show thesis
    using assms by (intro that [of e "nat (thread_id s)"]) (cases e; auto simp: db_query_def ask_def e count_result_def
      db_update_thread_stats_def count_deadlock_def thread_ok_def Let_def)+
qed

text \<open>A counter of the reports: where it is kept, what counts, where it is printed and remembered.\<close>

locale report_counter =
  fixes f :: "db_thread_stat \<Rightarrow> 64 word" and t :: db_query_type
    and k :: "64 word \<times> 64 word \<times> 64 word \<Rightarrow> 64 word" and prev :: "'w sb_db \<Rightarrow> 64 word"
  assumes counts: "f (count_query u st) = f st + (if u = t then 1 else 0)"
    and not_deadlocks: "f (st\<lparr>deadlocks := d\<rparr>) = f st"
    and reset: "f no_stat = 0" "prev (db_reset_stats s) = 0"
    and intermediate: "k (fst (db_stats_intermediate s)) = sum_stats f s - prev s"
      "prev (snd (db_stats_intermediate s)) = sum_stats f s"
    and cumulative: "k (fst (db_stats_cumulative s)) = sum_stats f s"
    and prev_frame: "last_transactions v = last_transactions s \<Longrightarrow> last_read_ops v = last_read_ops s \<Longrightarrow>
      last_write_ops v = last_write_ops s \<Longrightarrow> prev v = prev s"
begin

lemma sum_update:
  "i < length sts \<Longrightarrow> sum_list (map f (sts[i := st])) = sum_list (map f sts) + (f st - f (sts ! i))"
proof (induction sts arbitrary: i)
  case (Cons a sts)
  then show ?case by (cases i) simp_all
qed simp

lemma query_counts:
  assumes "db_query drv q s = Some (ok, u)" and "thread_ok s"
  shows "\<exists>e. sent u = sent s @ [(thread_id s, q, e)] \<and> length (thread_stats u) = length (thread_stats s) \<and>
    sum_stats f u = sum_stats f s + done_of t [(thread_id s, q, e)] \<and> prev u = prev s"
proof -
  obtain e i where u: "sent u = sent s @ [(thread_id s, q, e)]" "i < length (thread_stats s)"
    "thread_stats u = (case e of
         Db_None \<Rightarrow> (thread_stats s)[i := count_query (db_get_query_type q) (thread_stats s ! i)]
       | Db_Deadlock \<Rightarrow> (thread_stats s)[i := (thread_stats s ! i)\<lparr>deadlocks := deadlocks (thread_stats s ! i) + 1\<rparr>]
       | Db_Failed \<Rightarrow> thread_stats s)"
    "last_transactions u = last_transactions s" "last_read_ops u = last_read_ops s" "last_write_ops u = last_write_ops s"
    by (rule db_query_cases [OF assms])
  have "sum_stats f u = sum_stats f s + done_of t [(thread_id s, q, e)]"
    using u(2) unfolding sum_stats_def u(3) by (cases e) (simp_all add: sum_update counts not_deadlocks)
  moreover have "length (thread_stats u) = length (thread_stats s)" unfolding u(3) by (cases e) simp_all
  ultimately show ?thesis using u(1) prev_frame [OF u(4-6)] by blast
qed

lemma run_counts:
  assumes "db_run drv es s = Some (ns, u)" and "\<forall>i q. Ask i q \<in> set es \<longrightarrow> 0 \<le> i \<and> i < int (length (thread_stats s))"
  shows "\<exists>l. sent u = sent s @ l \<and> printed True k ns + sum_stats f u = sum_stats f s + done_of t l \<and>
    (Cumulative \<notin> set es \<longrightarrow>
      printed False k ns + (sum_stats f u - prev u) = (sum_stats f s - prev s) + done_of t l)"
  using assms
proof (induction es arbitrary: s ns)
  case (Cons e es)
  show ?case
  proof (cases e)
    case (Ask i q)
    then obtain ok v where v: "db_query drv q (s\<lparr>thread_id := i\<rparr>) = Some (ok, v)" "db_run drv es v = Some (ns, u)"
      using Cons.prems(1) by (auto split: bind_splits)
    have "thread_ok (s\<lparr>thread_id := i\<rparr>)" using Cons.prems(2) Ask by (simp add: thread_ok_def)
    then obtain err where q: "sent v = sent s @ [(i, q, err)]" "sum_stats f v = sum_stats f s + done_of t [(i, q, err)]"
      "prev v = prev s" "length (thread_stats v) = length (thread_stats s)"
      using query_counts [OF v(1)] prev_frame [of "s\<lparr>thread_id := i\<rparr>" s] by (auto simp: sum_stats_def)
    obtain l where "sent u = sent v @ l" "printed True k ns + sum_stats f u = sum_stats f v + done_of t l"
      "Cumulative \<notin> set es \<longrightarrow> printed False k ns + (sum_stats f u - prev u) = (sum_stats f v - prev v) + done_of t l"
      using Cons.IH [OF v(2)] Cons.prems(2) q(4) by auto
    with q Ask show ?thesis by (intro exI [of _ "(i, q, err) # l"]) (simp add: done_of_def algebra_simps)
  next
    case Interval
    obtain n v where v: "db_stats_intermediate s = (n, v)" by (metis surj_pair)
    then obtain ns' where ns: "ns = (False, n) # ns'" "db_run drv es v = Some (ns', u)"
      using Cons.prems(1) Interval by auto
    have "sent v = sent s" "sum_stats f v = sum_stats f s" "length (thread_stats v) = length (thread_stats s)"
      using v by (auto simp: db_stats_intermediate_def sum_stats_def)
    with Cons.IH [OF ns(2)] Cons.prems(2) intermediate [of s] v ns(1) Interval show ?thesis by (auto simp: algebra_simps)
  next
    case Cumulative
    obtain n v where v: "db_stats_cumulative s = (n, v)" by (metis surj_pair)
    then obtain ns' where ns: "ns = (True, n) # ns'" "db_run drv es v = Some (ns', u)"
      using Cons.prems(1) Cumulative by auto
    have "sum_list (replicate m (0 :: 64 word)) = 0" for m by (induction m) simp_all
    then have "sent v = sent s" "sum_stats f v = 0" "length (thread_stats v) = length (thread_stats s)"
      using v reset(1) by (auto simp: db_stats_cumulative_def db_reset_stats_def sum_stats_def)
    with Cons.IH [OF ns(2)] Cons.prems(2) cumulative [of s] v ns(1) Cumulative show ?thesis by (auto simp: algebra_simps)
  qed
qed simp

end

lemmas stats_defs = count_query_def no_stat_def db_reset_stats_def db_stats_intermediate_def db_stats_cumulative_def

interpretation trx: report_counter transactions Query_Commit fst last_transactions
  by unfold_locales (auto simp: stats_defs split: db_query_type.split)

interpretation reads: report_counter read_ops Query_Read "fst \<circ> snd" last_read_ops
  by unfold_locales (auto simp: stats_defs split: db_query_type.split)

interpretation writes: report_counter write_ops Query_Write "snd \<circ> snd" last_write_ops
  by unfold_locales (auto simp: stats_defs split: db_query_type.split)

lemma db_run_total:
  assumes "\<forall>i q. Ask i q \<in> set es \<longrightarrow> 0 \<le> i \<and> i < int (length (thread_stats s))"
  shows "\<exists>ns u. db_run drv es s = Some (ns, u)"
  using assms
proof (induction es arbitrary: s)
  case (Cons e es)
  show ?case
  proof (cases e)
    case (Ask i q)
    have "thread_ok (s\<lparr>thread_id := i\<rparr>)" using Cons.prems Ask by (simp add: thread_ok_def)
    then obtain err v where "db_query drv q (s\<lparr>thread_id := i\<rparr>) = Some (err = Db_None, v)" "same_bulk (s\<lparr>thread_id := i\<rparr>) v"
      by (rule db_query_ok)
    with Cons.IH [of v] Cons.prems Ask show ?thesis by (auto simp: same_bulk_def)
  next
    case Interval
    with Cons.IH [of "snd (db_stats_intermediate s)"] Cons.prems show ?thesis
      by (auto simp: db_stats_intermediate_def)
  next
    case Cumulative
    with Cons.IH [of "db_reset_stats s"] Cons.prems show ?thesis
      by (auto simp: db_stats_cumulative_def db_reset_stats_def)
  qed
qed simp

lemma no_cumulative_printed:
  assumes "Cumulative \<notin> set es" and "db_run drv es s = Some (ns, u)"
  shows "printed True k ns = 0"
  using assms
proof (induction es arbitrary: s ns)
  case (Cons e es)
  then show ?case by (cases e) (auto split: bind_splits prod.splits)
qed simp

section \<open>Properties\<close>

text \<open>
  Property C32. Inserting many rows sends, whatever the server answers, a prefix of the inserts of the
  rows divided greedily among statements that fit the buffer, each row once and in order, with the
  commits between them; nothing is sent after the first failure, and everything when there is none. No
  row is copied past the buffer when each fits it alone.
\<close>

theorem bulk_insert_sends_rows:
  assumes "thread_ok s" and "length q + 1 \<le> BULK_PACKET_SIZE"
    and "\<forall>r \<in> set rows. length q + length r + 1 \<le> BULK_PACKET_SIZE"
    and "groups = pack q [] rows" and "m = (if needs_commit then ROWS_BEFORE_COMMIT else 0)"
  shows "concat groups = rows \<and> (\<forall>g \<in> set groups. g \<noteq> [] \<and> length (insert_text q g) + 1 \<le> BULK_PACKET_SIZE) \<and>
    (\<exists>failed t l. bulk_insert drv (Some needs_commit) q rows s = Some (failed, t) \<and> sent t = sent s @ l \<and>
      accepted (butlast l) \<and> prefix (statements l) (bulk_script m 0 q groups) \<and>
      (accepted l \<longrightarrow> \<not> failed \<and> statements l = bulk_script m 0 q groups))"
proof -
  obtain s0 where init: "db_bulk_insert_init (Some needs_commit) q s = (False, s0)" "bulk_ok q [] s0" "sent s0 = sent s"
    "bulk_commit_max s0 = m" "bulk_commit_cnt s0 = 0"
    using assms(1,2,5) by (simp add: db_bulk_insert_init_def bulk_ok_def insert_text_def thread_ok_def)
  obtain failed failed' t where t: "bulk_rows drv rows s0 = Some (failed, t)" "failed \<longrightarrow> failed'"
    "sends (bulk_script m 0 q groups) s0 failed' t"
    using bulk_rows_ok [OF init(2) assms(3), of drv] init(4,5) assms(4) by auto
  have "bulk_insert drv (Some needs_commit) q rows s = Some (failed, t)"
    using init(1) t(1) by (simp add: bulk_insert_def)
  moreover obtain l where "sent t = sent s @ l" "accepted (butlast l)" "prefix (statements l) (bulk_script m 0 q groups)"
    "failed' \<longleftrightarrow> \<not> accepted l" "accepted l \<longrightarrow> statements l = bulk_script m 0 q groups"
    using t(3) init(3) unfolding sends_def by auto
  moreover have "concat groups = rows" by (simp add: assms(4) concat_pack)
  moreover have "g \<noteq> [] \<and> length (insert_text q g) + 1 \<le> BULK_PACKET_SIZE" if "g \<in> set groups" for g
    using pack_fits [OF _ assms(3) that [unfolded assms(4)]] by simp
  ultimately show ?thesis using t(2) by blast
qed

definition example_sb_db :: "unit sb_db" where
  "example_sb_db = \<lparr>world = (), sent = [], thread_stats = [no_stat], last_transactions = 0, last_read_ops = 0,
     last_write_ops = 0, thread_id = 0, db_errno = Db_None, rs_prepared = False, rs_row = None,
     live_rows = [], next_row = 0, bulk_cnt = 0, bulk_buffer = [], bulk_buflen = 0, bulk_ptr = 0,
     bulk_ptr_orig = 0, bulk_commit_cnt = 0, bulk_commit_max = 0\<rparr>"

lemma thread_ok_example: "thread_ok example_sb_db"
  by (simp add: thread_ok_def example_sb_db_def)

theorem bulk_insert_sends_rows_witness:
  "\<exists>t l. bulk_insert (\<lambda>q w. (Db_None, w)) (Some True) ''INSERT '' [''(1)'', ''(2)''] example_sb_db = Some (False, t) \<and>
    statements l = [''INSERT (1),(2)'', ''COMMIT''] \<and> sent t = l"
proof -
  have groups: "pack ''INSERT '' [] [''(1)'', ''(2)''] = [[''(1)'', ''(2)'']]"
    by (simp add: insert_text_def BULK_PACKET_SIZE_def)
  have "case bulk_insert (\<lambda>q w. (Db_None, w)) (Some True) ''INSERT '' [''(1)'', ''(2)''] example_sb_db of
      Some (f, t) \<Rightarrow> \<not> f \<and> accepted (sent t) | None \<Rightarrow> False"
    by (simp add: bulk_insert_def db_bulk_insert_init_def BULK_PACKET_SIZE_def ROWS_BEFORE_COMMIT_def
        db_bulk_insert_next_def append_row_def db_bulk_insert_done_def db_bulk_do_insert_def db_query_def
        ask_def count_result_def db_update_thread_stats_def bulk_restart_def example_sb_db_def Let_def)
  then have run: "\<exists>t. bulk_insert (\<lambda>q w. (Db_None, w)) (Some True) ''INSERT '' [''(1)'', ''(2)''] example_sb_db = Some (False, t) \<and>
      accepted (sent t)"
    by (auto split: option.splits)
  from bulk_insert_sends_rows [OF thread_ok_example, of "''INSERT ''" "[''(1)'', ''(2)'']" _ ROWS_BEFORE_COMMIT True,
      OF _ _ groups [symmetric], of "\<lambda>q w. (Db_None, w)"] run
  show ?thesis by (auto simp: BULK_PACKET_SIZE_def ROWS_BEFORE_COMMIT_def insert_text_def example_sb_db_def)
qed

text \<open>
  Property C33. A row that does not fit the buffer is reported when it is the first one; after other
  rows, which are sent first, it is copied past the end of the buffer.
\<close>

theorem bulk_long_row_overflows:
  assumes "bulk_ok q pending s" and "\<forall>q w. fst (drv q w) = Db_None"
  shows "(db_bulk_insert_next drv r s = None \<longleftrightarrow> pending \<noteq> [] \<and> length q + length r + 1 > BULK_PACKET_SIZE) \<and>
    (pending = [] \<and> length q + length r + 1 > BULK_PACKET_SIZE \<longrightarrow> db_bulk_insert_next drv r s = Some (True, s))"
proof (cases "length (insert_text q (pending @ [r])) + 1 > BULK_PACKET_SIZE")
  case True
  have len: "length (insert_text q (pending @ [r])) = bulk_ptr s + length r + (if bulk_cnt s > 0 then 1 else 0)"
    using assms(1) unfolding insert_text_snoc bulk_ok_def by (cases "pending = []") (simp_all add: insert_text_def)
  have ok: "bulk_cnt s = length pending" "bulk_buflen s = BULK_PACKET_SIZE" using assms(1) by (simp_all add: bulk_ok_def)
  have full: "bulk_ptr s + length r + 1 + (if bulk_cnt s > 0 then 1 else 0) > bulk_buflen s"
    using True len ok(2) by linarith
  show ?thesis
  proof (cases "pending = []")
    case True
    with ok(1) full show ?thesis by (simp add: db_bulk_insert_next_def)
  next
    case False
    obtain t where t: "db_bulk_do_insert drv False s = Some (False, t)" "bulk_ok q [] t"
      using do_insert_ok [OF assms(1) False refl, of drv False] assms(2) by metis
    have "db_bulk_insert_next drv r s = append_row r t"
      unfolding db_bulk_insert_next_def if_P [OF full] t(1) using False ok(1) by simp
    moreover have "append_row r t = None \<longleftrightarrow> length q + length r + 1 > BULK_PACKET_SIZE"
      using t(2) by (auto simp: append_row_def bulk_ok_def insert_text_def)
    ultimately show ?thesis using False by simp
  qed
next
  case False
  then obtain t where "append_row r s = Some (False, t)"
    by (metis append_row_ok [OF assms(1)] not_less)
  moreover have "length (insert_text q (pending @ [r])) = bulk_ptr s + length r + (if bulk_cnt s > 0 then 1 else 0)"
    using assms(1) unfolding insert_text_snoc bulk_ok_def by (cases "pending = []") (simp_all add: insert_text_def)
  moreover have "length q + length r \<le> length (insert_text q (pending @ [r]))"
    by (cases "pending = []") (simp_all add: insert_text_def join_comma_snoc)
  ultimately show ?thesis using False assms(1) by (simp add: db_bulk_insert_next_def bulk_ok_def)
qed

definition one_row :: "unit sb_db" where
  "one_row = snd (the (append_row ''(1)'' (snd (db_bulk_insert_init (Some False) ''INSERT '' example_sb_db))))"

theorem bulk_long_row_overflows_witness:
  "db_bulk_insert_next (\<lambda>q w. (Db_None, w)) (replicate BULK_PACKET_SIZE CHR ''x'') one_row = None"
proof -
  have "bulk_ok ''INSERT '' [''(1)''] one_row"
    by (simp add: bulk_ok_def one_row_def append_row_def db_bulk_insert_init_def BULK_PACKET_SIZE_def
        insert_text_def example_sb_db_def thread_ok_def)
  from bulk_long_row_overflows [OF this, of "\<lambda>q w. (Db_None, w)" "replicate BULK_PACKET_SIZE CHR ''x''"]
  show ?thesis by simp
qed

text \<open>
  Property C34. Whatever threads ask and whatever reports are printed between, the cumulative
  reports and the counters together are the accepted commits, reads and writes; and so are,
  between two cumulative reports, the reports of the intervals and what is counted since the last one.
\<close>

theorem db_reports_account:
  assumes "\<forall>i q. Ask i q \<in> set es \<longrightarrow> 0 \<le> i \<and> i < int (length (thread_stats s))"
  shows "\<exists>ns u l. db_run drv es s = Some (ns, u) \<and> sent u = sent s @ l \<and>
    printed True fst ns + db_get_tps u = db_get_tps s + done_of Query_Commit l \<and>
    printed True (fst \<circ> snd) ns + sum_stats read_ops u = sum_stats read_ops s + done_of Query_Read l \<and>
    printed True (snd \<circ> snd) ns + sum_stats write_ops u = sum_stats write_ops s + done_of Query_Write l \<and>
    (Cumulative \<notin> set es \<longrightarrow>
      printed False fst ns + (db_get_tps u - last_transactions u) =
        db_get_tps s - last_transactions s + done_of Query_Commit l \<and>
      printed False (fst \<circ> snd) ns + (sum_stats read_ops u - last_read_ops u) =
        sum_stats read_ops s - last_read_ops s + done_of Query_Read l \<and>
      printed False (snd \<circ> snd) ns + (sum_stats write_ops u - last_write_ops u) =
        sum_stats write_ops s - last_write_ops s + done_of Query_Write l)"
proof -
  obtain ns u where run: "db_run drv es s = Some (ns, u)" using db_run_total [OF assms] by blast
  from trx.run_counts [OF run assms] reads.run_counts [OF run assms] writes.run_counts [OF run assms] run
  show ?thesis unfolding db_get_tps_def by auto
qed

theorem db_reports_account_witness:
  "\<exists>ns u. db_run (\<lambda>q w. (Db_None, w)) [Ask 0 '' select 1'', Interval, Ask 0 ''COMMIT'', Interval] example_sb_db = Some (ns, u) \<and>
    printed False fst ns = 1 \<and> db_get_tps u = 1"
proof -
  have "case db_run (\<lambda>q w. (Db_None, w)) [Ask 0 '' select 1'', Interval, Ask 0 ''COMMIT'', Interval]
      example_sb_db of Some (ns, u) \<Rightarrow> last_transactions u = 1 \<and> done_of Query_Commit (sent u) = 1 \<and> db_get_tps u = 1
      | None \<Rightarrow> False"
    by code_simp
  then have run: "\<exists>ns u. db_run (\<lambda>q w. (Db_None, w)) [Ask 0 '' select 1'', Interval, Ask 0 ''COMMIT'', Interval]
      example_sb_db = Some (ns, u) \<and> last_transactions u = 1 \<and> done_of Query_Commit (sent u) = 1 \<and> db_get_tps u = 1"
    by (auto split: option.splits)
  have "\<forall>i q. Ask i q \<in> set [Ask 0 '' select 1'', Interval, Ask 0 ''COMMIT'', Interval] \<longrightarrow>
      0 \<le> i \<and> i < int (length (thread_stats example_sb_db))" by (simp add: example_sb_db_def)
  from db_reports_account [OF this, of "\<lambda>q w. (Db_None, w)"] run show ?thesis
    by (auto simp: example_sb_db_def db_get_tps_def sum_stats_def no_stat_def)
qed

text \<open>
  Property C35. Reading the rows of a result to their end frees the last row and keeps its address:
  freeing the result, or asking for one more row, frees it once more.
\<close>

theorem fetch_to_end_frees_twice:
  assumes "db_fetch_row fetch_row s = Some (None, t)" and "\<not> rs_prepared s"
  shows "db_free_results free_results t = None \<and> db_fetch_row fetch_row' t = None"
  using assms by (auto simp: db_fetch_row_def free_old_row_def db_free_row_def db_free_results_def Let_def
      split: if_splits prod.splits option.splits bind_splits)

theorem fetch_to_end_frees_twice_witness:
  "\<exists>t. db_fetch_row (\<lambda>w. (True, w)) example_sb_db = Some (None, t) \<and> db_free_results (\<lambda>w. (False, w)) t = None"
proof -
  have "case db_fetch_row (\<lambda>w. (True, w)) example_sb_db of Some (None, t) \<Rightarrow> True | _ \<Rightarrow> False" by code_simp
  then obtain t where t: "db_fetch_row (\<lambda>w. (True, w)) example_sb_db = Some (None, t)"
    by (auto split: option.splits prod.splits)
  with fetch_to_end_frees_twice [OF t] show ?thesis by (simp add: example_sb_db_def)
qed

text \<open>A name that no driver has selects the last one of the list.\<close>

lemma unknown_driver_accepted:
  assumes "name \<notin> set drivers" and "drivers \<noteq> []"
  shows "db_select_driver drivers (Some name) opt = Some (last drivers)"
proof -
  have "driver_loop name ds drv = (if ds = [] then drv else Some (last ds))" if "name \<notin> set ds" for ds drv
    using that by (induction ds arbitrary: drv) auto
  with assms show ?thesis by (simp add: db_select_driver_def)
qed

end
