(* ===== verification/SbMysql.thy ===== *)
theory SbMysql
  imports SbDb SbList
begin

text \<open>
  The MySQL driver of sysbench, \<^verbatim>\<open>drivers/mysql/drv_mysql.c\<close>, with \<^verbatim>\<open>db_print_value\<close> of
  \<^verbatim>\<open>db_driver.c\<close> (directory \<^verbatim>\<open>tokudb/software/sysbench/sysbench-0.5-rate-limited/sysbench\<close>): prepared
  statements that the driver emulates by writing the parameters into the text of the query, the
  errors after which a transaction is repeated, and the hosts that connections are made to. The client
  library is a parameter. Prepared statements of the server, SSL and the debug output are not modelled;
  a query is assumed to stay below the 2 GB at which the length of its buffer would wrap.
\<close>

section \<open>Parameters\<close>

text \<open>A bound variable with its value: integers of the four widths are printed alike.\<close>

datatype bind_value = Bind_Null | Bind_Int int | Bind_Double rat | Bind_Char string
  | Bind_Date int int int | Bind_Time int int int | Bind_Datetime int int int int int int | Bind_None

definition quoted :: "string \<Rightarrow> string" where
  "quoted v = CHR 0x27 # v @ [CHR 0x27]"

definition date_text :: "char \<Rightarrow> int \<Rightarrow> int \<Rightarrow> int \<Rightarrow> string" where
  "date_text sep a b c = decimal (c_int a) @ sep # decimal (c_int b) @ sep # decimal (c_int c)"

fun bind_text :: "bind_value \<Rightarrow> string" where
  "bind_text Bind_Null = ''NULL''"
| "bind_text (Bind_Int n) = decimal n"
| "bind_text (Bind_Double x) = fixed6 x"
| "bind_text (Bind_Char v) = quoted v"
| "bind_text (Bind_Date y m d) = quoted (date_text CHR ''-'' y m d)"
| "bind_text (Bind_Time h m s) = quoted (date_text CHR '':'' h m s)"
| "bind_text (Bind_Datetime y m d h mi s) =
     quoted (date_text CHR ''-'' y m d @ CHR '' '' # date_text CHR '':'' h mi s)"
| "bind_text Bind_None = []"

text \<open>\<open>None\<close> is the return value -1: the text, with its NUL, does not fit.\<close>

definition db_print_value :: "bind_value \<Rightarrow> nat \<Rightarrow> string option" where
  "db_print_value v buflen = (if length (bind_text v) < buflen then Some (bind_text v) else None)"

section \<open>Emulated statements\<close>

text \<open>
  The loop that writes the query. \<open>query\<close> is what is left of the statement, \<open>params\<close> the parameters not yet
  used, \<open>buf\<close> what has been written and \<open>buflen\<close> the size of the buffer, which doubles when it is nearly
  full or a value did not fit. \<open>None\<close> is an access past the parameters or past the buffer, also the NUL
  at the end.
\<close>

definition grown :: "nat \<Rightarrow> bool \<Rightarrow> nat \<Rightarrow> nat" where
  "grown j need_realloc buflen = (if j + 1 \<ge> buflen \<or> need_realloc then if buflen > 0 then buflen * 2 else 256 else buflen)"

function emulate :: "string \<Rightarrow> bind_value list \<Rightarrow> string \<Rightarrow> nat \<Rightarrow> bool \<Rightarrow> string option" where
  "emulate [] params buf buflen need_realloc = (if length buf < buflen then Some buf else None)"
| "emulate (c # query) params buf buflen need_realloc =
     (let buflen = grown (length buf) need_realloc buflen in
      if c \<noteq> CHR ''?'' then
        (if length buf < buflen then emulate query params (buf @ [c]) buflen False else None)
      else case params of
        [] \<Rightarrow> None
      | v # vs \<Rightarrow> (case db_print_value v (buflen - length buf) of
          None \<Rightarrow> emulate (c # query) params buf buflen True
        | Some n \<Rightarrow> emulate query vs (buf @ n) buflen False))"
  by pat_completeness auto

text \<open>A value that does not fit makes the buffer grow until it does.\<close>

termination
  by (relation "measures [\<lambda>(query, params, buf, buflen, need). length query,
        \<lambda>(query, params, buf, buflen, need). length buf + length (bind_text (hd params)) + 1 - buflen,
        \<lambda>(query, params, buf, buflen, need). if need then 0 else 1]")
    (auto simp: db_print_value_def grown_def split: if_splits)

text \<open>Errors of the client library: those after which the transaction is to be repeated, and others.\<close>

definition mysql_error_class :: "(nat \<Rightarrow> bool) \<Rightarrow> nat \<Rightarrow> db_error" where
  "mysql_error_class repeatable_error rc =
     (if rc = 0 then Db_None else if repeatable_error rc then Db_Deadlock else Db_Failed)"

definition mysql_drv_query :: "(nat \<Rightarrow> bool) \<Rightarrow> (string \<Rightarrow> 'w \<Rightarrow> nat \<times> 'w) \<Rightarrow> string \<Rightarrow> 'w \<Rightarrow> db_error \<times> 'w" where
  "mysql_drv_query repeatable_error real_query query w =
     (case real_query query w of (rc, w) \<Rightarrow> (mysql_error_class repeatable_error rc, w))"

text \<open>The first value of \<open>buf\<close> is NULL, of size 0.\<close>

definition mysql_drv_execute :: "(nat \<Rightarrow> bool) \<Rightarrow> (string \<Rightarrow> 'w \<Rightarrow> nat \<times> 'w) \<Rightarrow> bind_value list \<Rightarrow> string \<Rightarrow> 'w \<Rightarrow>
    (db_error \<times> 'w) option" where
  "mysql_drv_execute repeatable_error real_query params query w =
     map_option (\<lambda>buf. mysql_drv_query repeatable_error real_query buf w) (emulate query params [] 0 True)"

section \<open>Hosts\<close>

text \<open>The place of the next connection's host in the circular list of the option \<^verbatim>\<open>mysql-host\<close>.\<close>

definition next_host :: "item \<Rightarrow> links \<Rightarrow> item \<Rightarrow> item" where
  "next_host hosts h hosts_pos =
     (let p = next_p h hosts_pos in if p = hosts then next_p h p else p)"

primrec connects :: "nat \<Rightarrow> item \<Rightarrow> links \<Rightarrow> item \<Rightarrow> item list" where
  "connects 0 hosts h hosts_pos = []"
| "connects (Suc n) hosts h hosts_pos =
     (let p = next_host hosts h hosts_pos in p # connects n hosts h p)"

section \<open>Lemmas\<close>

text \<open>The statement with its parameters written in the places of the question marks.\<close>

fun with_params :: "string \<Rightarrow> bind_value list \<Rightarrow> string option" where
  "with_params [] vs = Some []"
| "with_params (c # q) vs =
     (if c \<noteq> CHR ''?'' then map_option ((#) c) (with_params q vs)
      else case vs of [] \<Rightarrow> None | v # vs \<Rightarrow> map_option (append (bind_text v)) (with_params q vs))"

lemma grown_gt: "j < buflen \<or> buflen = 0 \<and> j < 255 \<and> need \<Longrightarrow> j + 1 < grown j need buflen"
  by (auto simp: grown_def)

lemma emulate_with_params:
  assumes "length buf < buflen \<or> buflen = 0 \<and> buf = [] \<and> need \<and> query \<noteq> []"
  shows "emulate query params buf buflen need = map_option (append buf) (with_params query params)"
  using assms
proof (induction query params buf buflen need rule: emulate.induct)
  case (2 c query params buf buflen need)
  let ?b = "grown (length buf) need buflen"
  have b1: "length buf + 1 < ?b" using 2(4) by (intro grown_gt) auto
  then have b: "length buf < ?b" by simp
  show ?case
  proof (cases "c = CHR ''?''")
    case False
    have "length (buf @ [c]) < ?b" using b1 by simp
    with 2(1) [OF refl False b] False b show ?thesis
      by (cases "with_params query params") simp_all
  next
    case True
    show ?thesis
    proof (cases params)
      case (Cons v vs)
      show ?thesis
      proof (cases "db_print_value v (?b - length buf)")
        case None
        from 2(2) [OF refl _ Cons None] True b None Cons show ?thesis by simp
      next
        case (Some n)
        then have n: "n = bind_text v" "length (buf @ n) < ?b" by (auto simp: db_print_value_def split: if_splits)
        from 2(3) [OF refl _ Cons Some] True n Some Cons show ?thesis
          by (cases "with_params query vs") simp_all
      qed
    qed (use True in simp)
  qed
qed simp

text \<open>The next host of a list of hosts, and of its end.\<close>

lemma next_host_at:
  assumes "is_list h hosts ps" and "ps \<noteq> []" and "i < length ps"
  shows "next_host hosts h (ps ! i) = ps ! (Suc i mod length ps)"
    and "next_host hosts h hosts = ps ! 0"
proof -
  have hd: "next_p h hosts = ps ! 0" "ps ! 0 \<noteq> hosts"
    using is_list_first [OF assms(1)] assms(1,2) by (cases ps; simp add: is_list_def)+
  have "is_list h hosts (take i ps @ ps ! i # drop (Suc i) ps)"
    using assms(1) id_take_nth_drop [OF assms(3)] by simp
  then have nx: "next_p h (ps ! i) = hd (drop (Suc i) ps @ [hosts])" by (rule is_list_next)
  show "next_host hosts h (ps ! i) = ps ! (Suc i mod length ps)"
  proof (cases "Suc i < length ps")
    case True
    then have "ps ! Suc i \<noteq> hosts" using assms(1) nth_mem [OF True] by (auto simp: is_list_def)
    with True nx show ?thesis by (simp add: next_host_def hd_append hd_drop_conv_nth)
  next
    case False
    then have "Suc i = length ps" using assms(3) by simp
    with nx hd show ?thesis by (simp add: next_host_def)
  qed
  show "next_host hosts h hosts = ps ! 0" using hd by (simp add: next_host_def)
qed

lemma connects_from:
  assumes "is_list h hosts ps" and "i < length ps"
  shows "connects n hosts h (ps ! i) = map (\<lambda>k. ps ! ((i + 1 + k) mod length ps)) [0..<n]"
  using assms(2)
proof (induction n arbitrary: i)
  case (Suc n)
  have "ps \<noteq> []" using Suc.prems by auto
  moreover have "Suc (Suc i mod m + k) mod m = Suc (Suc (i + k)) mod m" for k m :: nat
    using mod_add_left_eq [of "Suc i" m "Suc k"] by simp
  ultimately show ?case
    using next_host_at(1) [OF assms(1) _ Suc.prems] Suc.IH [of "Suc i mod length ps"]
    by (simp add: Let_def map_upt_Suc del: upt_Suc)
qed simp

section \<open>Properties\<close>

text \<open>
  Property C36. The emulation of a prepared statement ends and asks the server for the statement
  with the text of each parameter in the place of its question mark, however often its buffer has to grow
  on the way; it never writes past the buffer. It reads past the parameters only when there are fewer than
  question marks, and writes to a buffer that is NULL when the statement is empty.
\<close>

theorem emulation_substitutes:
  "mysql_drv_execute repeatable_error real_query params query w =
    (if query = [] then None
     else map_option (\<lambda>q. mysql_drv_query repeatable_error real_query q w) (with_params query params))"
proof (cases "query = []")
  case False
  then show ?thesis
    using emulate_with_params [of "[]" 0 True query params] by (simp add: mysql_drv_execute_def option.map_comp comp_def)
qed (simp add: mysql_drv_execute_def)

text \<open>
  The connections go to the hosts of the list in turn, beginning with the first one: the
  \<open>k\<close>-th connection, counted from 0, goes to host \<open>k mod\<close> their number, on the pointers of the
  circular list with its head between the last host and the first one.
\<close>

theorem hosts_in_turn:
  assumes "is_list h hosts ps" and "ps \<noteq> []"
  shows "connects n hosts h hosts = map (\<lambda>k. ps ! (k mod length ps)) [0..<n]"
proof (cases n)
  case (Suc m)
  have "connects m hosts h (ps ! 0) = map (\<lambda>k. ps ! ((0 + 1 + k) mod length ps)) [0..<m]"
    using assms by (intro connects_from) simp_all
  with Suc next_host_at(2) [OF assms, of 0] assms(2) show ?thesis
    by (simp add: Let_def map_upt_Suc del: upt_Suc)
qed simp

definition two_hosts :: links where
  "two_hosts = SB_LIST_ADD_TAIL 2 0 (SB_LIST_ADD_TAIL 1 0 (SB_LIST_INIT 0 \<lparr>next_p = (\<lambda>_. 0), prev_p = (\<lambda>_. 0)\<rparr>))"

theorem hosts_in_turn_witness: "connects 3 0 two_hosts 0 = [1, 2, 1]"
proof -
  have "is_list two_hosts 0 [1, 2]"
    using is_list_add_tail [OF is_list_add_tail [OF is_list_init], of 1 0 2] by (simp add: two_hosts_def)
  from hosts_in_turn [OF this, of 3] show ?thesis by (simp add: upt_rec)
qed

end
