(* ===== verification/SbCpu.thy ===== *)
theory SbCpu
  imports SbOptions CFloat
begin

text \<open>
  The CPU test of sysbench, \<^verbatim>\<open>tests/cpu/sb_cpu.c\<close> (directory
  \<^verbatim>\<open>tokudb/software/sysbench/sysbench-0.5-rate-limited/sysbench\<close>): every request counts the odd
  primes below a limit by trial division up to a square root in \<open>double\<close>. \<open>sqrt\<close> is that of
  IEEE 754, correctly rounded. The event log is not modelled.
\<close>

section \<open>Square roots\<close>

fun isqrt :: "nat \<Rightarrow> nat" where
  "isqrt n = (if n = 0 then 0
     else let r = 2 * isqrt (n div 4) in if (r + 1) * (r + 1) \<le> n then r + 1 else r)"

declare isqrt.simps [simp del]

text \<open>
  \<open>sqrt((double)c)\<close>: the root scaled to 53 bits, to nearest; a tie is impossible. For \<open>c\<close> below
  \<open>2 ^ 53\<close>, where the conversion of \<open>c\<close> is exact.
\<close>

definition dsqrt :: "nat \<Rightarrow> rat" where
  "dsqrt c = (let e = nat (53 - bitlen (int (isqrt c))); n = c * 4 ^ e; r = isqrt n in
     of_nat (if n > r * r + r then r + 1 else r) / 2 ^ e)"

section \<open>The test\<close>

record cpu_state =
  max_prime :: nat
  req_performed :: nat

text \<open>The return value is whether the option is invalid; \<open>None\<close> is the exit in \<open>sb_get_value_int\<close>.\<close>

definition cpu_init :: "option_list \<Rightarrow> cpu_state \<Rightarrow> (bool \<times> cpu_state) option" where
  "cpu_init opts s = map_option (\<lambda>prime_option.
     if prime_option \<le> 0 then (True, s)
     else (False, s\<lparr>max_prime := nat prime_option, req_performed := 0\<rparr>))
     (sb_get_value_int ''cpu-max-prime'' opts)"

text \<open>Whether there is a request.\<close>

definition cpu_get_request :: "nat \<Rightarrow> cpu_state \<Rightarrow> bool \<times> cpu_state" where
  "cpu_get_request max_requests s =
     (if req_performed s \<ge> max_requests then (False, s)
      else (True, s\<lparr>req_performed := req_performed s + 1\<rparr>))"

text \<open>The inner loop, from \<open>l\<close> on: the value of \<open>l\<close> after it.\<close>

function trial :: "nat \<Rightarrow> rat \<Rightarrow> nat \<Rightarrow> nat" where
  "trial c t l = (if of_nat l \<le> t then (if c mod l = 0 then l else trial c t (l + 1)) else l)"
  by pat_completeness auto

termination
proof (relation "measure (\<lambda>(c, t, l). nat (\<lfloor>t\<rfloor> + 1 - int l))")
  fix c l :: nat and t :: rat
  assume "of_nat l \<le> t"
  then have "int l \<le> \<lfloor>t\<rfloor>" by (simp add: le_floor_iff)
  then show "((c, t, l + 1), (c, t, l)) \<in> measure (\<lambda>(c, t, l). nat (\<lfloor>t\<rfloor> + 1 - int l))" by simp
qed simp

declare trial.simps [simp del]

definition cpu_execute_request :: "cpu_state \<Rightarrow> nat" where
  "cpu_execute_request s = fold (\<lambda>c n. let t = dsqrt c; l = trial c t 2 in if of_nat l > t then n + 1 else n)
     [3..<max_prime s] 0"

section \<open>Lemmas: square roots\<close>

lemma isqrt_spec: "isqrt n * isqrt n \<le> n \<and> n < (isqrt n + 1) * (isqrt n + 1)"
proof (induction n rule: isqrt.induct)
  case (1 n)
  show ?case
  proof (cases "n = 0")
    case False
    let ?r = "isqrt (n div 4)"
    have "?r * ?r \<le> n div 4" "n div 4 < (?r + 1) * (?r + 1)" using "1" [OF False] by auto
    moreover have "2 * ?r * (2 * ?r) = 4 * (?r * ?r)"
      "(2 * ?r + 2) * (2 * ?r + 2) = 4 * ((?r + 1) * (?r + 1))" by (simp_all add: algebra_simps)
    ultimately have "2 * ?r * (2 * ?r) \<le> n" "n < (2 * ?r + 2) * (2 * ?r + 2)" by linarith+
    moreover have "isqrt n = (if (2 * ?r + 1) * (2 * ?r + 1) \<le> n then 2 * ?r + 1 else 2 * ?r)"
      using False by (simp add: isqrt.simps [of n] Let_def)
    ultimately show ?thesis by simp
  qed (simp add: isqrt.simps)
qed

lemma le_isqrt_iff: "k \<le> isqrt n \<longleftrightarrow> k * k \<le> n"
proof
  assume "k \<le> isqrt n"
  then have "k * k \<le> isqrt n * isqrt n" by (intro mult_le_mono)
  then show "k * k \<le> n" using isqrt_spec [of n] by linarith
next
  assume "k * k \<le> n"
  then have "k * k < (isqrt n + 1) * (isqrt n + 1)" using isqrt_spec [of n] by linarith
  then show "k \<le> isqrt n" using mult_le_mono [of "isqrt n + 1" k "isqrt n + 1" k]
    by (cases "isqrt n + 1 \<le> k") simp_all
qed

lemma isqrt_less: "n < m * m \<Longrightarrow> isqrt n < m"
  using le_isqrt_iff [of m n] by simp

text \<open>The rounding of the root does not change the comparison with a whole number.\<close>

lemma le_dsqrt_iff:
  assumes "c < 2 ^ 32"
  shows "of_nat l \<le> dsqrt c \<longleftrightarrow> l * l \<le> c"
proof -
  define b where "b = nat (bitlen (int (isqrt c)))"
  define e where "e = nat (53 - bitlen (int (isqrt c)))"
  define n where "n = c * 4 ^ e"
  define r where "r = isqrt n"
  define q where "q = (if n > r * r + r then r + 1 else r)"
  have "isqrt c < 2 ^ 16" using assms by (intro isqrt_less) simp
  then have b: "b \<le> 16" unfolding b_def using bitlen_le_iff_power [of "int (isqrt c)" 16] by simp
  have be: "b + e = 53" "37 \<le> e" using b bitlen_nonneg [of "int (isqrt c)"] by (auto simp: b_def e_def)
  have "int (isqrt c) < 2 ^ b" unfolding b_def
    using bitlen_bounds [of "int (isqrt c)"] by (cases "isqrt c = 0") simp_all
  then have "isqrt c < 2 ^ b" by (metis of_nat_less_iff of_nat_numeral of_nat_power)
  then have "isqrt c + 1 \<le> 2 ^ b" by simp
  then have "c < 2 ^ b * 2 ^ b" using isqrt_spec [of c] mult_le_mono [of "isqrt c + 1" "2 ^ b" "isqrt c + 1" "2 ^ b"] by linarith
  have four: "(4 :: nat) ^ e = 2 ^ e * 2 ^ e" by (simp flip: power_mult_distrib)
  from \<open>c < 2 ^ b * 2 ^ b\<close> have "n < 2 ^ b * 2 ^ b * 4 ^ e" by (simp add: n_def)
  also have "2 ^ b * 2 ^ b * 4 ^ e = (2 ^ (b + e)) * (2 ^ (b + e) :: nat)" by (simp only: power_add four ac_simps)
  finally have r53: "r < 2 ^ 53" unfolding r_def be(1) by (rule isqrt_less)
  have e4: "(2 ^ 74 :: nat) \<le> 4 ^ e" using power_increasing [OF be(2), of "4 :: nat"] by simp
  have rq: "r \<le> q" "q \<le> r + 1" by (auto simp: q_def)
  have scaled: "l * 2 ^ e * (l * 2 ^ e) = l * l * 4 ^ e" by (simp only: four ac_simps)
  have "l * 2 ^ e \<le> q \<longleftrightarrow> l * l \<le> c"
  proof
    assume "l * l \<le> c"
    then have "l * 2 ^ e * (l * 2 ^ e) \<le> n" by (simp add: scaled n_def)
    then have "l * 2 ^ e \<le> r" unfolding r_def le_isqrt_iff .
    with rq show "l * 2 ^ e \<le> q" by simp
  next
    assume "l * 2 ^ e \<le> q"
    then have "l * 2 ^ e * (l * 2 ^ e) \<le> (r + 1) * (r + 1)" using rq by (intro mult_le_mono) simp_all
    also have "\<dots> \<le> n + 2 * r + 1" using isqrt_spec [of n] by (simp add: r_def)
    finally have "l * l * 4 ^ e < (c + 1) * 4 ^ e" using r53 e4 by (simp add: scaled n_def)
    then have "l * l < c + 1" by (metis mult_less_cancel2)
    then show "l * l \<le> c" by simp
  qed
  moreover have "of_nat l \<le> dsqrt c \<longleftrightarrow> of_nat (l * 2 ^ e) \<le> (of_nat q :: rat)"
    unfolding dsqrt_def Let_def e_def [symmetric] n_def [symmetric] r_def [symmetric] q_def [symmetric]
    by (simp add: field_simps)
  ultimately show ?thesis by (simp only: of_nat_le_iff)
qed

section \<open>Lemmas: trial division\<close>

definition is_prime :: "nat \<Rightarrow> bool" where
  "is_prime p \<longleftrightarrow> 1 < p \<and> (\<forall>d. d dvd p \<longrightarrow> d = 1 \<or> d = p)"

text \<open>The loop leaves the first divisor, or the first number beyond the root.\<close>

lemma trial_spec:
  assumes "\<And>k. of_nat k \<le> t \<longleftrightarrow> k * k \<le> c"
  shows "of_nat (trial c t l) > t \<longleftrightarrow> (\<forall>d \<ge> l. d * d \<le> c \<longrightarrow> \<not> d dvd c)"
  using assms
proof (induction c t l rule: trial.induct)
  case (1 c t l)
  consider "\<not> l * l \<le> c" | "l * l \<le> c" "l dvd c" | "l * l \<le> c" "\<not> l dvd c" by blast
  then show ?case
  proof cases
    case 1
    then have "of_nat (trial c t l) > t" using "1.prems" [of l] by (subst trial.simps) auto
    moreover have "\<not> d * d \<le> c" if "l \<le> d" for d using mult_le_mono [OF that that] 1 by linarith
    ultimately show ?thesis by blast
  next
    case 2
    then have "trial c t l = l" using "1.prems" [of l] by (subst trial.simps) (simp add: dvd_eq_mod_eq_0)
    with 2 "1.prems" [of l] show ?thesis by (auto simp: not_less)
  next
    case 3
    then have step: "of_nat l \<le> t" "c mod l \<noteq> 0" using "1.prems" [of l] by (auto simp: dvd_eq_mod_eq_0)
    then have "trial c t l = trial c t (l + 1)" by (subst trial.simps) simp
    moreover have "(\<forall>d \<ge> l. d * d \<le> c \<longrightarrow> \<not> d dvd c) \<longleftrightarrow> (\<forall>d \<ge> l + 1. d * d \<le> c \<longrightarrow> \<not> d dvd c)"
      using 3(2) by (metis Suc_eq_plus1 Suc_leD le_antisym not_less_eq_eq)
    ultimately show ?thesis using "1.IH" [OF step "1.prems"] by simp
  qed
qed

lemma is_prime_trial:
  assumes "2 \<le> c"
  shows "is_prime c \<longleftrightarrow> (\<forall>d \<ge> 2. d * d \<le> c \<longrightarrow> \<not> d dvd c)"
proof
  assume prime: "is_prime c"
  show "\<forall>d \<ge> 2. d * d \<le> c \<longrightarrow> \<not> d dvd c"
  proof (intro allI impI notI)
    fix d assume d: "2 \<le> d" "d * d \<le> c" "d dvd c"
    with prime have "d = c" unfolding is_prime_def by fastforce
    with d(1,2) show False by simp
  qed
next
  assume small: "\<forall>d \<ge> 2. d * d \<le> c \<longrightarrow> \<not> d dvd c"
  have "d = 1 \<or> d = c" if "d dvd c" for d
  proof (rule ccontr)
    assume d: "\<not> (d = 1 \<or> d = c)"
    obtain k where k: "c = d * k" using \<open>d dvd c\<close> by blast
    with assms d have two: "2 \<le> d" "2 \<le> k" by (cases d; cases k; auto)+
    show False
    proof (cases "d \<le> k")
      case True
      then have "d * d \<le> c" using k by simp
      with small two(1) \<open>d dvd c\<close> show False by blast
    next
      case False
      then have "k * k \<le> c" using k by simp
      with small two(2) k show False by (metis dvd_triv_right)
    qed
  qed
  with assms show "is_prime c" by (simp add: is_prime_def)
qed

section \<open>Properties\<close>

text \<open>
  Property C29. A request of the CPU test counts exactly the odd primes below the limit: the
  comparison with the rounded square root misses no divisor and no prime.
\<close>

theorem cpu_counts_primes:
  assumes "max_prime s < 2 ^ 32"
  shows "cpu_execute_request s = card {p. is_prime p \<and> 3 \<le> p \<and> p < max_prime s}"
proof -
  have count: "of_nat (trial c (dsqrt c) 2) > dsqrt c \<longleftrightarrow> is_prime c" if "c \<in> {3..<max_prime s}" for c
    using that assms trial_spec [of "dsqrt c" c 2] le_dsqrt_iff [of c] is_prime_trial [of c] by auto
  have "fold (\<lambda>c n. let t = dsqrt c; l = trial c t 2 in if of_nat l > t then n + 1 else n) cs k =
      k + length (filter is_prime cs)" if "set cs \<subseteq> {3..<max_prime s}" for cs k
    using that by (induction cs arbitrary: k) (simp_all add: Let_def count)
  then have "cpu_execute_request s = length (filter is_prime [3..<max_prime s])"
    by (simp add: cpu_execute_request_def)
  also have "\<dots> = card (set (filter is_prime [3..<max_prime s]))"
    by (intro distinct_card [symmetric]) simp
  also have "set (filter is_prime [3..<max_prime s]) = {p. is_prime p \<and> 3 \<le> p \<and> p < max_prime s}" by auto
  finally show ?thesis .
qed

theorem cpu_counts_primes_witness:
  "cpu_execute_request \<lparr>max_prime = 10000, req_performed = 0\<rparr> = card {p. is_prime p \<and> 3 \<le> p \<and> p < 10000}"
  using cpu_counts_primes [of "\<lparr>max_prime = 10000, req_performed = 0\<rparr>"] by simp

end
