(* ===== verification/SbRandom.thy ===== *)
theory SbRandom
  imports CInt
begin

text \<open>
  The random numbers of sysbench, the functions \<^verbatim>\<open>sb_rand*\<close> of \<^verbatim>\<open>sysbench.c\<close> and the macro
  \<^verbatim>\<open>sb_rnd\<close> of \<^verbatim>\<open>sysbench.h\<close> (directory
  \<^verbatim>\<open>tokudb/software/sysbench/sysbench-0.5-rate-limited/sysbench\<close>). What \<^verbatim>\<open>lrand48\<close> returns is a
  stream. \<open>None\<close> is a division by zero. Unsigned 32-bit values are integers reduced by \<open>c_uint\<close>.
\<close>

section \<open>State\<close>

record sb_rng =
  lrand48s :: "31 word stream"
  rnd_seed :: "64 word"

record rand_options =
  rand_iter :: int
  rand_pct :: int
  rand_res :: int

definition c_uint :: "int \<Rightarrow> int" where
  "c_uint n = n mod 4294967296"

definition SB_MAX_RND :: int where
  "SB_MAX_RND = 1073741823"

definition LARGE_PRIME :: "64 word" where
  "LARGE_PRIME = 2147483647"

section \<open>Functions\<close>

definition sb_rnd :: "sb_rng \<Rightarrow> int \<times> sb_rng" where
  "sb_rnd s = (uint (shd (lrand48s s)) mod SB_MAX_RND, s\<lparr>lrand48s := stl (lrand48s s)\<rparr>)"

definition sb_rand_uniform :: "int \<Rightarrow> int \<Rightarrow> sb_rng \<Rightarrow> (int \<times> sb_rng) option" where
  "sb_rand_uniform a b s =
     (let n = c_int (b - a + 1) in
      if n = 0 then None else case sb_rnd s of (r, s) \<Rightarrow> Some (c_int (a + r smod n), s))"

text \<open>The loop that adds up \<open>rand_iter\<close> numbers below \<open>t\<close> in an \<open>int\<close>.\<close>

fun rand_sum :: "nat \<Rightarrow> int \<Rightarrow> int \<Rightarrow> sb_rng \<Rightarrow> (int \<times> sb_rng) option" where
  "rand_sum 0 t acc s = Some (acc, s)"
| "rand_sum (Suc i) t acc s =
     (if t = 0 then None else case sb_rnd s of (r, s) \<Rightarrow> rand_sum i t (c_int (acc + r mod t)) s)"

definition sb_rand_gaussian :: "rand_options \<Rightarrow> int \<Rightarrow> int \<Rightarrow> sb_rng \<Rightarrow> (int \<times> sb_rng) option" where
  "sb_rand_gaussian opts a b s =
     (let t = c_uint (b - a + 1) in
      case rand_sum (nat (rand_iter opts)) t 0 s of
        None \<Rightarrow> None
      | Some (acc, s) \<Rightarrow>
          if rand_iter opts = 0 then None else Some (c_int (a + c_uint acc div rand_iter opts), s))"

definition sb_rand_special :: "rand_options \<Rightarrow> int \<Rightarrow> int \<Rightarrow> sb_rng \<Rightarrow> (int \<times> sb_rng) option" where
  "sb_rand_special opts a b s =
     (if a \<ge> b then Some (0, s)
      else let t = c_uint (b - a + 1); left = c_uint (100 - rand_res opts) in
      if left = 0 then None
      else let range_size = c_uint (t * (100 div left)) in
      if range_size = 0 then None
      else case sb_rnd s of (r, s) \<Rightarrow>
      let res = r mod range_size in
      if res < t then
        (case rand_sum (nat (rand_iter opts)) t 0 s of
           None \<Rightarrow> None
         | Some (acc, s) \<Rightarrow>
             if rand_iter opts = 0 then None else Some (c_int (a + c_uint acc div rand_iter opts), s))
      else
        let d = c_uint (t * rand_pct opts) div 100;
            d = (if d < 1 then 1 else d);
            res = res mod d;
            res = c_uint (res + (t div 2 - c_uint (t * rand_pct opts) div 200))
        in Some (c_int (a + res), s))"

definition sb_rand_uniq :: "int \<Rightarrow> int \<Rightarrow> sb_rng \<Rightarrow> (int \<times> sb_rng) option" where
  "sb_rand_uniq a b s =
     (let n = word_of_int (c_int (b - a + 1)) :: 64 word in
      if n = 0 then None
      else Some (c_int (c_uint (uint (rnd_seed s mod n)) + a), s\<lparr>rnd_seed := rnd_seed s + LARGE_PRIME\<rparr>))"

fun sb_rand_str :: "string \<Rightarrow> sb_rng \<Rightarrow> (string \<times> sb_rng) option" where
  "sb_rand_str [] s = Some ([], s)"
| "sb_rand_str (c # fmt) s =
     (case (if c = CHR ''#'' then map_option (\<lambda>(n, s). (char_of n, s)) (sb_rand_uniform 48 57 s)
            else if c = CHR ''@'' then map_option (\<lambda>(n, s). (char_of n, s)) (sb_rand_uniform 97 122 s)
            else Some (c, s)) of
       None \<Rightarrow> None
     | Some (c, s) \<Rightarrow> map_option (\<lambda>(cs, s). (c # cs, s)) (sb_rand_str fmt s))"

section \<open>Lemmas: ranges\<close>

lemma sb_rnd_range: "sb_rnd s = (r, s') \<Longrightarrow> 0 \<le> r \<and> r < SB_MAX_RND"
  by (auto simp: sb_rnd_def SB_MAX_RND_def)

lemma c_uint_id: "0 \<le> n \<Longrightarrow> n < 4294967296 \<Longrightarrow> c_uint n = n"
  by (simp add: c_uint_def)

lemma c_uint_c_int [simp]: "c_uint (c_int n) = c_uint n"
  unfolding c_uint_def c_int_def
  by (simp add: sint_uint uint_word_of_int take_bit_eq_mod signed_take_bit_eq_take_bit_shift mod_simps)

lemma c_uint_add: "c_uint (m + n) = c_uint (c_uint m + n)"
  by (simp add: c_uint_def mod_simps)

lemma rand_sum_bound:
  assumes "0 < t" and "c_uint acc \<le> k" and "k + int i * (t - 1) < 4294967296"
  shows "\<exists>acc' s'. rand_sum i t acc s = Some (acc', s') \<and> c_uint acc' \<le> k + int i * (t - 1)"
  using assms(2,3)
proof (induction i arbitrary: acc k s)
  case (Suc i)
  obtain r s' where r: "sb_rnd s = (r, s')" by force
  have m: "0 \<le> r mod t" "r mod t \<le> t - 1" using assms(1) by (simp_all add: pos_mod_bound zle_diff1_eq)
  have "0 \<le> int i * (t - 1)" using assms(1) by simp
  then have lt: "k + (t - 1) < 4294967296" using Suc.prems(2) by (simp add: algebra_simps)
  have "0 \<le> c_uint acc" by (simp add: c_uint_def)
  then have "c_uint (c_int (acc + r mod t)) = c_uint acc + r mod t"
    using m lt Suc.prems(1) c_uint_add [of acc "r mod t"] by (simp add: c_uint_id)
  then have "c_uint (c_int (acc + r mod t)) \<le> k + (t - 1)" using m Suc.prems(1) by simp
  from Suc.IH [OF this] Suc.prems(2) r assms(1) show ?case by (simp add: algebra_simps)
qed auto

lemma rand_mean_range:
  assumes "a \<le> b" and "- 2147483648 \<le> a" and "b < 2147483648" and "b - a < 4294967295"
    and "0 < n" and "n * (b - a) < 4294967296"
  shows "\<exists>acc s'. rand_sum (nat n) (c_uint (b - a + 1)) 0 s = Some (acc, s') \<and>
    a \<le> c_int (a + c_uint acc div n) \<and> c_int (a + c_uint acc div n) \<le> b"
proof -
  have t: "c_uint (b - a + 1) = b - a + 1" using assms(1,4) by (simp add: c_uint_id)
  obtain acc s' where acc: "rand_sum (nat n) (b - a + 1) 0 s = Some (acc, s')" "c_uint acc \<le> n * (b - a)"
    using rand_sum_bound [of "b - a + 1" 0 0 "nat n" s] assms by (auto simp: c_uint_def)
  have "0 \<le> c_uint acc div n" using assms(5) by (simp add: c_uint_def pos_imp_zdiv_nonneg_iff)
  moreover have "c_uint acc div n \<le> b - a"
    using zdiv_mono1 [OF acc(2) assms(5)] assms(5) by simp
  ultimately have "c_int (a + c_uint acc div n) = a + c_uint acc div n"
    using assms(2,3) by (intro c_int_id) linarith+
  with acc(1) t \<open>0 \<le> c_uint acc div n\<close> \<open>c_uint acc div n \<le> b - a\<close> show ?thesis by auto
qed

text \<open>The middle part of the range that the special values are drawn from.\<close>

lemma special_offset:
  fixes t q r :: int
  assumes "2 \<le> t" and "0 \<le> q" and "q \<le> t * 100" and "0 \<le> r"
  defines "d \<equiv> (if q div 100 < 1 then 1 else q div 100)"
  assumes "r < d"
  shows "0 \<le> r + (t div 2 - q div 200)" and "r + (t div 2 - q div 200) < t"
proof -
  define f where "f = q div 200"
  have f: "0 \<le> f" "q div 100 \<le> 2 * f + 1" "q div 100 \<le> t" "f \<le> t div 2"
  proof -
    have "200 * f \<le> q" "q < 200 * f + 200" "100 * (q div 100) \<le> q" "t < 2 * (t div 2) + 2"
      unfolding f_def by linarith+
    with assms(2,3) show "0 \<le> f" "q div 100 \<le> 2 * f + 1" "q div 100 \<le> t" "f \<le> t div 2" by linarith+
  qed
  then show "0 \<le> r + (t div 2 - q div 200)" using assms(4) by (simp add: f_def)
  have "d \<le> 2 * f + 1" "d \<le> t" using f assms(1) by (auto simp: d_def)
  moreover have "2 * (t div 2) \<le> t" by simp
  ultimately have "r + (t div 2 - f) < t" using assms(6) f(4) by linarith
  then show "r + (t div 2 - q div 200) < t" by (simp only: f_def)
qed

lemma uniform_range:
  assumes "a \<le> b" and "- 2147483648 \<le> a" and "b < 2147483648" and "b - a < 2147483647"
  shows "\<exists>u us. sb_rand_uniform a b s = Some (u, us) \<and> a \<le> u \<and> u \<le> b"
proof -
  let ?t = "b - a + 1"
  obtain r s' where r: "sb_rnd s = (r, s')" by force
  have t: "c_int ?t = ?t" using assms by (simp add: c_int_id)
  have "0 \<le> r" using sb_rnd_range [OF r] by simp
  then have "r smod ?t = r mod ?t" using assms(1) by (cases "r = 0") (simp_all add: signed_modulo_int_def)
  moreover have m: "0 \<le> r mod ?t" "r mod ?t < ?t" using assms(1) pos_mod_bound [of ?t r] by simp_all
  moreover have "c_int (a + r mod ?t) = a + r mod ?t" using m assms(2,3) by (intro c_int_id) linarith+
  ultimately have "sb_rand_uniform a b s = Some (a + r mod ?t, s')"
    using assms(1) r t by (simp add: sb_rand_uniform_def Let_def)
  with m show ?thesis by auto
qed

lemma gaussian_range:
  assumes "a \<le> b" and "- 2147483648 \<le> a" and "b < 2147483648" and "b - a < 4294967295"
    and "0 < rand_iter opts" and "rand_iter opts * (b - a) < 4294967296"
  shows "\<exists>g gs. sb_rand_gaussian opts a b s = Some (g, gs) \<and> a \<le> g \<and> g \<le> b"
  using rand_mean_range [OF assms, of s] assms(5) by (auto simp: sb_rand_gaussian_def)

lemma special_range:
  assumes "a < b" and "- 2147483648 \<le> a" and "b < 2147483648"
    and "0 < rand_iter opts" and "rand_iter opts * (b - a) < 4294967296" and "(b - a + 1) * 100 < 4294967296"
    and "0 \<le> rand_pct opts" and "rand_pct opts \<le> 100" and "0 \<le> rand_res opts" and "rand_res opts < 100"
  shows "\<exists>p ps. sb_rand_special opts a b s = Some (p, ps) \<and> a \<le> p \<and> p \<le> b"
proof -
  let ?t = "b - a + 1" and ?left = "100 - rand_res opts"
  let ?d = "if ?t * rand_pct opts div 100 < 1 then 1 else ?t * rand_pct opts div 100"
  obtain v w where v: "sb_rnd s = (v, w)" by force
  have t: "c_uint ?t = ?t" using assms by (simp add: c_uint_id)
  have left: "c_uint ?left = ?left" "1 \<le> 100 div ?left" "100 div ?left \<le> 100"
    using assms(9,10) zdiv_mono2 [of 100 1 ?left] zdiv_mono2 [of 100 ?left 100] by (simp_all add: c_uint_id)
  then have size: "?t \<le> ?t * (100 div ?left)" "?t * (100 div ?left) \<le> ?t * 100"
    using assms(1) mult_left_mono [of 1 "100 div ?left" ?t] mult_left_mono [of "100 div ?left" 100 ?t] by simp_all
  then have range: "c_uint (?t * (100 div ?left)) = ?t * (100 div ?left)" "?t * (100 div ?left) \<noteq> 0"
    using assms(1,6) by (auto intro!: c_uint_id)
  have pct: "c_uint (?t * rand_pct opts) = ?t * rand_pct opts"
    using mult_left_mono [of "rand_pct opts" 100 ?t] assms(1,6-8) by (intro c_uint_id) auto
  define x where "x = (v mod (?t * (100 div ?left))) mod ?d + (?t div 2 - ?t * rand_pct opts div 200)"
  have "0 \<le> ?t * rand_pct opts" "?t * rand_pct opts \<le> ?t * 100"
    using assms(1,7,8) by (intro mult_nonneg_nonneg mult_left_mono; simp)+
  moreover have "0 \<le> (v mod (?t * (100 div ?left))) mod ?d" "(v mod (?t * (100 div ?left))) mod ?d < ?d"
    by (rule pos_mod_sign, simp, rule pos_mod_bound, simp)
  ultimately have "0 \<le> x" "x < ?t"
    unfolding x_def using assms(1) by (intro special_offset; simp)+
  then have x: "c_uint x = x" "c_int (a + x) = a + x" "a \<le> a + x" "a + x \<le> b"
    using assms(2,3,6) by (auto intro!: c_uint_id c_int_id)
  obtain acc y where "rand_sum (nat (rand_iter opts)) ?t 0 w = Some (acc, y)"
    "a \<le> c_int (a + c_uint acc div rand_iter opts)" "c_int (a + c_uint acc div rand_iter opts) \<le> b"
    using rand_mean_range [OF _ assms(2,3) _ assms(4,5), of w] assms(1,6) t by auto
  then show ?thesis
    using assms(1,4) v x left(2)
    by (simp add: sb_rand_special_def t left(1) range pct Let_def x_def [symmetric]) auto
qed

section \<open>Lemmas: unique numbers\<close>

text \<open>The results of \<open>n\<close> calls.\<close>

fun uniqs :: "nat \<Rightarrow> int \<Rightarrow> int \<Rightarrow> sb_rng \<Rightarrow> (int list \<times> sb_rng) option" where
  "uniqs 0 a b s = Some ([], s)"
| "uniqs (Suc n) a b s = (case sb_rand_uniq a b s of
     None \<Rightarrow> None
   | Some (r, s) \<Rightarrow> map_option (\<lambda>(rs, s). (r # rs, s)) (uniqs n a b s))"

lemma sb_rand_uniq_run:
  assumes "a \<le> b" and "- 2147483648 \<le> a" and "b < 2147483648" and "b - a < 2147483647"
  shows "sb_rand_uniq a b s = Some (a + uint (rnd_seed s) mod (b - a + 1), s\<lparr>rnd_seed := rnd_seed s + LARGE_PRIME\<rparr>)"
proof -
  let ?m = "b - a + 1"
  have m: "c_int ?m = ?m" "uint (word_of_int ?m :: 64 word) = ?m"
    using assms uint_word_of_int_eq [of ?m, where 'a = 64]
    by (simp_all only: c_int_id) (simp add: take_bit_int_eq_self)
  have r: "0 \<le> uint (rnd_seed s) mod ?m" "uint (rnd_seed s) mod ?m < ?m"
    using assms(1) pos_mod_bound [of ?m "uint (rnd_seed s)"] by simp_all
  have u: "uint (rnd_seed s mod word_of_int ?m) = uint (rnd_seed s) mod ?m" using m(2) by (simp add: uint_mod)
  have "word_of_int ?m \<noteq> (0 :: 64 word)" 
  proof
    assume "word_of_int ?m = (0 :: 64 word)"
    with m(2) assms(1) show False by simp
  qed
  moreover have "c_uint (uint (rnd_seed s) mod ?m) = uint (rnd_seed s) mod ?m"
    using r assms(4) by (intro c_uint_id) linarith+
  moreover have "c_int (uint (rnd_seed s) mod ?m + a) = a + uint (rnd_seed s) mod ?m"
    using r assms(2,3) by (subst c_int_id) linarith+
  ultimately show ?thesis using m(1) u by (simp add: sb_rand_uniq_def Let_def)
qed

lemma uniqs_run:
  assumes "a \<le> b" and "- 2147483648 \<le> a" and "b < 2147483648" and "b - a < 2147483647"
    and "uint (rnd_seed s) + int k * 2147483647 < 2 ^ 64"
  shows "\<exists>s'. uniqs k a b s =
    Some (map (\<lambda>i. a + (uint (rnd_seed s) + int i * 2147483647) mod (b - a + 1)) [0..<k], s')"
  using assms(5)
proof (induction k arbitrary: s)
  case (Suc k)
  let ?s = "s\<lparr>rnd_seed := rnd_seed s + LARGE_PRIME\<rparr>"
  have u: "uint (rnd_seed ?s) = uint (rnd_seed s) + 2147483647"
    using Suc.prems by (simp add: LARGE_PRIME_def uint_word_ariths)
  obtain s' where "uniqs k a b ?s =
      Some (map (\<lambda>i. a + (uint (rnd_seed s) + int (Suc i) * 2147483647) mod (b - a + 1)) [0..<k], s')"
    using Suc.IH [of ?s] Suc.prems unfolding u by (auto simp: algebra_simps)
  then show ?case
    by (simp add: sb_rand_uniq_run [OF assms(1-4)] map_upt_Suc del: upt_Suc)
qed simp

lemma progression_permutes:
  fixes m u p :: int
  assumes "0 < m" and "coprime m p"
  shows "distinct (map (\<lambda>i. (u + int i * p) mod m) [0..<nat m])"
    and "set (map (\<lambda>i. (u + int i * p) mod m) [0..<nat m]) = {0..<m}"
proof -
  let ?f = "\<lambda>i. (u + int i * p) mod m"
  have "i = j" if "i < nat m" "j < nat m" "?f i = ?f j" for i j
  proof -
    from that(3) have "m dvd (u + int i * p) - (u + int j * p)" by (simp add: mod_eq_dvd_iff)
    then have "m dvd (int i - int j) * p" by (simp add: algebra_simps)
    then have "m dvd int i - int j" using assms(2) by (simp add: coprime_dvd_mult_left_iff)
    moreover have "\<bar>int i - int j\<bar> < m" using that(1,2) assms(1) by linarith
    ultimately have "int i - int j = 0" by (metis dvd_imp_le_int abs_of_pos assms(1) not_le)
    then show "i = j" by simp
  qed
  then have inj: "inj_on ?f {0..<nat m}" by (auto intro!: inj_onI)
  then show "distinct (map ?f [0..<nat m])" by (simp add: distinct_map)
  have "?f ` {0..<nat m} = {0..<m}"
    by (rule card_subset_eq) (use assms(1) inj in \<open>auto simp: card_image\<close>)
  then show "set (map ?f [0..<nat m]) = {0..<m}" by simp
qed

section \<open>Properties\<close>

text \<open>
  Property C27. \<open>sb_rand_uniq\<close> gives every number of its range exactly once in as many calls as the
  range has numbers, from whatever state of the seed, while the seed does not overflow and the
  size of the range has no factor in common with the prime.
\<close>

theorem sb_rand_uniq_each_once:
  assumes "a \<le> b" and "- 2147483648 \<le> a" and "b < 2147483648" and "b - a < 2147483647"
    and "coprime (b - a + 1) 2147483647" and "uint (rnd_seed s) + (b - a + 1) * 2147483647 < 2 ^ 64"
  shows "\<exists>rs s'. uniqs (nat (b - a + 1)) a b s = Some (rs, s') \<and> distinct rs \<and> set rs = {a..b}"
proof -
  let ?m = "b - a + 1"
  let ?us = "map (\<lambda>i. (uint (rnd_seed s) + int i * 2147483647) mod ?m) [0..<nat ?m]"
  obtain s' where run: "uniqs (nat ?m) a b s = Some (map ((+) a) ?us, s')"
    using uniqs_run [OF assms(1-4), of s "nat ?m"] assms(1,6) by (auto simp: comp_def)
  have us: "distinct ?us" "set ?us = {0..<?m}"
    using progression_permutes [OF _ assms(5), of "uint (rnd_seed s)"] assms(1) by simp_all
  have "set (map ((+) a) ?us) = (+) a ` set ?us" by (simp only: set_map)
  also have "\<dots> = {a..b}" unfolding us(2) by (auto simp: image_iff intro!: bexI [of _ "_ - a"])
  finally have "set (map ((+) a) ?us) = {a..b}" .
  moreover have "distinct (map ((+) a) ?us)" unfolding distinct_map [of "(+) a"] using us(1) by (simp add: inj_on_def)
  ultimately show ?thesis using run by blast
qed

definition example_rng :: sb_rng where
  "example_rng = \<lparr>lrand48s = sconst 5, rnd_seed = LARGE_PRIME\<rparr>"

theorem sb_rand_uniq_each_once_witness:
  "\<exists>rs s'. uniqs 5 1 5 example_rng = Some (rs, s') \<and> distinct rs \<and> set rs = {1..5}"
proof -
  have "coprime (5 :: int) 2147483647" by code_simp
  then show ?thesis
    using sb_rand_uniq_each_once [of 1 5 example_rng] by (simp add: example_rng_def LARGE_PRIME_def)
qed

text \<open>
  Property C28. The three distributions on a range of \<open>int\<close>s stay in it, each under its own bounds. The uniform one
  does for every range of at most \<open>2 ^ 31 - 1\<close> numbers, and divides by zero for \<open>a = b + 1\<close>. The gaussian one
  does for \<open>a \<le> b\<close> when \<open>rand_iter\<close> is positive and the sum of as many numbers fits 32 bits. The special one does for
  \<open>a < b\<close> when, besides, 100 times the size of the range fits 32 bits, \<open>rand_pct\<close> is a percentage and
  \<open>rand_res\<close> one below 100. For \<open>a \<ge> b\<close> the special one returns 0, in the range or not, and draws no number.
\<close>

theorem sb_rand_ranges:
  assumes "- 2147483648 \<le> a" and "a < 2147483648" and "- 2147483648 \<le> b" and "b < 2147483648"
  shows "(a \<le> b \<and> b - a < 2147483647 \<longrightarrow>
      (\<exists>u us. sb_rand_uniform a b s = Some (u, us) \<and> a \<le> u \<and> u \<le> b)) \<and>
    (a = b + 1 \<longrightarrow> sb_rand_uniform a b s = None) \<and>
    (a \<le> b \<and> b - a < 4294967295 \<and> 0 < rand_iter opts \<and> rand_iter opts * (b - a) < 4294967296 \<longrightarrow>
      (\<exists>g gs. sb_rand_gaussian opts a b s = Some (g, gs) \<and> a \<le> g \<and> g \<le> b)) \<and>
    (a < b \<and> 0 < rand_iter opts \<and> rand_iter opts * (b - a) < 4294967296 \<and> (b - a + 1) * 100 < 4294967296 \<and>
      0 \<le> rand_pct opts \<and> rand_pct opts \<le> 100 \<and> 0 \<le> rand_res opts \<and> rand_res opts < 100 \<longrightarrow>
      (\<exists>p ps. sb_rand_special opts a b s = Some (p, ps) \<and> a \<le> p \<and> p \<le> b)) \<and>
    (a \<ge> b \<longrightarrow> sb_rand_special opts a b s = Some (0, s))"
proof (intro conjI impI)
  assume "a = b + 1"
  then show "sb_rand_uniform a b s = None" by (simp add: sb_rand_uniform_def c_int_id)
next
  assume "a \<ge> b"
  then show "sb_rand_special opts a b s = Some (0, s)" by (simp add: sb_rand_special_def)
qed (rule uniform_range gaussian_range special_range; use assms in simp)+

theorem sb_rand_ranges_witness:
  "\<exists>u us g gs p ps. sb_rand_uniform 1 100 example_rng = Some (u, us) \<and> 1 \<le> u \<and> u \<le> 100 \<and>
    sb_rand_gaussian \<lparr>rand_iter = 12, rand_pct = 1, rand_res = 75\<rparr> 1 100 example_rng = Some (g, gs) \<and>
      1 \<le> g \<and> g \<le> 100 \<and>
    sb_rand_special \<lparr>rand_iter = 12, rand_pct = 1, rand_res = 75\<rparr> 1 100 example_rng = Some (p, ps) \<and>
      1 \<le> p \<and> p \<le> 100"
  using sb_rand_ranges [of 1 100 example_rng "\<lparr>rand_iter = 12, rand_pct = 1, rand_res = 75\<rparr>"] by simp

end
