(* ===== verification/SbTests.thy ===== *)
theory SbTests
  imports SbCpu SbRandom
begin

text \<open>
  The tests of sysbench that use threads, mutexes and memory: \<^verbatim>\<open>tests/threads/sb_threads.c\<close>,
  \<^verbatim>\<open>tests/mutex/sb_mutex.c\<close> and \<^verbatim>\<open>tests/memory/sb_memory.c\<close> (directory
  \<^verbatim>\<open>tokudb/software/sysbench/sysbench-0.5-rate-limited/sysbench\<close>). The calls of the thread library are
  events; allocation succeeds or not as a parameter says. Each function runs alone: those that
  hand out requests hold the mutex of the program, and the requests of different threads touch
  the shared data only between a lock and an unlock. The event log, huge pages and the text of
  the reports are not modelled.
\<close>

datatype sync = Lock nat | Unlock nat | Yield | Increment

section \<open>Threads\<close>

record threads_state =
  thread_yields :: nat
  thread_locks :: nat
  threads_performed :: nat

definition threads_init :: "option_list \<Rightarrow> threads_state \<Rightarrow> threads_state option" where
  "threads_init opts s =
     (case sb_get_value_int ''thread-yields'' opts of None \<Rightarrow> None
      | Some yields \<Rightarrow> (case sb_get_value_int ''thread-locks'' opts of None \<Rightarrow> None
      | Some locks \<Rightarrow> Some (s\<lparr>thread_yields := nat (c_uint yields), thread_locks := nat (c_uint locks),
          threads_performed := 0\<rparr>)))"

text \<open>
  The lock of the next request, \<open>Some None\<close> when all are done; \<open>None\<close> is the division by zero without
  locks. The counter has 32 bits, but \<open>max_requests\<close> stops it before it wraps.
\<close>

definition threads_get_request :: "nat \<Rightarrow> threads_state \<Rightarrow> (nat option \<times> threads_state) option" where
  "threads_get_request max_requests s =
     (if threads_performed s \<ge> max_requests then Some (None, s)
      else if thread_locks s = 0 then None
      else Some (Some (threads_performed s mod thread_locks s), s\<lparr>threads_performed := threads_performed s + 1\<rparr>))"

definition threads_execute_request :: "nat \<Rightarrow> threads_state \<Rightarrow> sync list" where
  "threads_execute_request lock_num s = concat (replicate (thread_yields s) [Lock lock_num, Yield, Unlock lock_num])"

section \<open>Mutexes\<close>

record mutex_state =
  mutex_num :: nat
  mutex_loops :: nat
  mutex_locks :: "32 word"
  global_var :: "32 word"

definition mutex_init :: "option_list \<Rightarrow> mutex_state \<Rightarrow> mutex_state option" where
  "mutex_init opts s =
     (case sb_get_value_int ''mutex-num'' opts of None \<Rightarrow> None
      | Some num \<Rightarrow> (case sb_get_value_int ''mutex-loops'' opts of None \<Rightarrow> None
      | Some loops \<Rightarrow> (case sb_get_value_int ''mutex-locks'' opts of None \<Rightarrow> None
      | Some locks \<Rightarrow> Some (s\<lparr>mutex_num := nat (c_uint num), mutex_loops := nat (c_uint loops),
          mutex_locks := word_of_int locks\<rparr>))))"

text \<open>
  The loop with its test at the end, on an unsigned counter. \<open>rands\<close> is what \<open>rand\<close> returns; \<open>None\<close>
  is fuel used up, or the division by zero without mutexes.
\<close>

fun mutex_loop :: "nat \<Rightarrow> 32 word \<Rightarrow> 32 word \<Rightarrow> nat stream \<Rightarrow> mutex_state \<Rightarrow> (sync list \<times> mutex_state) option" where
  "mutex_loop 0 nlocks c rands s = None"
| "mutex_loop (Suc fuel) nlocks c rands s =
     (if mutex_num s = 0 then None
      else let current_lock = shd rands mod mutex_num s;
               c = c + word_of_nat (mutex_loops s);
               s = s\<lparr>global_var := global_var s + 1\<rparr>;
               es = [Lock current_lock, Increment, Unlock current_lock];
               nlocks = nlocks - 1
      in if nlocks > 0 then map_option (\<lambda>(fs, s). (es @ fs, s)) (mutex_loop fuel nlocks c (stl rands) s)
         else Some (es, s))"

definition mutex_execute_request :: "nat \<Rightarrow> nat stream \<Rightarrow> mutex_state \<Rightarrow> (sync list \<times> mutex_state) option" where
  "mutex_execute_request fuel rands s = mutex_loop fuel (mutex_locks s) 0 rands s"

section \<open>Memory\<close>

datatype mem_op = Mem_None | Mem_Read | Mem_Write

datatype mem_scope = Scope_Global | Scope_Local

record memory_state =
  block_size :: int
  total_size :: int
  mem_scope :: mem_scope
  mem_oper :: mem_op
  access_rnd :: bool
  buffers :: "int list list"
  total_ops :: "32 word"
  total_bytes :: int
  last_bytes :: int

text \<open>A 64-bit value as \<open>ssize_t\<close> or \<open>off_t\<close>.\<close>

definition as_signed :: "64 word \<Rightarrow> int" where
  "as_signed w = sint w"

text \<open>
  True is the return value 1. \<open>can_alloc\<close>: the allocations succeed. With the global scope there is one
  buffer, else one for each of \<open>num_threads\<close>, of \<open>int\<close>s set to 0. \<open>None\<close> is the crash of \<open>strcmp\<close> on
  an option without a value.
\<close>

definition memory_init :: "(int \<Rightarrow> bool) \<Rightarrow> nat \<Rightarrow> option_list \<Rightarrow> memory_state \<Rightarrow> (bool \<times> memory_state) option" where
  "memory_init can_alloc num_threads opts s =
     (let s = s\<lparr>block_size := as_signed (sb_get_value_size ''memory-block-size'' opts)\<rparr> in
      if block_size s mod 4 \<noteq> 0 then Some (True, s)
      else let s = s\<lparr>total_size := as_signed (sb_get_value_size ''memory-total-size'' opts)\<rparr> in
      case sb_get_value_string ''memory-scope'' opts of None \<Rightarrow> None | Some scope \<Rightarrow>
      if scope \<noteq> ''global'' \<and> scope \<noteq> ''local'' then Some (True, s)
      else let s = s\<lparr>mem_scope := if scope = ''global'' then Scope_Global else Scope_Local\<rparr> in
      case sb_get_value_string ''memory-oper'' opts of None \<Rightarrow> None | Some oper \<Rightarrow>
      if oper \<noteq> ''write'' \<and> oper \<noteq> ''read'' \<and> oper \<noteq> ''none'' then Some (True, s)
      else let s = s\<lparr>mem_oper := if oper = ''write'' then Mem_Write
                     else if oper = ''read'' then Mem_Read else Mem_None\<rparr> in
      case sb_get_value_string ''memory-access-mode'' opts of None \<Rightarrow> None | Some mode \<Rightarrow>
      if mode \<noteq> ''seq'' \<and> mode \<noteq> ''rnd'' then Some (True, s)
      else let s = s\<lparr>access_rnd := (mode = ''rnd'')\<rparr>;
               n = (case mem_scope s of Scope_Global \<Rightarrow> 1 | Scope_Local \<Rightarrow> num_threads) in
      if \<not> can_alloc (block_size s) then Some (True, s)
      else Some (False, s\<lparr>buffers := replicate n (replicate (nat (block_size s div 4)) 0)\<rparr>))"

definition memory_get_request :: "memory_state \<Rightarrow> bool \<times> memory_state" where
  "memory_get_request s =
     (if total_bytes s \<ge> total_size s then (False, s)
      else (True, s\<lparr>total_ops := total_ops s + 1,
               total_bytes := as_signed (word_of_int (total_bytes s + block_size s))\<rparr>))"

text \<open>The element that the random mode accesses, computed in \<open>double\<close> and converted to \<open>int\<close>.\<close>

definition rnd_index :: "int \<Rightarrow> int \<Rightarrow> int" where
  "rnd_index rand bytes = dbl_to_int (f64 (f64 (of_int rand / of_int SB_MAX_RND) * f64 (of_int (bytes div 4))))"

text \<open>An assignment of 0; outside the buffer it changes memory that is not modelled.\<close>

definition write_elem :: "int \<Rightarrow> int list \<Rightarrow> int list" where
  "write_elem i buf = (if 0 \<le> i \<and> i < int (length buf) then buf[nat i := 0] else buf)"

text \<open>
  One request: the return value (True for an unknown type), the elements accessed, one for each round
  of the loop, and the new buffer. The random number is drawn once, before the loop.
\<close>

definition access_block :: "bool \<Rightarrow> mem_op \<Rightarrow> int \<Rightarrow> int \<Rightarrow> int list \<Rightarrow> bool \<times> int list \<times> int list" where
  "access_block rnd oper rand bytes buf =
     (if rnd then
        (case oper of
           Mem_None \<Rightarrow> (True, [], buf)
         | Mem_Write \<Rightarrow> (False, map (\<lambda>_. rnd_index rand bytes) [0..bytes - 1],
             fold (\<lambda>_. write_elem (rnd_index rand bytes)) [0..bytes - 1] buf)
         | Mem_Read \<Rightarrow> (False, map (\<lambda>_. rnd_index rand bytes) [0..bytes - 1], buf))
      else
        (case oper of
           Mem_None \<Rightarrow> (False, [], buf)
         | Mem_Write \<Rightarrow> (False, [0..bytes div 4 - 1], fold write_elem [0..bytes div 4 - 1] buf)
         | Mem_Read \<Rightarrow> (False, [0..bytes div 4 - 1], buf)))"

definition memory_execute_request :: "nat \<Rightarrow> sb_rng \<Rightarrow> memory_state \<Rightarrow>
    (bool \<times> int list) \<times> sb_rng \<times> memory_state" where
  "memory_execute_request thread_id r s =
     (let i = (case mem_scope s of Scope_Global \<Rightarrow> 0 | Scope_Local \<Rightarrow> thread_id);
          (rand, r) = (if access_rnd s then sb_rnd r else (0, r));
          (rc, is, buf) = access_block (access_rnd s) (mem_oper s) rand (block_size s) (buffers s ! i)
      in ((rc, is), r, s\<lparr>buffers := (buffers s)[i := buf]\<rparr>))"

text \<open>What the reports compute from, the bytes of the interval and of the whole test; and the reset.\<close>

definition memory_interval :: "memory_state \<Rightarrow> int \<times> memory_state" where
  "memory_interval s = (total_bytes s - last_bytes s, s\<lparr>last_bytes := total_bytes s\<rparr>)"

definition memory_cumulative :: "memory_state \<Rightarrow> (32 word \<times> int) \<times> memory_state" where
  "memory_cumulative s = ((total_ops s, total_bytes s), s\<lparr>total_ops := 0, total_bytes := 0\<rparr>)"

section \<open>Lemmas: handing out requests\<close>

text \<open>The requests that \<open>n\<close> calls hand out, whichever threads make them.\<close>

fun threads_requests :: "nat \<Rightarrow> nat \<Rightarrow> threads_state \<Rightarrow> (nat option list \<times> threads_state) option" where
  "threads_requests 0 max_requests s = Some ([], s)"
| "threads_requests (Suc n) max_requests s = (case threads_get_request max_requests s of
     None \<Rightarrow> None
   | Some (r, s) \<Rightarrow> map_option (\<lambda>(rs, s). (r # rs, s)) (threads_requests n max_requests s))"

lemma threads_requests_run:
  assumes "0 < thread_locks s" and "threads_performed s + n \<le> max_requests"
  shows "\<exists>s'. threads_requests n max_requests s = Some (map (\<lambda>k. Some (k mod thread_locks s)) [threads_performed s..<threads_performed s + n], s')"
  using assms
proof (induction n arbitrary: s)
  case (Suc n)
  let ?s = "s\<lparr>threads_performed := threads_performed s + 1\<rparr>"
  from Suc.IH [of ?s] Suc.prems obtain s' where "threads_requests n max_requests ?s = Some (map (\<lambda>k. Some (k mod thread_locks s)) [threads_performed s + 1..<threads_performed s + 1 + n], s')" by auto
  then show ?case
    using Suc.prems by (simp add: threads_get_request_def upt_conv_Cons [of "threads_performed s"] del: upt_Suc)
qed simp

fun memory_requests :: "nat \<Rightarrow> memory_state \<Rightarrow> bool list" where
  "memory_requests 0 s = []"
| "memory_requests (Suc n) s = (case memory_get_request s of (r, s) \<Rightarrow> r # memory_requests n s)"

lemma as_signed_id: "- (2 ^ 63) \<le> n \<Longrightarrow> n < 2 ^ 63 \<Longrightarrow> as_signed (word_of_int n) = n"
  unfolding as_signed_def sint_sbintrunc' by (intro signed_take_bit_int_eq_self) simp_all

lemma memory_requests_run:
  assumes "0 \<le> total_bytes s" and "0 \<le> block_size s" and "total_size s + block_size s < 2 ^ 63"
  shows "memory_requests n s = map (\<lambda>k. total_bytes s + int k * block_size s < total_size s) [0..<n]"
  using assms
proof (induction n arbitrary: s)
  case (Suc n)
  show ?case
  proof (cases "total_bytes s < total_size s")
    case True
    let ?s = "snd (memory_get_request s)"
    have s: "fst (memory_get_request s)" "total_bytes ?s = total_bytes s + block_size s"
      "block_size ?s = block_size s" "total_size ?s = total_size s"
      using True Suc.prems as_signed_id [of "total_bytes s + block_size s"]
      by (simp_all add: memory_get_request_def)
    from Suc.IH [of ?s] Suc.prems s show ?thesis
      by (simp add: case_prod_beta map_upt_Suc True algebra_simps del: upt_Suc)
  next
    case False
    then have "\<not> total_bytes s + int k * block_size s < total_size s" for k
      using Suc.prems(2) by (simp add: not_less add_increasing2)
    moreover have "memory_get_request s = (False, s)" using False by (simp add: memory_get_request_def)
    ultimately show ?thesis using Suc.IH [of s] Suc.prems by (simp add: map_upt_Suc del: upt_Suc)
  qed
qed simp

section \<open>Lemmas: the mutex test\<close>

text \<open>Increments under a mutex, one after the other.\<close>

fun increments :: "nat \<Rightarrow> sync list \<Rightarrow> nat option" where
  "increments num [] = Some 0"
| "increments num (Lock i # Increment # Unlock j # es) =
     (if i = j \<and> i < num then map_option Suc (increments num es) else None)"
| "increments num es = None"

lemma mutex_loop_run:
  assumes "0 < mutex_num s" and "k < fuel" and "nlocks = word_of_nat (k + 1)" and "k < 2 ^ 32"
  shows "\<exists>es t. mutex_loop fuel nlocks c rands s = Some (es, t) \<and> increments (mutex_num s) es = Some (k + 1) \<and>
    global_var t = global_var s + nlocks"
  using assms
proof (induction fuel arbitrary: k nlocks c rands s)
  case (Suc fuel)
  let ?s = "s\<lparr>global_var := global_var s + 1\<rparr>"
  have m: "shd rands mod mutex_num s < mutex_num s" using Suc.prems(1) by simp
  have n: "nlocks - 1 = word_of_nat k" using Suc.prems(3) by simp
  have "unat (nlocks - 1) = k" unfolding n using Suc.prems(4) by (simp add: unat_of_nat)
  then have pos: "nlocks - 1 > 0 \<longleftrightarrow> 0 < k" by (metis unat_gt_0 word_gt_0)
  show ?case
  proof (cases k)
    case 0
    with Suc.prems m pos show ?thesis by (simp add: Let_def)
  next
    case (Suc j)
    then obtain es t where "mutex_loop fuel (nlocks - 1) (c + word_of_nat (mutex_loops s)) (stl rands) ?s = Some (es, t)"
      "increments (mutex_num s) es = Some (j + 1)" "global_var t = global_var ?s + (nlocks - 1)"
      using Suc.IH [of ?s j "nlocks - 1" "c + word_of_nat (mutex_loops s)" "stl rands"] Suc.prems n Suc
      by (auto simp: algebra_simps)
    with Suc.prems(1) m pos Suc show ?thesis by (simp add: Let_def)
  qed
qed simp

text \<open>The number of locks as the counter of the loop sees it: 0 stands for \<open>2 ^ 32\<close>.\<close>

lemma locks_as_count:
  obtains k where "k < 2 ^ 32" and "mutex_locks s = word_of_nat (k + 1)"
    and "k + 1 = (if mutex_locks s = 0 then 2 ^ 32 else unat (mutex_locks s))"
proof (cases "mutex_locks s = 0")
  case True
  have "(word_of_nat (2 ^ 32) :: 32 word) = 0" by simp
  with True show thesis by (intro that [of "2 ^ 32 - 1"]) simp_all
next
  case False
  then have "0 < unat (mutex_locks s)" by (simp add: unat_gt_0)
  moreover have "unat (mutex_locks s) < 2 ^ 32" using unsigned_less [of "mutex_locks s", where 'a = nat] by simp
  ultimately show thesis using False by (intro that [of "unat (mutex_locks s) - 1"]) simp_all
qed

lemma mutex_request_run:
  assumes "0 < mutex_num s" and "2 ^ 32 \<le> fuel"
  shows "\<exists>es t. mutex_execute_request fuel rands s = Some (es, t)"
proof -
  from locks_as_count obtain k where k: "k < 2 ^ 32" "mutex_locks s = word_of_nat (k + 1)" .
  from mutex_loop_run [OF assms(1) less_le_trans [OF k(1) assms(2)] k(2) k(1)]
  show ?thesis unfolding mutex_execute_request_def by blast
qed

section \<open>Lemmas: the random element\<close>

lemma rnd_index_range:
  assumes "0 \<le> rand" and "rand < SB_MAX_RND" and "0 < n" and "n \<le> 2147483648"
  shows "0 \<le> rnd_index rand (4 * int n) \<and> rnd_index rand (4 * int n) < int n"
proof -
  let ?q = "of_int rand / of_int SB_MAX_RND :: rat"
  have q: "0 \<le> ?q" "?q \<le> 1 - 1 / 1073741823" using assms(1,2) by (simp_all add: SB_MAX_RND_def field_simps)
  have fq: "0 \<le> f64 ?q" "f64 ?q \<le> ?q + 1 / 2 ^ 53"
    using f64_close [of ?q 1] q f64_sign(1) [of ?q] by simp_all
  then have fq': "f64 ?q \<le> 1 - 1 / 2 ^ 31" using q(2) by simp
  let ?y = "f64 ?q * of_nat n"
  have "?y \<le> (1 - 1 / 2 ^ 31) * of_nat n" using fq' by (intro mult_right_mono) simp_all
  then have y: "0 \<le> ?y" "?y \<le> of_nat n - of_nat n / 2 ^ 31" using fq(1) by (simp_all add: algebra_simps)
  moreover have "(0 :: rat) < of_nat n / 2 ^ 31" "of_nat n / 2 ^ 53 < (of_nat n / 2 ^ 31 :: rat)" using assms(3) by (simp_all add: field_simps)
  ultimately have fy: "0 \<le> f64 ?y" "f64 ?y < of_nat n"
    using f64_close [of ?y n] f64_sign(1) [of ?y] assms(3) by linarith+
  have n: "f64 (of_int (4 * int n div 4)) = of_nat n" using f64_of_int [of "int n"] assms(4) by simp
  have "(of_nat n :: rat) \<le> of_nat 2147483648" using assms(4) by (simp only: of_nat_le_iff)
  then have "f64 ?y < 2147483648" using fy(2) by simp
  note conv = dbl_to_int_range [OF fy(1) this]
  have "\<lfloor>f64 ?y\<rfloor> < int n" using fy(2) by (simp add: floor_less_iff)
  with conv show ?thesis unfolding rnd_index_def n by simp
qed

text \<open>With larger blocks the conversion fails: here for one of 16 gigabytes and the largest random number.\<close>

lemma rnd_index_overflows: "rnd_index (SB_MAX_RND - 1) (2 ^ 34) = - 2147483648"
  by code_simp

text \<open>The requests of several threads, with the elements that each accesses.\<close>

fun memory_executes :: "nat list \<Rightarrow> sb_rng \<Rightarrow> memory_state \<Rightarrow> int list list \<times> memory_state" where
  "memory_executes [] r s = ([], s)"
| "memory_executes (thread_id # ids) r s = (case memory_execute_request thread_id r s of
     ((rc, is), r, s) \<Rightarrow> (case memory_executes ids r s of (accesses, s) \<Rightarrow> (is # accesses, s)))"

text \<open>The buffers as they are allocated: \<open>n\<close> elements, all 0.\<close>

definition buffers_ok :: "nat \<Rightarrow> nat \<Rightarrow> memory_state \<Rightarrow> bool" where
  "buffers_ok num_threads n s \<longleftrightarrow> block_size s = 4 * int n \<and>
     buffers s = replicate (case mem_scope s of Scope_Global \<Rightarrow> 1 | Scope_Local \<Rightarrow> num_threads) (replicate n 0)"

lemma memory_init_ok:
  assumes "memory_init can_alloc num_threads opts s0 = Some (False, s)" and "0 \<le> block_size s"
  shows "buffers_ok num_threads (nat (block_size s div 4)) s"
  using assms by (auto simp: memory_init_def buffers_ok_def Let_def split: if_splits option.splits)

lemma write_zero: "write_elem i (replicate n 0) = replicate n 0"
proof (rule nth_equalityI)
  fix j assume "j < length (write_elem i (replicate n 0))"
  then show "write_elem i (replicate n 0) ! j = replicate n 0 ! j"
    by (cases "j = nat i") (simp_all add: write_elem_def split: if_splits)
qed (simp add: write_elem_def)

lemma write_zeros: "fold write_elem is (replicate n 0) = replicate n 0"
  "fold (\<lambda>_. write_elem i) is (replicate n 0) = replicate n 0"
  by (induction "is") (simp_all add: write_zero)

lemma access_block_ok:
  assumes "rnd \<Longrightarrow> n \<le> 2147483648" and "0 \<le> rand" and "rand < SB_MAX_RND"
    and "access_block rnd oper rand (4 * int n) (replicate n 0) = (rc, is, buf)"
  shows "set is \<subseteq> {0..<int n} \<and> buf = replicate n 0 \<and> (\<not> rnd \<and> oper \<noteq> Mem_None \<longrightarrow> is = [0..int n - 1])"
  using assms rnd_index_range [OF assms(2,3), of n]
  by (cases oper; cases "n = 0") (auto simp: access_block_def write_zeros split: if_splits)

lemma memory_execute_ok:
  assumes "buffers_ok num_threads n s" and "thread_id < num_threads" and "access_rnd s \<Longrightarrow> n \<le> 2147483648"
    and "memory_execute_request thread_id r s = ((rc, is), r', t)"
  shows "set is \<subseteq> {0..<int n} \<and> t = s \<and> (\<not> access_rnd s \<and> mem_oper s \<noteq> Mem_None \<longrightarrow> is = [0..int n - 1])"
proof -
  define i where "i = (case mem_scope s of Scope_Global \<Rightarrow> 0 | Scope_Local \<Rightarrow> thread_id)"
  define rand where "rand = (if access_rnd s then fst (sb_rnd r) else 0)"
  have rand: "0 \<le> rand" "rand < SB_MAX_RND"
    using sb_rnd_range [of r] by (auto simp: rand_def SB_MAX_RND_def prod_eq_iff)
  obtain rc' "is'" buf where run: "access_block (access_rnd s) (mem_oper s) rand (block_size s) (buffers s ! i) = (rc', is', buf)"
    by (metis prod_cases3)
  have b: "block_size s = 4 * int n" "i < length (buffers s)" "buffers s ! i = replicate n 0"
    using assms(1,2) by (auto simp: buffers_ok_def i_def split: mem_scope.splits)
  from access_block_ok [OF assms(3) rand run [unfolded b(1,3)]]
  have acc: "set is' \<subseteq> {0..<int n}" "buf = replicate n 0"
    "\<not> access_rnd s \<and> mem_oper s \<noteq> Mem_None \<Longrightarrow> is' = [0..int n - 1]" by auto
  have same: "(buffers s)[i := buf] = buffers s" using b(3) acc(2) by (metis list_update_id)
  from assms(4) run have "is = is'" "t = s\<lparr>buffers := (buffers s)[i := buf]\<rparr>"
    unfolding memory_execute_request_def i_def [symmetric] Let_def
    by (auto simp: rand_def split: prod.splits if_splits)
  with acc(1,3) same show ?thesis by simp
qed

lemma memory_executes_ok:
  assumes "buffers_ok num_threads n s" and "access_rnd s \<longrightarrow> n \<le> 2147483648" and "\<forall>i \<in> set ids. i < num_threads"
    and "memory_executes ids r s = (accesses, t)"
  shows "length accesses = length ids \<and> t = s \<and> (\<forall>is \<in> set accesses. set is \<subseteq> {0..<int n} \<and>
    (\<not> access_rnd s \<and> mem_oper s \<noteq> Mem_None \<longrightarrow> is = [0..int n - 1]))"
  using assms
proof (induction ids arbitrary: r accesses t)
  case (Cons i ids)
  obtain rc "is" r' t' where one: "memory_execute_request i r s = ((rc, is), r', t')" by (metis prod_cases3 surj_pair)
  obtain as t2 where rest: "memory_executes ids r' t' = (as, t2)" by (metis surj_pair)
  have ok: "set is \<subseteq> {0..<int n}" "t' = s" "\<not> access_rnd s \<and> mem_oper s \<noteq> Mem_None \<longrightarrow> is = [0..int n - 1]"
    using memory_execute_ok [OF Cons.prems(1) _ _ one] Cons.prems(2,3) by simp_all
  have ids: "\<forall>i \<in> set ids. i < num_threads" using Cons.prems(3) by simp
  have "accesses = is # as" "t = t2" using Cons.prems(4) one rest by simp_all
  with Cons.IH [OF Cons.prems(1,2) ids rest [unfolded ok(2)]] ok(1,3) show ?case by simp
qed simp

section \<open>Properties\<close>

text \<open>
  Property C30. Whatever threads execute whatever requests after the initialisation of the memory
  test, every element accessed lies in the buffer of the block size, and the buffers stay as allocated: in the random
  mode, whose element is computed in \<open>double\<close> and converted to \<open>int\<close>, for blocks of at most \<open>2 ^ 33\<close> bytes, and
  in the sequential one for all. The sequential modes access every element once, in order.
\<close>

theorem memory_stays_in_buffer:
  assumes "memory_init can_alloc num_threads opts s0 = Some (False, s)"
    and "0 \<le> block_size s" and "access_rnd s \<longrightarrow> block_size s \<le> 2 ^ 33" and "\<forall>i \<in> set ids. i < num_threads"
    and "memory_executes ids r s = (accesses, t)"
  shows "length accesses = length ids \<and> buffers t = buffers s \<and>
    (\<forall>buf \<in> set (buffers s). int (length buf) * 4 = block_size s) \<and>
    (\<forall>is \<in> set accesses. (\<forall>i \<in> set is. 0 \<le> i \<and> i < block_size s div 4) \<and>
      (\<not> access_rnd s \<and> mem_oper s \<noteq> Mem_None \<longrightarrow> is = [0..block_size s div 4 - 1]))"
proof -
  let ?n = "nat (block_size s div 4)"
  have ok: "buffers_ok num_threads ?n s" by (rule memory_init_ok [OF assms(1,2)])
  moreover have "access_rnd s \<longrightarrow> ?n \<le> 2147483648" using assms(3) by auto
  ultimately have run: "length accesses = length ids \<and> t = s \<and> (\<forall>is \<in> set accesses. set is \<subseteq> {0..<int ?n} \<and>
      (\<not> access_rnd s \<and> mem_oper s \<noteq> Mem_None \<longrightarrow> is = [0..int ?n - 1]))"
    using assms(4,5) by (rule memory_executes_ok)
  have n: "int ?n = block_size s div 4" "4 * int ?n = block_size s"
    using ok assms(2) by (simp_all add: buffers_ok_def)
  have "int (length buf) * 4 = block_size s" if "buf \<in> set (buffers s)" for buf
    using that ok n(2) by (auto simp: buffers_ok_def)
  moreover have "0 \<le> i \<and> i < int ?n" if "is \<in> set accesses" "i \<in> set is" for "is" i
    using run that by (meson atLeastLessThan_iff subsetD)
  ultimately show ?thesis using run unfolding n(1) by simp
qed

definition memory_options :: "string \<Rightarrow> option_list" where
  "memory_options mode = snd (sb_register_arg_set
     [\<lparr>arg_name = ''memory-block-size'', arg_type = Arg_Size, arg_value = Some ''8''\<rparr>,
      \<lparr>arg_name = ''memory-total-size'', arg_type = Arg_Size, arg_value = Some ''100G''\<rparr>,
      \<lparr>arg_name = ''memory-scope'', arg_type = Arg_String, arg_value = Some ''local''\<rparr>,
      \<lparr>arg_name = ''memory-oper'', arg_type = Arg_String, arg_value = Some ''write''\<rparr>,
      \<lparr>arg_name = ''memory-access-mode'', arg_type = Arg_String, arg_value = Some mode\<rparr>] [])"

definition memory_before :: memory_state where
  "memory_before = \<lparr>block_size = 0, total_size = 0, mem_scope = Scope_Global, mem_oper = Mem_None,
     access_rnd = False, buffers = [], total_ops = 0, total_bytes = 0, last_bytes = 0\<rparr>"

definition memory_after :: "bool \<Rightarrow> memory_state" where
  "memory_after rnd = \<lparr>block_size = 8, total_size = 107374182400, mem_scope = Scope_Local, mem_oper = Mem_Write,
     access_rnd = rnd, buffers = [[0, 0], [0, 0]], total_ops = 0, total_bytes = 0, last_bytes = 0\<rparr>"

lemma memory_init_example:
  "memory_init (\<lambda>_. True) 2 (memory_options ''seq'') memory_before = Some (False, memory_after False)"
  "memory_init (\<lambda>_. True) 2 (memory_options ''rnd'') memory_before = Some (False, memory_after True)"
  by code_simp+

text \<open>Both threads execute a request, in either mode.\<close>

theorem memory_stays_in_buffer_witness:
  "(\<exists>accesses t. memory_executes [1, 0] example_rng (memory_after False) = (accesses, t) \<and> length accesses = 2 \<and>
     (\<forall>is \<in> set accesses. is = [0, 1])) \<and>
   (\<exists>accesses t. memory_executes [1, 0] example_rng (memory_after True) = (accesses, t) \<and> length accesses = 2 \<and>
     (\<forall>is \<in> set accesses. \<forall>i \<in> set is. 0 \<le> i \<and> i < 2))"
proof
  obtain accesses t where run: "memory_executes [1, 0] example_rng (memory_after False) = (accesses, t)" by (metis surj_pair)
  have "length accesses = 2 \<and> (\<forall>is \<in> set accesses. is = [0..1])"
    using memory_stays_in_buffer [OF memory_init_example(1) _ _ _ run] by (simp add: memory_after_def)
  moreover have "[0..1] = [0, 1 :: int]" by code_simp
  ultimately show "\<exists>accesses t. memory_executes [1, 0] example_rng (memory_after False) = (accesses, t) \<and>
      length accesses = 2 \<and> (\<forall>is \<in> set accesses. is = [0, 1])" using run by auto
next
  obtain accesses t where run: "memory_executes [1, 0] example_rng (memory_after True) = (accesses, t)" by (metis surj_pair)
  then show "\<exists>accesses t. memory_executes [1, 0] example_rng (memory_after True) = (accesses, t) \<and> length accesses = 2 \<and>
      (\<forall>is \<in> set accesses. \<forall>i \<in> set is. 0 \<le> i \<and> i < 2)"
    using memory_stays_in_buffer [OF memory_init_example(2) _ _ _ run] by (simp add: memory_after_def)
qed

text \<open>
  The memory test hands out requests as long as fewer bytes than the total are handed
  out, so exactly as many as blocks are needed to cover it, and then none; with blocks of 0 bytes
  and a positive total it never stops.
\<close>

theorem memory_requests_cover:
  assumes "total_bytes s = 0" and "0 \<le> block_size s" and "total_size s + block_size s < 2 ^ 63"
  shows "memory_requests n s = map (\<lambda>k. int k * block_size s < total_size s) [0..<n] \<and>
    (block_size s = 0 \<and> 0 < total_size s \<longrightarrow> memory_requests n s = replicate n True)"
  using memory_requests_run [of s n] assms by (simp add: map_replicate_const)

theorem memory_requests_cover_witness:
  "memory_requests 4 \<lparr>block_size = 1024, total_size = 3000, mem_scope = Scope_Global, mem_oper = Mem_Read,
     access_rnd = False, buffers = [], total_ops = 0, total_bytes = 0, last_bytes = 0\<rparr> = [True, True, True, False]"
  using memory_requests_cover [of "\<lparr>block_size = 1024, total_size = 3000, mem_scope = Scope_Global,
     mem_oper = Mem_Read, access_rnd = False, buffers = [], total_ops = 0, total_bytes = 0, last_bytes = 0\<rparr>" 4]
  by (simp add: upt_rec)

text \<open>
  Property C31. A request of the mutex test ends, and has taken mutexes in range, one at a time, and
  incremented the shared counter under each, as often as asked; but \<open>2 ^ 32\<close> times when asked for none,
  since the test of the unsigned counter comes after its decrement.
\<close>

theorem mutex_request_ends:
  assumes "0 < mutex_num s" and "2 ^ 32 \<le> fuel"
  shows "\<exists>es t. mutex_execute_request fuel rands s = Some (es, t) \<and>
    increments (mutex_num s) es = Some (if mutex_locks s = 0 then 2 ^ 32 else unat (mutex_locks s)) \<and>
    global_var t = global_var s + mutex_locks s"
proof -
  from locks_as_count obtain k where k: "k < 2 ^ 32" "mutex_locks s = word_of_nat (k + 1)"
    "k + 1 = (if mutex_locks s = 0 then 2 ^ 32 else unat (mutex_locks s))" .
  note mutex_loop_run [OF assms(1) less_le_trans [OF k(1) assms(2)] k(2) k(1)]
  then show ?thesis unfolding mutex_execute_request_def k(3) [symmetric] by blast
qed

text \<open>
  The requests of the threads test use the locks in turn, so with as many requests
  as a multiple of the number of locks each lock is used equally often.
\<close>

theorem threads_use_locks_in_turn:
  assumes "0 < thread_locks s" and "threads_performed s = 0" and "n \<le> max_requests"
  shows "\<exists>t. threads_requests n max_requests s = Some (map (\<lambda>k. Some (k mod thread_locks s)) [0..<n], t)"
  using threads_requests_run [of s n max_requests] assms by simp

theorem mutex_request_ends_witness:
  "\<exists>es t. mutex_execute_request (2 ^ 32) (sconst 5) \<lparr>mutex_num = 2, mutex_loops = 1, mutex_locks = 3, global_var = 0\<rparr> =
      Some (es, t) \<and> increments 2 es = Some 3"
  using mutex_request_ends [of "\<lparr>mutex_num = 2, mutex_loops = 1, mutex_locks = 3, global_var = 0\<rparr>" "2 ^ 32" "sconst 5"]
  by auto

theorem threads_use_locks_in_turn_witness:
  "\<exists>t. threads_requests 4 10 \<lparr>thread_yields = 1, thread_locks = 2, threads_performed = 0\<rparr> =
    Some ([Some 0, Some 1, Some 0, Some 1], t)"
  using threads_use_locks_in_turn [of "\<lparr>thread_yields = 1, thread_locks = 2, threads_performed = 0\<rparr>" 4 10]
  by (simp add: upt_rec)

end
