(* ===== verification/SbRunner.thy ===== *)
theory SbRunner
  imports SbTests SbDb
begin

text \<open>
  The threads of sysbench, \<^verbatim>\<open>runner_thread\<close>, \<^verbatim>\<open>report_thread_proc\<close> and \<^verbatim>\<open>checkpoints_thread_proc\<close>
  of \<^verbatim>\<open>sysbench.c\<close> (directory \<^verbatim>\<open>tokudb/software/sysbench/sysbench-0.5-rate-limited/sysbench\<close>). A
  test is its table of operations on a state of its own, which may contain what other threads do; a
  pointer of the table that is NULL is \<open>None\<close>. What the timers show is a stream, and so is what the thread
  reads of the global error flag. The barrier at the start and the messages are not modelled. The
  loops have fuel: the rate limit may hold a thread for ever, and then any fuel is used up.
\<close>

section \<open>Operations of a test\<close>

record ('r, 's) operations =
  op_thread_init :: "(nat \<Rightarrow> 's \<Rightarrow> bool \<times> 's) option"
  op_get_request :: "('s \<Rightarrow> 'r option \<times> 's) option"
  op_execute_request :: "('r \<Rightarrow> nat \<Rightarrow> 's \<Rightarrow> (bool \<times> 's) option) option"
  op_thread_done :: "(nat \<Rightarrow> 's \<Rightarrow> 's) option"
  op_get_tps :: "('s \<Rightarrow> rat \<times> 's) option"

text \<open>
  Without the pointers there is no request, and a request fails. \<open>None\<close> is a request that does
  not return.
\<close>

definition get_request :: "('r, 's) operations \<Rightarrow> 's \<Rightarrow> 'r option \<times> 's" where
  "get_request ops st = (case op_get_request ops of None \<Rightarrow> (None, st) | Some f \<Rightarrow> f st)"

definition execute_request :: "('r, 's) operations \<Rightarrow> 'r \<Rightarrow> nat \<Rightarrow> 's \<Rightarrow> (bool \<times> 's) option" where
  "execute_request ops r tid st =
     (case op_execute_request ops of None \<Rightarrow> Some (True, st) | Some f \<Rightarrow> f r tid st)"

section \<open>The threads that execute requests\<close>

text \<open>\<open>executed\<close> and \<open>pauses\<close> count the requests executed and the calls of \<open>usleep\<close>.\<close>

record 's runner =
  test_state :: 's
  nanos :: "64 word stream"
  error_reads :: "bool stream"
  sb_error :: bool
  num_running :: int
  last_seconds :: rat
  last_count :: rat
  executed :: nat
  pauses :: nat

datatype runner_halt = Null_call | Out_of_fuel

definition ns2sec :: "64 word \<Rightarrow> rat" where
  "ns2sec v = f64 (f64 (of_nat (unat v)) / 1000000000)"

definition runner_tps :: "rat \<Rightarrow> rat \<Rightarrow> 's runner \<Rightarrow> dbl" where
  "runner_tps n seconds s = dbl_div (f64 (n - last_count s)) (f64 (seconds - last_seconds s))"

text \<open>Thread 0 begins a new interval after 10 seconds.\<close>

definition restart_interval :: "('s \<Rightarrow> rat \<times> 's) \<Rightarrow> nat \<Rightarrow> 's runner \<Rightarrow> 's runner" where
  "restart_interval get_tps tid s =
     (if tid = 0 then
        let seconds = ns2sec (shd (nanos s)); s = s\<lparr>nanos := stl (nanos s)\<rparr> in
        if seconds > f64 (last_seconds s + 10) then
          case get_tps (test_state s) of (n, st) \<Rightarrow> s\<lparr>test_state := st, last_seconds := seconds, last_count := n\<rparr>
        else s
      else s)"

primrec tarpit_thread :: "nat \<Rightarrow> nat \<Rightarrow> ('s \<Rightarrow> rat \<times> 's) \<Rightarrow> 's runner \<Rightarrow> runner_halt + 's runner" where
  "tarpit_thread 0 tx_rate get_tps s = Inl Out_of_fuel"
| "tarpit_thread (Suc fuel) tx_rate get_tps s =
     (let seconds = ns2sec (shd (nanos s)) in
      case get_tps (test_state s) of (n, st) \<Rightarrow>
      let s = s\<lparr>nanos := stl (nanos s), test_state := st\<rparr> in
      if dbl_greater (runner_tps n seconds s) (of_nat tx_rate)
      then tarpit_thread fuel tx_rate get_tps (s\<lparr>pauses := pauses s + 1\<rparr>) else Inr s)"

text \<open>The call through \<open>get_tps\<close> is not guarded.\<close>

definition rate_limit :: "nat \<Rightarrow> nat \<Rightarrow> ('r, 's) operations \<Rightarrow> nat \<Rightarrow> 's runner \<Rightarrow> runner_halt + 's runner" where
  "rate_limit fuel tx_rate ops tid s = (case op_get_tps ops of
       None \<Rightarrow> Inl Null_call
     | Some get_tps \<Rightarrow> tarpit_thread fuel tx_rate get_tps (restart_interval get_tps tid s))"

definition time_over :: "nat \<Rightarrow> 's runner \<Rightarrow> bool \<times> 's runner" where
  "time_over max_time s =
     (if max_time = 0 then (False, s)
      else (shd (nanos s) \<ge> word_of_nat max_time * 1000000000, s\<lparr>nanos := stl (nanos s)\<rparr>))"

definition do_request :: "('r, 's) operations \<Rightarrow> 'r option \<Rightarrow> nat \<Rightarrow> 's runner \<Rightarrow> (bool \<times> 's runner) option" where
  "do_request ops r tid s = (case r of
       None \<Rightarrow> Some (False, s)
     | Some q \<Rightarrow> map_option (\<lambda>(rc, st). (rc, s\<lparr>test_state := st, executed := executed s + 1\<rparr>))
         (execute_request ops q tid (test_state s)))"

primrec request_loop :: "nat \<Rightarrow> nat \<Rightarrow> nat \<Rightarrow> ('r, 's) operations \<Rightarrow> nat \<Rightarrow> 's runner \<Rightarrow> runner_halt + 's runner" where
  "request_loop 0 max_time tx_rate ops tid s = Inl Out_of_fuel"
| "request_loop (Suc fuel) max_time tx_rate ops tid s =
     (case get_request ops (test_state s) of (r, st) \<Rightarrow>
      case do_request ops r tid (s\<lparr>test_state := st\<rparr>) of None \<Rightarrow> Inl Out_of_fuel | Some (failed, s) \<Rightarrow>
      if failed then Inr s
      else case time_over max_time s of (over, s) \<Rightarrow>
      if over then Inr s
      else case rate_limit fuel tx_rate ops tid s of
        Inl h \<Rightarrow> Inl h
      | Inr s \<Rightarrow>
          let error = sb_error s \<or> shd (error_reads s); s = s\<lparr>error_reads := stl (error_reads s)\<rparr> in
          if r \<noteq> None \<and> \<not> error then request_loop fuel max_time tx_rate ops tid s else Inr s)"

definition runner_thread :: "nat \<Rightarrow> nat \<Rightarrow> nat \<Rightarrow> ('r, 's) operations \<Rightarrow> nat \<Rightarrow> 's runner \<Rightarrow> runner_halt + 's runner" where
  "runner_thread fuel max_time tx_rate ops tid s =
     (case (case op_thread_init ops of
          None \<Rightarrow> (False, s)
        | Some f \<Rightarrow> (case f tid (test_state s) of (rc, st) \<Rightarrow> (rc, s\<lparr>test_state := st\<rparr>))) of (failed, s) \<Rightarrow>
      if failed then Inr (s\<lparr>sb_error := True\<rparr>)
      else case request_loop fuel max_time tx_rate ops tid (s\<lparr>num_running := num_running s + 1\<rparr>) of
        Inl h \<Rightarrow> Inl h
      | Inr s \<Rightarrow>
          let s = (case op_thread_done ops of None \<Rightarrow> s | Some f \<Rightarrow> s\<lparr>test_state := f tid (test_state s)\<rparr>) in
          Inr (s\<lparr>num_running := num_running s - 1\<rparr>))"

section \<open>The tables of the tests\<close>

definition cpu_test :: "nat \<Rightarrow> (unit, cpu_state) operations" where
  "cpu_test max_requests = \<lparr>op_thread_init = None,
     op_get_request = Some (\<lambda>s. case cpu_get_request max_requests s of (found, s) \<Rightarrow> (if found then Some () else None, s)),
     op_execute_request = Some (\<lambda>r tid s. (let n = cpu_execute_request s in Some (False, s))),
     op_thread_done = None, op_get_tps = None\<rparr>"

definition memory_test :: "(unit, sb_rng \<times> memory_state) operations" where
  "memory_test = \<lparr>op_thread_init = None,
     op_get_request = Some (\<lambda>(g, s). case memory_get_request s of (found, s) \<Rightarrow> (if found then Some () else None, g, s)),
     op_execute_request = Some (\<lambda>r tid (g, s). case memory_execute_request tid g s of
       ((rc, is), g, s) \<Rightarrow> Some (rc, g, s)),
     op_thread_done = None, op_get_tps = None\<rparr>"

text \<open>\<open>rands\<close> is what \<open>rand\<close> returns to a thread. The only request of a thread returns 1.\<close>

definition mutex_test :: "nat \<Rightarrow> (nat \<Rightarrow> nat stream) \<Rightarrow> (unit, mutex_state) operations" where
  "mutex_test fuel rands = \<lparr>op_thread_init = None,
     op_get_request = Some (\<lambda>s. (Some (), s)),
     op_execute_request = Some (\<lambda>r tid s. map_option (\<lambda>(es, s). (True, s)) (mutex_execute_request fuel (rands tid) s)),
     op_thread_done = None, op_get_tps = None\<rparr>"

text \<open>
  A Lua script: \<open>event\<close> is what a call of its function \<^verbatim>\<open>event\<close> does, with the outcomes of a return, a
  request to start the transaction again, and any other error. The loop that starts it again has fuel.
\<close>

datatype event_outcome = Event_Done | Event_Restart | Event_Error

definition lua_get_request :: "nat \<Rightarrow> nat \<times> 'd \<Rightarrow> unit option \<times> nat \<times> 'd" where
  "lua_get_request max_requests s =
     (if max_requests \<noteq> 0 \<and> fst s \<ge> max_requests then (None, s) else (Some (), fst s + 1, snd s))"

primrec lua_execute_request :: "nat \<Rightarrow> (nat \<Rightarrow> 'd \<Rightarrow> event_outcome \<times> 'd) \<Rightarrow> nat \<Rightarrow> 'd \<Rightarrow> (bool \<times> 'd) option" where
  "lua_execute_request 0 event tid d = None"
| "lua_execute_request (Suc fuel) event tid d = (case event tid d of
       (Event_Done, d) \<Rightarrow> Some (False, d)
     | (Event_Restart, d) \<Rightarrow> lua_execute_request fuel event tid d
     | (Event_Error, d) \<Rightarrow> Some (True, d))"

definition lua_get_tps :: "'w sb_db \<Rightarrow> rat \<times> 'w sb_db" where
  "lua_get_tps d = (f64 (of_nat (unat (db_get_tps d))), d)"

definition lua_test :: "nat \<Rightarrow> nat \<Rightarrow> (nat \<Rightarrow> 'w sb_db \<Rightarrow> event_outcome \<times> 'w sb_db) \<Rightarrow> (unit, nat \<times> 'w sb_db) operations" where
  "lua_test fuel max_requests event = \<lparr>op_thread_init = None,
     op_get_request = Some (lua_get_request max_requests),
     op_execute_request = Some (\<lambda>r tid (n, d). map_option (\<lambda>(rc, d). (rc, n, d)) (lua_execute_request fuel event tid d)),
     op_thread_done = None,
     op_get_tps = Some (\<lambda>(n, d). case lua_get_tps d of (tps, d) \<Rightarrow> (tps, n, d))\<rparr>"

section \<open>The thread of the intermediate reports\<close>

text \<open>\<open>usleep\<close> takes 32 bits of microseconds; the result is in nanoseconds.\<close>

definition usleep_ns :: "nat \<Rightarrow> nat" where
  "usleep_ns pause_ns = (pause_ns div 1000) mod 2 ^ 32 * 1000"

text \<open>
  The next point of the grid after \<open>curr_ns\<close>. The thread is only started when the interval is not 0;
  times are below the \<open>2 ^ 64\<close> nanoseconds, 584 years, at which they would wrap.
\<close>

function grid_next :: "nat \<Rightarrow> nat \<Rightarrow> nat \<Rightarrow> nat" where
  "grid_next interval_ns curr_ns prev_ns =
     (let next_ns = prev_ns + interval_ns in
      if interval_ns > 0 \<and> curr_ns \<ge> next_ns then grid_next interval_ns curr_ns next_ns else next_ns)"
  by pat_completeness auto

termination
  by (relation "measure (\<lambda>(interval_ns, curr_ns, prev_ns). curr_ns + 1 - prev_ns)") auto

declare grid_next.simps [simp del]

text \<open>
  The times at which the reports are printed. \<open>now\<close> is the time at which the length of the pause is known,
  and each report has a pair \<open>(e, d)\<close>: \<open>usleep\<close> sleeps at least as long as it is asked to, and the
  report begins \<open>e\<close> later than that; printing it takes \<open>d\<close>. No signal wakes the thread.
\<close>

fun report_times :: "nat \<Rightarrow> nat \<Rightarrow> nat \<Rightarrow> nat \<Rightarrow> (nat \<times> nat) list \<Rightarrow> nat list" where
  "report_times interval_ns now pause_ns prev_ns [] = []"
| "report_times interval_ns now pause_ns prev_ns ((e, d) # eds) =
     (let report = now + usleep_ns pause_ns + e; curr_ns = report + d; next_ns = grid_next interval_ns curr_ns prev_ns
      in report # report_times interval_ns curr_ns (next_ns - curr_ns) next_ns eds)"

definition report_thread :: "nat \<Rightarrow> nat \<Rightarrow> (nat \<times> nat) list \<Rightarrow> nat list" where
  "report_thread report_interval start eds =
     (let interval_ns = report_interval * 1000000000
      in report_times interval_ns start interval_ns (start + interval_ns) eds)"

section \<open>The thread of the checkpoints\<close>

text \<open>The comparison for \<open>qsort\<close>: the unsigned difference as \<open>int\<close>.\<close>

definition checkpoint_cmp :: "nat \<Rightarrow> nat \<Rightarrow> int" where
  "checkpoint_cmp a b = c_int (int a - int b)"

text \<open>The times of the checkpoint reports; the pairs are as above.\<close>

fun checkpoint_times :: "nat \<Rightarrow> nat list \<Rightarrow> (nat \<times> nat) list \<Rightarrow> nat list" where
  "checkpoint_times curr_ns (c # cs) ((e, d) # eds) =
     (let next_ns = c * 1000000000 in
      if next_ns \<le> curr_ns then checkpoint_times curr_ns cs ((e, d) # eds)
      else let report = curr_ns + usleep_ns (next_ns - curr_ns) + e in report # checkpoint_times (report + d) cs eds)"
| "checkpoint_times curr_ns cs eds = []"

section \<open>Lemmas: the rate limit\<close>

text \<open>Without counted transactions above those of the interval's start there is no pause.\<close>

lemma f64_nonneg_mono:
  assumes "x \<le> 0"
  shows "f64 x \<le> 0"
  using f64_sign(2) [OF assms] .

lemma rate_not_exceeded:
  assumes "n \<le> last_count s" and "last_seconds s \<le> seconds"
  shows "\<not> dbl_greater (runner_tps n seconds s) (of_nat tx_rate)"
proof -
  have q: "f64 (n - last_count s) \<le> 0" "0 \<le> f64 (seconds - last_seconds s)"
    using assms f64_sign by simp_all
  then have "f64 (f64 (n - last_count s) / f64 (seconds - last_seconds s)) \<le> 0"
    by (intro f64_nonneg_mono) (simp add: divide_nonpos_nonneg)
  with q show ?thesis by (simp add: runner_tps_def dbl_div_def not_less order_trans [OF _ of_nat_0_le_iff])
qed

lemma rate_zero_exceeded:
  assumes "last_count s < n" and "last_seconds s \<le> seconds"
  shows "dbl_greater (runner_tps n seconds s) (of_nat 0)"
proof -
  have q: "0 < f64 (n - last_count s)" "0 \<le> f64 (seconds - last_seconds s)"
    using assms f64_pos f64_sign by simp_all
  then show ?thesis using f64_pos by (auto simp: runner_tps_def dbl_div_def)
qed

lemma ns2sec_nonneg: "0 \<le> ns2sec v"
  unfolding ns2sec_def by (rule f64_sign(1), rule divide_nonneg_nonneg, rule f64_sign(1) [OF of_nat_0_le_iff]) simp

text \<open>The count at the \<open>k\<close>-th poll; what other threads do between two polls is part of the state.\<close>

primrec poll :: "('s \<Rightarrow> rat \<times> 's) \<Rightarrow> nat \<Rightarrow> 's \<Rightarrow> rat" where
  "poll get_tps 0 st = fst (get_tps st)"
| "poll get_tps (Suc k) st = poll get_tps k (snd (get_tps st))"

lemma poll_frozen: "get_tps st = (n, st) \<Longrightarrow> poll get_tps k st = n"
  by (induction k) simp_all

lemma tarpit_zero:
  assumes "\<forall>v \<in> sset (nanos s). last_seconds s \<le> ns2sec v"
  shows "(\<exists>t. tarpit_thread fuel 0 get_tps s = Inr t) \<longleftrightarrow> (\<exists>k < fuel. poll get_tps k (test_state s) \<le> last_count s)"
  using assms
proof (induction fuel arbitrary: s)
  case (Suc fuel)
  obtain n st where g: "get_tps (test_state s) = (n, st)" by (metis surj_pair)
  define u where "u = s\<lparr>nanos := stl (nanos s), test_state := st\<rparr>"
  have now: "last_seconds u \<le> ns2sec (shd (nanos s))" using Suc.prems shd_sset by (auto simp: u_def)
  show ?case
  proof (cases "n \<le> last_count s")
    case True
    then have "\<not> dbl_greater (runner_tps n (ns2sec (shd (nanos s))) u) (of_nat 0)"
      using now by (intro rate_not_exceeded) (simp_all add: u_def)
    then have "tarpit_thread (Suc fuel) 0 get_tps s = Inr u" by (simp add: g Let_def flip: u_def)
    moreover have "poll get_tps 0 (test_state s) \<le> last_count s" using True g by simp
    ultimately show ?thesis by blast
  next
    case False
    then have "dbl_greater (runner_tps n (ns2sec (shd (nanos s))) u) (of_nat 0)"
      using now by (intro rate_zero_exceeded) (simp_all add: u_def)
    then have "tarpit_thread (Suc fuel) 0 get_tps s = tarpit_thread fuel 0 get_tps (u\<lparr>pauses := pauses u + 1\<rparr>)"
      by (simp add: g Let_def flip: u_def)
    moreover have "\<forall>v \<in> sset (nanos u). last_seconds u \<le> ns2sec v"
      using Suc.prems by (auto simp: u_def dest: stl_sset)
    ultimately have "(\<exists>t. tarpit_thread (Suc fuel) 0 get_tps s = Inr t) \<longleftrightarrow>
        (\<exists>k < fuel. poll get_tps (Suc k) (test_state s) \<le> last_count s)"
      using Suc.IH [of "u\<lparr>pauses := pauses u + 1\<rparr>"] by (simp add: u_def g)
    moreover have "\<not> poll get_tps 0 (test_state s) \<le> last_count s" using False g by simp
    ultimately show ?thesis by (metis Suc_less_eq not0_implies_Suc)
  qed
qed simp

lemma tarpit_passes:
  assumes "get_tps (test_state s) = (n, test_state s)" and "n \<le> last_count s"
    and "last_seconds s \<le> ns2sec (shd (nanos s))"
  shows "tarpit_thread (Suc fuel) tx_rate get_tps s = Inr (s\<lparr>nanos := stl (nanos s)\<rparr>)"
  using rate_not_exceeded [of n "s\<lparr>nanos := stl (nanos s)\<rparr>" "ns2sec (shd (nanos s))" tx_rate] assms
  by (simp add: Let_def)

section \<open>Lemmas: a request of the memory test\<close>

lemma memory_request_fails:
  "memory_execute_request tid g s = ((rc, is), g', s') \<Longrightarrow> rc \<longleftrightarrow> access_rnd s \<and> mem_oper s = Mem_None"
  by (cases "mem_oper s") (auto simp: memory_execute_request_def access_block_def Let_def split: prod.splits if_splits)

section \<open>Lemmas: the grid\<close>

lemma grid_next_step: "curr_ns < prev_ns + interval_ns \<Longrightarrow> grid_next interval_ns curr_ns prev_ns = prev_ns + interval_ns"
  by (subst grid_next.simps) (simp add: Let_def)

lemma grid_next_gt: "0 < interval_ns \<Longrightarrow> curr_ns < grid_next interval_ns curr_ns prev_ns"
proof (induction interval_ns curr_ns prev_ns rule: grid_next.induct)
  case (1 interval_ns curr_ns prev_ns)
  then show ?case by (subst grid_next.simps) (auto simp: Let_def)
qed

text \<open>One report: from shortly before a point of the grid to shortly before the next one.\<close>

lemma usleep_near:
  assumes "now \<le> p" and "p - now < 2 ^ 32 * 1000"
  shows "now + usleep_ns (p - now) \<le> p \<and> p < now + usleep_ns (p - now) + 1000"
proof -
  have "(p - now) div 1000 < 2 ^ 32" using assms(2) by (simp add: less_mult_imp_div_less)
  then have "usleep_ns (p - now) = (p - now) div 1000 * 1000" by (simp add: usleep_ns_def)
  moreover have "(p - now) div 1000 * 1000 \<le> p - now" "p - now < (p - now) div 1000 * 1000 + 1000"
    using div_mult_mod_eq [of "p - now" 1000] mod_less_divisor [of 1000 "p - now"] by linarith+
  ultimately show ?thesis using assms(1) by linarith
qed

lemma grid_next_on:
  assumes "0 < i"
  shows "\<exists>j. grid_next i now p = p + Suc j * i \<and> now < p + Suc j * i \<and> (j = 0 \<or> p + j * i \<le> now)"
  using assms
proof (induction i now p rule: grid_next.induct)
  case (1 i now p)
  show ?case
  proof (cases "0 < i \<and> p + i \<le> now")
    case True
    then obtain j where "grid_next i now (p + i) = p + i + Suc j * i" "now < p + i + Suc j * i"
      "j = 0 \<or> p + i + j * i \<le> now" using 1 by auto
    with True show ?thesis by (subst grid_next.simps) (intro exI [of _ "Suc j"], auto simp: Let_def)
  next
    case False
    then show ?thesis using "1.prems" by (subst grid_next.simps) (intro exI [of _ 0], auto simp: Let_def)
  qed
qed

lemma report_times_grid:
  assumes "now \<le> p" and "p - now < 2 ^ 32 * 1000" and "i + 1000 \<le> 2 ^ 32 * 1000" and "0 < i" and "k < length eds"
  shows "\<exists>m \<ge> k. report_times i now (p - now) p eds ! k \<le> p + m * i + fst (eds ! k) \<and>
    p + m * i + fst (eds ! k) < report_times i now (p - now) p eds ! k + 1000 \<and>
    ((\<forall>(e, d) \<in> set (take k eds). e + d < i) \<longrightarrow> m = k)"
  using assms
proof (induction eds arbitrary: now p k)
  case (Cons x eds)
  obtain e d where x: "x = (e, d)" by fastforce
  let ?r = "now + usleep_ns (p - now) + e"
  have r: "?r \<le> p + e" "p + e < ?r + 1000" using usleep_near [OF Cons.prems(1,2)] by simp_all
  obtain j where j: "grid_next i (?r + d) p = p + Suc j * i" "?r + d < p + Suc j * i" "j = 0 \<or> p + j * i \<le> ?r + d"
    using grid_next_on [OF Cons.prems(4)] by blast
  let ?q = "p + Suc j * i"
  have times: "report_times i now (p - now) p (x # eds) = ?r # report_times i (?r + d) (?q - (?r + d)) ?q eds"
    using j(1) by (simp add: x Let_def)
  show ?case
  proof (cases k)
    case 0
    with r show ?thesis unfolding times by (intro exI [of _ 0]) (simp add: x)
  next
    case (Suc k')
    have "?q - (?r + d) < 2 ^ 32 * 1000" using j(3) r(2) Cons.prems(3) by auto
    then obtain m where m: "m \<ge> k'"
      "report_times i (?r + d) (?q - (?r + d)) ?q eds ! k' \<le> ?q + m * i + fst (eds ! k')"
      "?q + m * i + fst (eds ! k') < report_times i (?r + d) (?q - (?r + d)) ?q eds ! k' + 1000"
      "(\<forall>(e, d) \<in> set (take k' eds). e + d < i) \<longrightarrow> m = k'"
      using Cons.IH [of "?r + d" ?q k'] j(2) Cons.prems(3-5) Suc by auto
    have "?q + m * i = p + Suc (j + m) * i" by (simp add: algebra_simps)
    moreover have "j = 0" if "e + d < i"
      using j(3) r(1) that Cons.prems(4) by (cases j) auto
    ultimately show ?thesis unfolding times using m Suc by (intro exI [of _ "Suc (j + m)"]) (auto simp: x)
  qed
qed simp

section \<open>Properties\<close>

text \<open>
  Property C37. A thread of a test without \<open>get_tps\<close> and \<open>thread_init\<close> calls the NULL pointer exactly
  when its first request, if there is one, does not fail and the time is not over; otherwise it ends after it. So
  without a time limit a thread of the cpu test always ends in that call, and one of the memory test does unless it
  accesses nothing in the random mode, which makes a request fail. A thread of the mutex test never does,
  whatever the time limit: its only request returns 1.
\<close>

theorem built_in_tests_crash:
  fixes ops :: "('r, 's) operations"
  assumes "op_get_tps ops = None" and "op_thread_init ops = None" and "get_request ops (test_state s) = (r, st)"
    and "do_request ops r tid (s\<lparr>num_running := num_running s + 1, test_state := st\<rparr>) = Some (failed, v)"
    and "\<not> (access_rnd (snd m) \<and> mem_oper (snd m) = Mem_None)"
    and "0 < mutex_num (test_state x)" and "2 ^ 32 \<le> efuel"
  shows "(if failed \<or> fst (time_over max_time v)
      then \<exists>u. runner_thread (Suc fuel) max_time tx_rate ops tid s = Inr u \<and> num_running u = num_running s
      else runner_thread (Suc fuel) max_time tx_rate ops tid s = Inl Null_call) \<and>
    runner_thread (Suc fuel) 0 tx_rate (cpu_test max_requests) tid c = Inl Null_call \<and>
    (test_state w = m \<longrightarrow> runner_thread (Suc fuel) 0 tx_rate memory_test tid w = Inl Null_call) \<and>
    (\<exists>u. runner_thread (Suc fuel) max_time tx_rate (mutex_test efuel rands) tid x = Inr u)"
proof (intro conjI)
  have v: "num_running v = num_running s + 1"
    using assms(4) by (auto simp: do_request_def split: option.splits)
  obtain over t where t: "time_over max_time v = (over, t)" by (metis surj_pair)
  then have "num_running t = num_running v" by (auto simp: time_over_def split: if_splits)
  with v show "if failed \<or> fst (time_over max_time v)
      then \<exists>u. runner_thread (Suc fuel) max_time tx_rate ops tid s = Inr u \<and> num_running u = num_running s
      else runner_thread (Suc fuel) max_time tx_rate ops tid s = Inl Null_call"
    using assms(1-4) by (auto simp: runner_thread_def t rate_limit_def Let_def split: option.split)
  show "runner_thread (Suc fuel) 0 tx_rate (cpu_test max_requests) tid c = Inl Null_call"
    by (simp add: runner_thread_def cpu_test_def get_request_def do_request_def execute_request_def time_over_def
        rate_limit_def split: prod.split)
  show "test_state w = m \<longrightarrow> runner_thread (Suc fuel) 0 tx_rate memory_test tid w = Inl Null_call"
  proof
    assume "test_state w = m"
    moreover obtain found y where "memory_get_request (snd m) = (found, y)" by (metis surj_pair)
    moreover from this have "access_rnd y = access_rnd (snd m)" "mem_oper y = mem_oper (snd m)"
      by (auto simp: memory_get_request_def split: if_splits)
    moreover obtain rc el g z where "memory_execute_request tid (fst m) y = ((rc, el), g, z)" by (metis surj_pair)
    ultimately show "runner_thread (Suc fuel) 0 tx_rate memory_test tid w = Inl Null_call"
      using assms(5) by (cases m) (auto dest!: memory_request_fails simp: runner_thread_def memory_test_def get_request_def
          do_request_def execute_request_def time_over_def rate_limit_def)
  qed
  obtain es z where "mutex_execute_request efuel (rands tid) (test_state x) = Some (es, z)"
    using mutex_request_run [OF assms(6,7)] by blast
  then show "\<exists>u. runner_thread (Suc fuel) max_time tx_rate (mutex_test efuel rands) tid x = Inr u"
    by (simp add: runner_thread_def mutex_test_def get_request_def do_request_def execute_request_def)
qed

definition runner_start :: "'s \<Rightarrow> 's runner" where
  "runner_start st = \<lparr>test_state = st, nanos = sconst 7000000, error_reads = sconst False, sb_error = False,
     num_running = 0, last_seconds = 0, last_count = 0, executed = 0, pauses = 0\<rparr>"

theorem built_in_tests_crash_witness:
  "runner_thread (Suc 4) 1 100 (cpu_test 3) 1 (runner_start \<lparr>max_prime = 10, req_performed = 0\<rparr>) = Inl Null_call"
proof -
  let ?s = "runner_start \<lparr>max_prime = 10, req_performed = 0\<rparr>"
  let ?m = "((undefined, \<lparr>block_size = 8, total_size = 16, mem_scope = Scope_Global, mem_oper = Mem_Write, access_rnd = False,
      buffers = [[0, 0]], total_ops = 0, total_bytes = 0, last_bytes = 0\<rparr>) :: sb_rng \<times> memory_state)"
  let ?x = "runner_start \<lparr>mutex_num = 2, mutex_loops = 1, mutex_locks = 3, global_var = 0\<rparr>"
  have "\<not> fst (time_over 1 (?s\<lparr>num_running := 1, test_state := \<lparr>max_prime = 10, req_performed = 1\<rparr>, executed := 1\<rparr>))"
    by (simp add: time_over_def runner_start_def)
  moreover note built_in_tests_crash [of "cpu_test 3" ?s "Some ()" "\<lparr>max_prime = 10, req_performed = 1\<rparr>" 1 False
      "?s\<lparr>num_running := 1, test_state := \<lparr>max_prime = 10, req_performed = 1\<rparr>, executed := 1\<rparr>" ?m ?x "2 ^ 32" 1 4 100]
  ultimately show ?thesis
    by (simp add: cpu_test_def get_request_def cpu_get_request_def do_request_def execute_request_def runner_start_def)
qed

text \<open>
  Property C38. With the default rate of 0 a thread leaves the rate limit, after \<open>k\<close> pauses, exactly if the \<open>k\<close>-th
  count of transactions it reads is not above that of the start of the interval. What other threads
  count, or a cumulative report resets, is in these counts; that another thread begins a new interval
  meanwhile is not. So as long as neither happens, a thread that has counted a transaction in the interval is
  held, and the time limit, tested before, does not end it.
\<close>

theorem default_rate_holds_thread:
  assumes "op_get_tps ops = Some get_tps" and "u = restart_interval get_tps tid s"
    and "\<forall>v \<in> sset (nanos u). last_seconds u \<le> ns2sec v"
  shows "(\<exists>t. rate_limit fuel 0 ops tid s = Inr t) \<longleftrightarrow> (\<exists>k < fuel. poll get_tps k (test_state u) \<le> last_count u)"
  unfolding rate_limit_def using tarpit_zero [OF assms(3)] by (simp add: assms(1) assms(2) [symmetric])

text \<open>A script that commits one transaction.\<close>

definition commit_event :: "nat \<Rightarrow> unit sb_db \<Rightarrow> event_outcome \<times> unit sb_db" where
  "commit_event tid d = (case db_query (\<lambda>q w. (Db_None, w)) ''COMMIT'' d of
     Some (True, d) \<Rightarrow> (Event_Done, d) | Some (False, d) \<Rightarrow> (Event_Error, d) | None \<Rightarrow> (Event_Error, d))"

text \<open>The first and only thread is held after its first transaction, however much fuel there is.\<close>

theorem default_rate_holds_thread_witness:
  "\<forall>fuel. \<not> (\<exists>t. runner_thread fuel 0 0 (lua_test 1 10 commit_event) 0 (runner_start (0, example_sb_db)) = Inr t)"
proof (intro allI)
  fix fuel :: nat
  let ?ops = "lua_test 1 10 commit_event" and ?d = "snd (commit_event 0 example_sb_db)"
  let ?g = "\<lambda>(n, d). case lua_get_tps d of (tps, d) \<Rightarrow> (tps, n :: nat, d :: unit sb_db)"
  define s where "s = (runner_start (1 :: nat, ?d))\<lparr>num_running := 1, executed := 1\<rparr>"
  have run: "lua_execute_request 1 commit_event 0 example_sb_db = Some (False, ?d)" "0 < unat (db_get_tps ?d)"
    by code_simp+
  have "ns2sec 7000000 \<le> 10"
    using f64_of_int [of 7000000] f64_le_twice [of "7000000 / 1000000000"] by (simp add: ns2sec_def)
  then have "restart_interval ?g 0 s = s\<lparr>nanos := sconst 7000000\<rparr>"
    using f64_of_int [of 10] by (simp add: restart_interval_def s_def runner_start_def Let_def)
  moreover have "op_get_tps ?ops = Some ?g" by (simp add: lua_test_def)
  moreover have "poll ?g k (1, ?d) = f64 (of_nat (unat (db_get_tps ?d)))" for k
    by (rule poll_frozen) (simp add: lua_get_tps_def)
  moreover have "0 < f64 (of_nat (unat (db_get_tps ?d)) :: rat)" using run(2) by (intro f64_pos) (simp only: of_nat_0_less_iff)
  ultimately have held: "\<not> (\<exists>t. rate_limit k 0 ?ops 0 s = Inr t)" for k
    using default_rate_holds_thread [of ?ops ?g "s\<lparr>nanos := sconst 7000000\<rparr>" 0 s k] ns2sec_nonneg
    by (auto simp: s_def runner_start_def)
  have "get_request ?ops (0, example_sb_db) = (Some (), 1, example_sb_db)"
    by (simp add: get_request_def lua_test_def lua_get_request_def)
  moreover have "do_request ?ops (Some ()) 0 ((runner_start (1, example_sb_db))\<lparr>num_running := 1\<rparr>) = Some (False, s)"
    using run(1) by (simp add: do_request_def execute_request_def lua_test_def s_def runner_start_def)
  moreover have "op_thread_init ?ops = None" by (simp add: lua_test_def)
  ultimately show "\<not> (\<exists>t. runner_thread fuel 0 0 ?ops 0 (runner_start (0, example_sb_db)) = Inr t)"
    using held by (cases fuel) (auto simp: runner_thread_def runner_start_def time_over_def split: sum.splits)
qed

text \<open>
  Property C39. A cumulative report starts the count of transactions again, but not the interval of the
  rate limit: until as many transactions as the interval began with are counted anew, a thread
  is not held, however fast they are.
\<close>

theorem report_disables_rate_limit:
  assumes "\<forall>i q. Ask i q \<in> set es \<longrightarrow> 0 \<le> i \<and> i < int (length (thread_stats d))" and "Cumulative \<notin> set es"
    and "db_run drv es (snd (db_stats_cumulative d)) = Some (ns, d')"
    and "sent d' = sent d @ l" and "f64 (of_nat (unat (done_of Query_Commit l))) \<le> last_count s"
    and "test_state s = d'" and "last_seconds s \<le> ns2sec (shd (nanos s))"
  shows "tarpit_thread (Suc fuel) tx_rate lua_get_tps s = Inr (s\<lparr>nanos := stl (nanos s)\<rparr>)"
proof (rule tarpit_passes)
  let ?d = "snd (db_stats_cumulative d)"
  have none: "sum_list (replicate m (0 :: 64 word)) = 0" for m by (induction m) simp_all
  have d: "db_get_tps ?d = 0" "sent ?d = sent d" "length (thread_stats ?d) = length (thread_stats d)"
    by (simp_all add: db_stats_cumulative_def db_reset_stats_def db_get_tps_def sum_stats_def no_stat_def none)
  have quiet: "printed True fst ns = 0" by (rule no_cumulative_printed [OF assms(2,3)])
  from trx.run_counts [OF assms(3)] assms(1,4) d quiet have "db_get_tps d' = done_of Query_Commit l"
    by (auto simp: db_get_tps_def)
  then show "lua_get_tps (test_state s) = (f64 (of_nat (unat (done_of Query_Commit l))), test_state s)"
    by (simp add: lua_get_tps_def assms(6))
qed (use assms in simp_all)

definition fifty_commits :: "unit sb_db" where
  "fifty_commits = example_sb_db\<lparr>thread_stats := [no_stat\<lparr>transactions := 50\<rparr>], sent := []\<rparr>"

theorem report_disables_rate_limit_witness:
  "\<exists>d' t. db_run (\<lambda>q w. (Db_None, w)) [Ask 0 ''COMMIT''] (snd (db_stats_cumulative fifty_commits)) = Some ([], d') \<and>
    tarpit_thread 1 1 lua_get_tps ((runner_start d')\<lparr>last_count := 50\<rparr>) = Inr t \<and> pauses t = 0"
proof -
  have "case db_run (\<lambda>q w. (Db_None, w)) [Ask 0 ''COMMIT''] (snd (db_stats_cumulative fifty_commits)) of
      Some (ns, d') \<Rightarrow> ns = [] \<and> done_of Query_Commit (sent d') = 1 | None \<Rightarrow> False" by code_simp
  then obtain d' where run: "db_run (\<lambda>q w. (Db_None, w)) [Ask 0 ''COMMIT''] (snd (db_stats_cumulative fifty_commits)) = Some ([], d')"
    "done_of Query_Commit (sent d') = 1" by (auto split: option.splits)
  have "f64 1 = 1" using f64_of_int [of 1] by simp
  with run(2) have "f64 (of_nat (unat (done_of Query_Commit (sent d')))) \<le> last_count ((runner_start d')\<lparr>last_count := 50\<rparr>)"
    by simp
  from report_disables_rate_limit [OF _ _ run(1) _ this, where fuel = 0 and tx_rate = 1]
  have "tarpit_thread (Suc 0) 1 lua_get_tps ((runner_start d')\<lparr>last_count := 50\<rparr>) =
      Inr ((runner_start d')\<lparr>last_count := 50, nanos := stl (nanos ((runner_start d')\<lparr>last_count := 50\<rparr>))\<rparr>)"
    using ns2sec_nonneg by (simp add: fifty_commits_def example_sb_db_def runner_start_def)
  with run(1) show ?thesis by (auto simp: runner_start_def)
qed

text \<open>
  Property C40. With an interval of at most 4294 seconds every report is printed on the grid of the
  interval: \<open>e\<close> after one of its points or less than a microsecond before that, if \<open>usleep\<close> oversleeps by \<open>e\<close>. As long as
  oversleeping and printing together take less than the interval no point is left out. With a
  longer interval the argument of \<open>usleep\<close> wraps and the first report is early.
\<close>

theorem reports_on_grid:
  assumes "0 < report_interval" and "k < length eds"
  shows "(report_interval \<le> 4294 \<longrightarrow>
      (\<exists>m > k. let t = report_thread report_interval start eds ! k; p = start + m * (report_interval * 1000000000)
       in t \<le> p + fst (eds ! k) \<and> p + fst (eds ! k) < t + 1000 \<and>
         ((\<forall>(e, d) \<in> set (take k eds). e + d < report_interval * 1000000000) \<longrightarrow> m = k + 1))) \<and>
    (report_interval > 4294 \<longrightarrow>
      report_thread report_interval start eds ! 0 < start + report_interval * 1000000000 + fst (eds ! 0))"
proof (intro conjI impI)
  let ?i = "report_interval * 1000000000" and ?e = "fst (eds ! k)"
  define t where "t = report_thread report_interval start eds ! k"
  have t: "t = report_times ?i start (start + ?i - start) (start + ?i) eds ! k"
    by (simp add: report_thread_def t_def Let_def)
  assume "report_interval \<le> 4294"
  then obtain m where m: "m \<ge> k" "t \<le> start + ?i + m * ?i + ?e" "start + ?i + m * ?i + ?e < t + 1000"
    "(\<forall>(e, d) \<in> set (take k eds). e + d < ?i) \<longrightarrow> m = k"
    using report_times_grid [of start "start + ?i" ?i k eds] assms unfolding t by auto
  show "\<exists>m > k. let t = report_thread report_interval start eds ! k; p = start + m * ?i
      in t \<le> p + ?e \<and> p + ?e < t + 1000 \<and> ((\<forall>(e, d) \<in> set (take k eds). e + d < ?i) \<longrightarrow> m = k + 1)"
    unfolding Let_def t_def [symmetric] using m by (intro exI [of _ "Suc m"]) (simp add: algebra_simps)
next
  let ?i = "report_interval * 1000000000"
  assume "report_interval > 4294"
  then have "?i div 1000 \<ge> 2 ^ 32" by simp
  moreover have "?i div 1000 mod 2 ^ 32 < 2 ^ 32" by simp
  ultimately have "?i div 1000 mod 2 ^ 32 * 1000 < ?i div 1000 * 1000" by linarith
  then have "usleep_ns ?i < ?i" by (simp add: usleep_ns_def)
  moreover obtain e d eds' where "eds = (e, d) # eds'" using assms(2) by (cases eds) auto
  ultimately show "report_thread report_interval start eds ! 0 < start + ?i + fst (eds ! 0)"
    by (simp add: report_thread_def Let_def)
qed

theorem reports_on_grid_witness:
  "\<exists>m > 2. let t = report_thread 10 0 [(70000, 3000000), (50000, 5), (80, 7)] ! 2; p = m * 10000000000
     in t \<le> p + 80 \<and> p + 80 < t + 1000 \<and> m = 3"
  using reports_on_grid [of 10 2 "[(70000, 3000000), (50000, 5), (80, 7)]" 0] by (simp add: Let_def)

text \<open>The comparison of two checkpoints has the right sign when they are less than 68 years apart.\<close>

lemma checkpoint_cmp_sign:
  assumes "\<bar>int a - int b\<bar> < 2 ^ 31"
  shows "sgn (checkpoint_cmp a b) = sgn (int a - int b)"
  using assms c_int_id [of "int a - int b"] by (simp add: checkpoint_cmp_def)

lemma checkpoint_cmp_wrong: "checkpoint_cmp 3000000000 1 < 0"
  by (simp add: checkpoint_cmp_def c_int_def)

end
