(* ===== verification/Spec2Isabelle.thy ===== *)
theory Spec2Isabelle
  imports Races Statements Tsv LockOrder SbTimer SbMysql SbRunner
begin

text \<open>
  A verification development for the two C benchmarks that this repository runs against MySQL:
  tpcc-mysql (\<^verbatim>\<open>tokudb/software/tpcc-percona/tpcc-mysql\<close>, paths relative to its directory \<^verbatim>\<open>src/\<close>), with
  \<^verbatim>\<open>tpcc_start\<close>, which drives the five transactions of TPC-C from many threads and reports their
  rate, \<^verbatim>\<open>tpcc_load\<close>, which fills the database, and \<^verbatim>\<open>tpcc_gen\<close>, which writes the same rows to files; and
  sysbench with a rate limit (\<^verbatim>\<open>tokudb/software/sysbench/sysbench-0.5-rate-limited/sysbench\<close>).

  \<^bold>\<open>tpcc-mysql.\<close> \<^verbatim>\<open>main.c\<close> reads the options, sets up the counters, the histograms
  (\<^verbatim>\<open>rthist.c\<close>) and the mix of transactions (\<^verbatim>\<open>sequence.c\<close>), and starts the threads. A thread opens a
  connection, prepares 35 statements and calls \<^verbatim>\<open>driver()\<close> of \<^verbatim>\<open>driver.c\<close>, which takes the next
  transaction of the mix, draws its random input (\<^verbatim>\<open>support.c\<close>), calls \<^verbatim>\<open>neword\<close>, \<^verbatim>\<open>payment\<close>,
  \<^verbatim>\<open>ordstat\<close>, \<^verbatim>\<open>delivery\<close> or \<^verbatim>\<open>slev\<close> until it succeeds or the retries are used up, and counts the
  outcome. The main thread's interval timer prints the progress from the same counters, and at
  the end the report. \<^verbatim>\<open>load.c\<close> and \<^verbatim>\<open>gen.c\<close> are programs of their own over \<^verbatim>\<open>support.c\<close>.

  \<^bold>\<open>sysbench.\<close> \<^verbatim>\<open>sysbench.c\<close> reads the command line into the options (\<^verbatim>\<open>sb_options.c\<close>), looks a test up in
  a list (\<^verbatim>\<open>sb_list.h\<close>) and starts threads that take requests from its table of operations and execute
  them, held by the rate limit, and threads that print reports. The tests modelled are \<^verbatim>\<open>tests/cpu\<close>,
  \<^verbatim>\<open>tests/threads\<close>, \<^verbatim>\<open>tests/mutex\<close>, \<^verbatim>\<open>tests/memory\<close> and a script, an arbitrary function that uses the database
  layer (\<^verbatim>\<open>db_driver.c\<close>), which counts statements and calls a driver (\<^verbatim>\<open>drivers/mysql/drv_mysql.c\<close>).

  \<^bold>\<open>State and effects.\<close> A C function is a state transformer \<open>('st, 'a) cm\<close> (theory Prelude) that
  returns a value or stops: a jump to an error label, an exit, an abort, or an access outside an
  array. The global variables are records that extend one another: \<open>support\<close> (random numbers,
  clock and uninitialised memory to come, the permutation), \<open>hist\<close>, \<open>db\<close> (connection and log),
  then \<open>drv\<close> and \<open>mn\<close>, or \<open>ld\<close>; \<open>gen\<close> extends \<open>support\<close>. What the programs call but do not contain (the MySQL
  client library with its server, the clock, \<open>rand\<close>) is a parameter: a \<open>server\<close> answers each call
  from a state of its own, in any way it likes, and the streams of random numbers, times and
  garbage are arbitrary. Every call is an event of the log, so that the properties speak about
  what the program asks of the server. The theories about sysbench, whose operations share less
  state, pass records directly and return an option or a sum for errors. Integers are unbounded
  where their ranges are shown by a property or assumed by it, and wrap at their width (\<open>c_int\<close>,
  \<open>c_uint\<close>, words) where the code depends on it, as the counters of \<^verbatim>\<open>rthist.c\<close> do; \<open>float\<close> and
  \<open>double\<close> are rationals rounded after each operation, and \<open>dbl_to_int\<close> converts to 32 bits (theory CFloat).

  \<^bold>\<open>Theories.\<close>
  \<^item> Prelude: the monad, its rules, and the locale \<open>state_relation\<close> (a preorder of states that
    the operations of the monad preserve) with its interpretations in every other theory.
  \<^item> CInt, CFloat, CText: C integers; rounding and conversion; \<open>strtol\<close>, \<open>atoi\<close>, decimal notation, \<^verbatim>\<open>parse_port.h\<close>.
  \<^item> Support (\<^verbatim>\<open>support.c\<close>), Sequence (\<^verbatim>\<open>sequence.c\<close>), Hist (\<^verbatim>\<open>rthist.c\<close>): the permutation of the
    customers and the mix hand out each element once per round (locale \<open>hand_out\<close>); the
    histogram counts every response time once and reports the 99th percentile, within the bounds
    at which its 32-bit arithmetic overflows.
  \<^item> Db (\<^verbatim>\<open>spt_proc.c\<close> and the calls of libmysqlclient): the client interface; \<open>traced\<close> says of an
    operation how its log ends with each outcome (locale \<open>trace_class\<close>); the locale \<open>transaction\<close>
    is the contract of the five transaction functions.
  \<^item> Neword, Payment, Ordstat, Delivery, Slev: one definition per statement, the loops, the
    function. Each interprets \<open>transaction\<close>; the lemmas show the outcome on every path, the
    statements a committed run has executed (a refinement of a script of statements), and that the
    loops end. LockOrder: the stock rows that every run of New-Order requests are in one order, so
    that runs do not wait for each other in a circle.
  \<^item> Driver (\<^verbatim>\<open>driver.c\<close>): input, retries, counting, rate limit, loop; the locale \<open>repeatable\<close> turns
    the contract of a transaction into that of its repetition. Races: the unlocked
    counters of several threads as a step relation.
  \<^item> Start (\<^verbatim>\<open>main.c\<close>), Statements (the texts of its statements against the parameters and columns
    that the transactions bind, checked over every path).
  \<^item> Load, LoadMain (\<^verbatim>\<open>load.c\<close>), Content (the abstract database of a loader: committed and
    pending rows), LoadLive (what the loader has committed when it ends, and that it ends).
  \<^item> Gen (\<^verbatim>\<open>gen.c\<close>): the generator simulates the loader, row by row; Tsv: the files read back.
  \<^item> SbTimer (\<^verbatim>\<open>sb_timer.c\<close>): 64-bit timers; merging and splitting lose no time. SbList (\<^verbatim>\<open>sb_list.h\<close>):
    pointer operations on a heap against HOL lists. SbOptions (\<^verbatim>\<open>sb_options.c\<close>, command line): the options
    are a map and read back as set. SbRandom (\<^verbatim>\<open>sysbench.c\<close>): the distributions, with their bounds.
  \<^item> SbCpu, SbTests (\<^verbatim>\<open>tests/\<close>): what a request computes and accesses, and that it ends.
  \<^item> SbDb (\<^verbatim>\<open>db_driver.c\<close>): the inserts of many rows refine a script of statements; the reports
    account for the statements (locale \<open>report_counter\<close>, interpreted for the three counters). SbMysql
    (\<^verbatim>\<open>drv_mysql.c\<close>): the emulation of prepared statements against plain substitution.
  \<^item> SbRunner (\<^verbatim>\<open>sysbench.c\<close>): the threads that execute requests, with the rate limit exactly when it holds
    and when it calls a null pointer, and the times of the reports, with what \<open>usleep\<close> oversleeps.

  \<^bold>\<open>Fuel.\<close> The loops over the rows of a result (Order-Status, Stock-Level) end only when the server
  says so; they have fuel, any number above the rows left is enough, and without it the model
  stops with \<open>OutOfFuel\<close> instead of returning. The loader's repetition of a batch and its search for an
  unmarked item have fuel too: 100001 is enough for a generator that draws every number within as
  many calls. In the driver the search for another warehouse, the rate limit and the main loop
  have fuel; when the rate limit lets a thread go on, and when never, is shown. In sysbench the loops
  over lists (more than the items is enough), the loop of the mutex test (\<open>2 ^ 32\<close> is enough), the loop of
  requests with its rate limit, which may never end, and the repetition of a script's transaction
  have fuel. The other loops are bounded by the code.

  \<^bold>\<open>Bounds.\<close> The constants (10 districts, 3000 customers, 100000 items, 15 lines, 35 statements)
  are those of the code, none is reduced.

  \<^bold>\<open>Not modelled.\<close> The text of progress and debug output; the seeding of \<open>rand\<close> from
  \<^verbatim>\<open>/dev/urandom\<close>; the scheduling of the threads, except that Races interleaves the counters and
  Start the timer with whole rounds of a driver; what the server stores. Of sysbench: \<^verbatim>\<open>main\<close>, \<^verbatim>\<open>run_test\<close>
  and the barrier of the threads, whose rounds interleave only as the state of a test lets other threads
  work between two polls of the rate limit; the logger and the percentiles, which compute with the
  mathematical library; the file test; the other database drivers; the functions given to scripts, on
  the stack of the Lua interpreter. A cumulative report sums and resets the counters in one step
  (theory SbDb says what that leaves out). Older copies of both programs (\<^verbatim>\<open>tpcc-mysql-20121019\<close>,
  \<^verbatim>\<open>tpcc-mysql-ORIGINAL\<close>, other versions of sysbench) have no theories of their own. The rest of the repository is
  vendored code, shell, Perl, Python, PHP and Java.
\<close>

section \<open>Properties that span the transactions\<close>

text \<open>
  Property C8. The outcome of the transactions that only read, for every behaviour of the server
  and every fuel: 1 after a run in which every call was accepted and that ends with the one commit;
  or 0 after the first call that fails (in Stock-Level also in the statement inside the loop),
  followed only by the freeing of the result, the report and the rollback.
\<close>

theorem readers_outcome:
  "(\<exists>es. log (snd (ordstat M fuel t_num w_id d_id byname c_id c_last_arg s)) = log s @ es \<and>
      (case fst (ordstat M fuel t_num w_id d_id byname c_id c_last_arg s) of
         Inr v \<Rightarrow> v = 1 \<and> committed t_num es \<or> v = 0 \<and> given_up ''ordstat'' t_num es
       | Inl e \<Rightarrow> \<forall>l. e \<noteq> Goto l)) \<and>
   (\<exists>es. log (snd (slev M fuel t_num w_id d_id level s)) = log s @ es \<and>
      (case fst (slev M fuel t_num w_id d_id level s) of
         Inr v \<Rightarrow> v = 1 \<and> committed t_num es \<or> v = 0 \<and> slev_given_up t_num es
       | Inl e \<Rightarrow> \<forall>l. e \<noteq> Goto l))"
  using ordstat_traced [unfolded traced_def no_escape_def] slev_traced [unfolded traced_def no_escape_def]
  by blast

text \<open>
  Property C7. No transaction leaves a result set open, on whatever path it returns, unless a
  \<open>mysql_stmt_bind_result\<close> has failed: then the result stored just before is not freed, since
  the handlers at \<open>sqlerr\<close> free none. The next \<open>mysql_stmt_store_result\<close> of the connection
  depends on it.
\<close>

theorem transactions_free_results:
  "traced (\<lambda>_ es. leak es \<or> (\<forall>S. opens S es \<subseteq> S)) (\<lambda>_ _. True)
     (neword M t_num w_id d_id c_id o_ol_cnt o_all_local items supwares qtys) \<and>
   traced (\<lambda>_ es. leak es \<or> (\<forall>S. opens S es \<subseteq> S)) (\<lambda>_ _. True)
     (payment M t_num w_id d_id byname c_w_id c_d_id c_id c_last h_amount) \<and>
   traced (\<lambda>_ es. leak es \<or> (\<forall>S. opens S es \<subseteq> S)) (\<lambda>_ _. True)
     (ordstat M fuel t_num w_id d_id byname c_id c_last) \<and>
   traced (\<lambda>_ es. leak es \<or> (\<forall>S. opens S es \<subseteq> S)) (\<lambda>_ _. True)
     (delivery M t_num w_id o_carrier_id) \<and>
   traced (\<lambda>_ es. leak es \<or> (\<forall>S. opens S es \<subseteq> S)) (\<lambda>_ _. True)
     (slev M fuel t_num w_id d_id level)"
  by (intro conjI neword_freed [unfolded quiet_def] payment_freed [unfolded quiet_def]
      ordstat_freed [unfolded quiet_def] delivery_freed [unfolded quiet_def]
      slev_freed [unfolded quiet_def])

text \<open>
  Property C15. With a server that accepts every call no guard, array access or loop of the code
  stops a transaction: New-Order (of at most 15 lines), Payment, Order-Status and Delivery commit
  and return 1, Delivery with all ten districts done.
\<close>

theorem transactions_complete:
  assumes "obliging M" and "shd (stamps s) = Some str" and "o_ol_cnt \<le> 15"
    and "\<forall>w. ends_within M t_num 24 n w" and "n \<le> fuel"
  shows "(\<exists>t es. neword M t_num w_id d_id c_id o_ol_cnt o_all_local items supwares qtys s = (Inr 1, t) \<and>
      log t = log s @ es \<and> committed t_num es) \<and>
    (\<exists>t es. payment M t_num w_id d_id byname c_w_id c_d_id c_id c_last h_amount s = (Inr 1, t) \<and>
      log t = log s @ es \<and> committed t_num es) \<and>
    (\<exists>t es. ordstat M fuel t_num w_id d_id byname c_id c_last s = (Inr 1, t) \<and>
      log t = log s @ es \<and> committed t_num es) \<and>
    (\<exists>t es. delivery M t_num w_id o_carrier_id s = (Inr 1, t) \<and> log t = log s @ es \<and>
      districts_done t_num w_id o_carrier_id [1..DIST_PER_WARE] es)"
  by (intro conjI neword_obliging_committed [OF assms(1-3)] payment_obliging_committed [OF assms(1,2)]
      ordstat_obliging_committed [OF assms(1,4,5)] delivery_obliging_done [OF assms(1,2)])

theorem transactions_complete_witness:
  "(\<exists>t es. neword calm_server 0 1 4 9 2 0 example_items example_ware example_qty example_db = (Inr 1, t) \<and>
      log t = log example_db @ es \<and> committed 0 es) \<and>
    (\<exists>t es. payment calm_server 0 1 4 True 1 2 9 ''BARBARBAR'' 5 example_db = (Inr 1, t) \<and>
      log t = log example_db @ es \<and> committed 0 es) \<and>
    (\<exists>t es. ordstat calm_server 4 0 1 4 True 9 ''BARBARBAR'' example_db = (Inr 1, t) \<and>
      log t = log example_db @ es \<and> committed 0 es) \<and>
    (\<exists>t es. delivery calm_server 0 1 7 example_db = (Inr 1, t) \<and> log t = log example_db @ es \<and>
      districts_done 0 1 7 [1..DIST_PER_WARE] es)"
  by (rule transactions_complete [OF calm_obliging example_stamp, where n = 3]) (simp_all add: calm_ends)

end
